(* ===== verification/Rust_Prelude.thy ===== *)
theory Rust_Prelude
  imports Main "HOL-Library.Word"
begin

text \<open>
  The part of Rust the kernel's sources use: machine integers as words, panics as values of a
  sum type, and the total-correctness predicate the component theories reason with.

  The model is of the development profile (\<^verbatim>\<open>overflow-checks = true\<close>), the one every Cargo alias
  of the repository builds with: a plain \<open>+\<close>, \<open>-\<close> or \<open>*\<close> whose result does not fit panics.
  A panic ends the kernel (\<^verbatim>\<open>panic=abort\<close>), so a panicking operation returns no state.
\<close>

unbundle bit_operations_syntax

section \<open>Types\<close>

type_synonym u8 = "8 word"
type_synonym u16 = "16 word"
type_synonym u32 = "32 word"
type_synonym u64 = "64 word"

text \<open>The kernel is built for x86-64 only, where \<^verbatim>\<open>usize\<close> has 64 bits.\<close>

type_synonym usize = "64 word"

abbreviation u64_MAX :: u64 where
  "u64_MAX \<equiv> - 1"

abbreviation u8_MAX :: u8 where
  "u8_MAX \<equiv> - 1"

text \<open>
  Why an operation did not return: an arithmetic overflow, a division by zero, an
  \<^verbatim>\<open>unwrap\<close> of \<^verbatim>\<open>None\<close>, a failed \<^verbatim>\<open>assert!\<close>, an index out of bounds, \<^verbatim>\<open>unreachable!\<close>, an
  explicit \<^verbatim>\<open>panic!\<close>, a loop that repeats the same state for ever, or, in \<^verbatim>\<open>unsafe\<close> code, an access
  through a pointer that refers to no value, which is undefined behaviour.
\<close>

datatype panic = Overflow | DivByZero | UnwrapNone | AssertFailed | OutOfBounds
  | Unreachable | Explicit | Diverges | BadPointer

type_synonym 'a rust = "panic + 'a"

abbreviation ret :: "'a \<Rightarrow> 'a rust" where
  "ret \<equiv> Inr"

abbreviation throw :: "panic \<Rightarrow> 'a rust" where
  "throw \<equiv> Inl"

text \<open>Sequencing: a panic in the first computation is the panic of the whole.\<close>

primrec bnd :: "'a rust \<Rightarrow> ('a \<Rightarrow> 'b rust) \<Rightarrow> 'b rust" where
  "bnd (Inl e) f = Inl e"
| "bnd (Inr x) f = f x"

lemma bnd_cong [fundef_cong]:
  "m = m' \<Longrightarrow> (\<And>x. m' = Inr x \<Longrightarrow> f x = f' x) \<Longrightarrow> bnd m f = bnd m' f'"
  by (cases m') auto

lemma bnd_ret [simp]: "bnd m ret = m"
  by (cases m) auto

lemma bnd_assoc: "bnd (bnd m f) g = bnd m (\<lambda>x. bnd (f x) g)"
  by (cases m) auto

definition unwrap :: "'a option \<Rightarrow> 'a rust" where
  "unwrap x = (case x of None \<Rightarrow> throw UnwrapNone | Some y \<Rightarrow> ret y)"

definition rassert :: "bool \<Rightarrow> unit rust" where
  "rassert b = (if b then ret () else throw AssertFailed)"

section \<open>Integer operations\<close>

definition checked_add :: "'a::len word \<Rightarrow> 'a word \<Rightarrow> 'a word option" where
  "checked_add x y = (if unat x + unat y < 2 ^ LENGTH('a) then Some (x + y) else None)"

definition checked_sub :: "'a::len word \<Rightarrow> 'a word \<Rightarrow> 'a word option" where
  "checked_sub x y = (if y \<le> x then Some (x - y) else None)"

definition checked_mul :: "'a::len word \<Rightarrow> 'a word \<Rightarrow> 'a word option" where
  "checked_mul x y = (if unat x * unat y < 2 ^ LENGTH('a) then Some (x * y) else None)"

definition u_add :: "'a::len word \<Rightarrow> 'a word \<Rightarrow> 'a word rust" where
  "u_add x y = (case checked_add x y of None \<Rightarrow> throw Overflow | Some z \<Rightarrow> ret z)"

definition u_sub :: "'a::len word \<Rightarrow> 'a word \<Rightarrow> 'a word rust" where
  "u_sub x y = (case checked_sub x y of None \<Rightarrow> throw Overflow | Some z \<Rightarrow> ret z)"

definition u_mul :: "'a::len word \<Rightarrow> 'a word \<Rightarrow> 'a word rust" where
  "u_mul x y = (case checked_mul x y of None \<Rightarrow> throw Overflow | Some z \<Rightarrow> ret z)"

definition u_div :: "'a::len word \<Rightarrow> 'a word \<Rightarrow> 'a word rust" where
  "u_div x y = (if y = 0 then throw DivByZero else ret (x div y))"

definition u_rem :: "'a::len word \<Rightarrow> 'a word \<Rightarrow> 'a word rust" where
  "u_rem x y = (if y = 0 then throw DivByZero else ret (x mod y))"

text \<open>A shift by the width or more panics; bits shifted out are lost silently.\<close>

definition u_shl :: "'a::len word \<Rightarrow> nat \<Rightarrow> 'a word rust" where
  "u_shl x n = (if n < LENGTH('a) then ret (push_bit n x) else throw Overflow)"

definition u_shr :: "'a::len word \<Rightarrow> nat \<Rightarrow> 'a word rust" where
  "u_shr x n = (if n < LENGTH('a) then ret (drop_bit n x) else throw Overflow)"

text \<open>\<^verbatim>\<open>try_into().unwrap()\<close> to a narrower integer.\<close>

definition try_into :: "'a::len word \<Rightarrow> 'b::len word rust" where
  "try_into x = (if unat x < 2 ^ LENGTH('b) then ret (ucast x) else throw UnwrapNone)"

section \<open>Slices\<close>

definition index :: "'a list \<Rightarrow> nat \<Rightarrow> 'a rust" where
  "index xs i = (if i < length xs then ret (xs ! i) else throw OutOfBounds)"

definition store :: "'a list \<Rightarrow> nat \<Rightarrow> 'a \<Rightarrow> 'a list rust" where
  "store xs i x = (if i < length xs then ret (xs[i := x]) else throw OutOfBounds)"

text \<open>\<^verbatim>\<open>(a..b).step_by(s)\<close>; a step of zero panics when the iterator is built.\<close>

definition step_by :: "nat \<Rightarrow> nat \<Rightarrow> nat \<Rightarrow> nat list rust" where
  "step_by a b s = (if s = 0 then throw AssertFailed
     else ret (filter (\<lambda>i. (i - a) mod s = 0) [a..<b]))"

section \<open>Total correctness\<close>

text \<open>\<open>runs m P\<close>: the computation returns (no panic, no divergence) and the result satisfies \<open>P\<close>.\<close>

definition runs :: "'a rust \<Rightarrow> ('a \<Rightarrow> bool) \<Rightarrow> bool" where
  "runs m P = (case m of Inl e \<Rightarrow> False | Inr x \<Rightarrow> P x)"

named_theorems wp \<open>weakest preconditions of the Rust primitives\<close>
named_theorems rust_iff \<open>when a Rust primitive returns or panics, as an equivalence\<close>

lemma runs_Inl [wp, simp]: "runs (Inl e) P = False"
  by (simp add: runs_def)

lemma runs_Inr [wp, simp]: "runs (Inr x) P = P x"
  by (simp add: runs_def)

lemma runs_bnd [wp]: "runs (bnd m f) P = runs m (\<lambda>x. runs (f x) P)"
  by (cases m) auto

lemma runs_if [wp]: "runs (if b then m else m') P = (if b then runs m P else runs m' P)"
  by simp

lemma runs_mono: "runs m P \<Longrightarrow> (\<And>x. m = Inr x \<Longrightarrow> P x \<Longrightarrow> Q x) \<Longrightarrow> runs m Q"
  by (cases m) auto

lemma runs_iff: "runs m P \<longleftrightarrow> (\<exists>x. m = Inr x \<and> P x)"
  by (cases m) auto

lemma runs_eq: "runs m (\<lambda>x. x = y) \<longleftrightarrow> m = Inr y"
  by (cases m) auto

lemma bnd_Inr_iff [rust_iff]: "bnd m f = Inr y \<longleftrightarrow> (\<exists>x. m = Inr x \<and> f x = Inr y)"
  by (cases m) auto

text \<open>Following a computation that returns, step by step.\<close>

lemma bnd_InrE: "bnd m f = Inr y \<Longrightarrow> (\<And>x. m = Inr x \<Longrightarrow> f x = Inr y \<Longrightarrow> P) \<Longrightarrow> P"
  by (cases m) auto

lemma pair_InrE: "(case p of (a, b) \<Rightarrow> g a b) = Inr y \<Longrightarrow> (\<And>a b. p = (a, b) \<Longrightarrow> g a b = Inr y \<Longrightarrow> P) \<Longrightarrow> P"
  by (cases p) auto

lemma bnd_Inl_iff: "bnd m f = Inl e \<longleftrightarrow> m = Inl e \<or> (\<exists>x. m = Inr x \<and> f x = Inl e)"
  by (cases m) auto

lemma runs_unwrap [wp]: "runs (unwrap x) P \<longleftrightarrow> (\<exists>y. x = Some y \<and> P y)"
  by (auto simp: unwrap_def split: option.split)

lemma unwrap_simps [simp]: "unwrap (Some x) = Inr x" "unwrap None = Inl UnwrapNone"
  by (simp_all add: unwrap_def)

lemma unwrap_Inr_iff [rust_iff]: "unwrap x = Inr y \<longleftrightarrow> x = Some y"
  by (auto simp: unwrap_def split: option.splits)

lemma runs_rassert [wp]: "runs (rassert b) P \<longleftrightarrow> b \<and> P ()"
  by (simp add: rassert_def)

lemma rassert_simps [simp]: "rassert True = Inr ()" "rassert False = Inl AssertFailed"
  by (simp_all add: rassert_def)

lemma rassert_Inr_iff [rust_iff]: "rassert b = Inr u \<longleftrightarrow> b"
  by (simp add: rassert_def)

subsection \<open>Arithmetic without overflow is arithmetic on numbers\<close>

lemma unat_less_exp [simp]: "unat (x :: 'a::len word) < 2 ^ LENGTH('a)"
  by (rule unsigned_less)

lemma unat_u64_less [simp]: "unat (x :: u64) < 18446744073709551616"
  using unat_less_exp [of x] by simp

lemma unat_u8_less [simp]: "unat (x :: u8) < 256"
  using unat_less_exp [of x] by simp

lemma unat_add_exact:
  "unat x + unat y < 2 ^ LENGTH('a) \<Longrightarrow> unat (x + y :: 'a::len word) = unat x + unat y"
  by (simp add: unat_add_lem)

lemma unat_sub_exact:
  "y \<le> x \<Longrightarrow> unat (x - y :: 'a::len word) = unat x - unat y"
  by (rule unat_sub)

lemma unat_mul_exact:
  "unat x * unat y < 2 ^ LENGTH('a) \<Longrightarrow> unat (x * y :: 'a::len word) = unat x * unat y"
  by (simp add: unat_mult_lem)

lemma unat_eqI: "unat x = unat y \<Longrightarrow> x = (y :: 'a::len word)"
  by (simp add: word_unat_eq_iff)

lemma unat_inj_iff: "unat x = unat (y :: 'a::len word) \<longleftrightarrow> x = y"
  by (simp add: word_unat_eq_iff)

lemma checked_add_Some_iff [rust_iff]:
  "checked_add x y = Some z \<longleftrightarrow> unat z = unat x + unat (y :: 'a::len word)"
  by (auto simp: checked_add_def unat_add_exact intro: unat_eqI)
    (metis unat_less_exp)

lemma checked_sub_Some_iff [rust_iff]:
  "checked_sub x y = Some z \<longleftrightarrow> unat x = unat z + unat (y :: 'a::len word)"
  by (auto simp: checked_sub_def unat_sub_exact word_le_nat_alt intro: unat_eqI)

lemma checked_mul_Some_iff [rust_iff]:
  "checked_mul x y = Some z \<longleftrightarrow> unat z = unat x * unat (y :: 'a::len word)"
  by (auto simp: checked_mul_def unat_mul_exact intro: unat_eqI)
    (metis unat_less_exp)

lemma checked_add_None_iff [rust_iff]:
  "checked_add x y = None \<longleftrightarrow> 2 ^ LENGTH('a) \<le> unat x + unat (y :: 'a::len word)"
  by (simp add: checked_add_def not_less)

lemma checked_sub_None_iff [rust_iff]:
  "checked_sub x y = None \<longleftrightarrow> unat x < unat (y :: 'a::len word)"
  by (simp add: checked_sub_def word_le_nat_alt not_le)

lemma checked_mul_None_iff [rust_iff]:
  "checked_mul x y = None \<longleftrightarrow> 2 ^ LENGTH('a) \<le> unat x * unat (y :: 'a::len word)"
  by (simp add: checked_mul_def not_less)

lemma u_add_Inr_iff [rust_iff]: "u_add x y = Inr z \<longleftrightarrow> unat z = unat x + unat y"
  by (auto simp: u_add_def rust_iff intro: unat_eqI split: option.splits)
    (metis not_less unat_less_exp)

lemma u_sub_Inr_iff [rust_iff]: "u_sub x y = Inr z \<longleftrightarrow> unat x = unat z + unat y"
  by (auto simp: u_sub_def rust_iff intro: unat_eqI split: option.splits)

lemma u_mul_Inr_iff [rust_iff]: "u_mul x y = Inr z \<longleftrightarrow> unat z = unat x * unat y"
  by (auto simp: u_mul_def rust_iff intro: unat_eqI split: option.splits)
    (metis not_less unat_less_exp)

lemma u_add_Inl_iff [rust_iff]:
  "u_add x y = Inl e \<longleftrightarrow> e = Overflow \<and> 2 ^ LENGTH('a) \<le> unat x + unat (y :: 'a::len word)"
  by (auto simp: u_add_def checked_add_def)

lemma u_sub_Inl_iff [rust_iff]: "u_sub x y = Inl e \<longleftrightarrow> e = Overflow \<and> unat x < unat y"
  by (auto simp: u_sub_def checked_sub_def word_le_nat_alt not_le)

lemma unat_of_nat_eq: "n < 2 ^ LENGTH('a) \<Longrightarrow> unat (of_nat n :: 'a::len word) = n"
  by (simp add: unat_of_nat)

lemma u_sub_1: "c \<noteq> 0 \<Longrightarrow> u_sub c 1 = ret (c - 1)"
  by (simp add: u_sub_def checked_sub_def word_le_nat_alt Suc_le_eq unat_gt_0)

lemma u_add_of_nat:
  "n + m < 2 ^ LENGTH('a) \<Longrightarrow> u_add (of_nat n) (of_nat m :: 'a::len word) = ret (of_nat (n + m))"
  by (subst u_add_Inr_iff) (simp add: unat_of_nat_eq del: of_nat_add)

lemma u_add_Suc: "Suc n < 2 ^ LENGTH('a) \<Longrightarrow> u_add (of_nat n) (1 :: 'a::len word) = ret (of_nat (Suc n))"
  using u_add_of_nat [of n 1, where 'a = 'a] by (simp add: add.commute)

lemma u_mul_of_nat:
  "unat y = m \<Longrightarrow> n * m < 2 ^ LENGTH('a) \<Longrightarrow> n < 2 ^ LENGTH('a) \<Longrightarrow>
   u_mul (of_nat n) (y :: 'a::len word) = ret (of_nat (n * m))"
  by (subst u_mul_Inr_iff) (simp add: unat_of_nat_eq del: of_nat_mult)

lemma u_sub_of_nat:
  "m \<le> n \<Longrightarrow> n < 2 ^ LENGTH('a) \<Longrightarrow> u_sub (of_nat n) (of_nat m :: 'a::len word) = ret (of_nat (n - m))"
  by (subst u_sub_Inr_iff) (simp add: unat_of_nat_eq del: of_nat_diff)

lemma of_nat_div_word:
  "n < 2 ^ LENGTH('a) \<Longrightarrow> unat y = m \<Longrightarrow> of_nat n div (y :: 'a::len word) = of_nat (n div m)"
  by (rule unat_eqI) (simp add: unat_div unat_of_nat_eq le_less_trans [OF div_le_dividend])

lemma of_nat_mod_word:
  "n < 2 ^ LENGTH('a) \<Longrightarrow> unat y = m \<Longrightarrow> of_nat n mod (y :: 'a::len word) = of_nat (n mod m)"
  by (rule unat_eqI) (simp add: unat_mod unat_of_nat_eq le_less_trans [OF mod_less_eq_dividend])

lemma of_nat_word_eq_iff:
  "n < 2 ^ LENGTH('a) \<Longrightarrow> m < 2 ^ LENGTH('a) \<Longrightarrow> of_nat n = (of_nat m :: 'a::len word) \<longleftrightarrow> n = m"
  by (metis unat_of_nat_eq)

lemma try_into_of_nat:
  "n < 2 ^ LENGTH('a) \<Longrightarrow> n < 2 ^ LENGTH('b) \<Longrightarrow>
   try_into (of_nat n :: 'a::len word) = ret (of_nat n :: 'b::len word)"
  by (auto simp: try_into_def unat_of_nat_eq word_unat_eq_iff unsigned_ucast_eq take_bit_nat_eq_self_iff)

lemma runs_u_add [wp]:
  "runs (u_add x y) P \<longleftrightarrow> unat x + unat y < 2 ^ LENGTH('a) \<and> P (x + y :: 'a::len word)"
  by (simp add: u_add_def checked_add_def)

lemma runs_u_sub [wp]: "runs (u_sub x y) P \<longleftrightarrow> unat y \<le> unat x \<and> P (x - y)"
  by (simp add: u_sub_def checked_sub_def word_le_nat_alt)

lemma runs_u_mul [wp]:
  "runs (u_mul x y) P \<longleftrightarrow> unat x * unat y < 2 ^ LENGTH('a) \<and> P (x * y :: 'a::len word)"
  by (simp add: u_mul_def checked_mul_def)

lemma runs_u_div [wp]: "runs (u_div x y) P \<longleftrightarrow> y \<noteq> 0 \<and> P (x div y)"
  by (simp add: u_div_def)

lemma runs_u_rem [wp]: "runs (u_rem x y) P \<longleftrightarrow> y \<noteq> 0 \<and> P (x mod y)"
  by (simp add: u_rem_def)

lemma runs_u_shl [wp]: "runs (u_shl x n) P \<longleftrightarrow> n < LENGTH('a) \<and> P (push_bit n (x :: 'a::len word))"
  by (simp add: u_shl_def)

lemma runs_u_shr [wp]: "runs (u_shr x n) P \<longleftrightarrow> n < LENGTH('a) \<and> P (drop_bit n (x :: 'a::len word))"
  by (simp add: u_shr_def)

lemma runs_index [wp]: "runs (index xs i) P \<longleftrightarrow> i < length xs \<and> P (xs ! i)"
  by (simp add: index_def)

lemma runs_store [wp]: "runs (store xs i x) P \<longleftrightarrow> i < length xs \<and> P (xs[i := x])"
  by (simp add: store_def)

lemma index_eq [simp]: "i < length xs \<Longrightarrow> index xs i = Inr (xs ! i)"
  by (simp add: index_def)

lemma store_eq [simp]: "i < length xs \<Longrightarrow> store xs i x = Inr (xs[i := x])"
  by (simp add: store_def)

subsection \<open>Rounding to a multiple\<close>

definition round_down :: "nat \<Rightarrow> nat \<Rightarrow> nat" where
  "round_down m n = n div m * m"

definition round_up :: "nat \<Rightarrow> nat \<Rightarrow> nat" where
  "round_up m n = round_down m (n + (m - 1))"

lemma round_down_dvd [simp, intro]: "m dvd round_down m n"
  by (simp add: round_down_def)

lemma round_up_dvd [simp, intro]: "m dvd round_up m n"
  by (simp add: round_up_def)

lemma round_down_le [simp, intro]: "round_down m n \<le> n"
  by (simp add: round_down_def)

lemma round_down_gt: "0 < m \<Longrightarrow> n < round_down m n + m"
  unfolding round_down_def by (metis add.commute dividend_less_times_div mult.commute)

lemma round_down_greatest: "m dvd d \<Longrightarrow> d \<le> n \<Longrightarrow> d \<le> round_down m n"
  unfolding round_down_def by (metis div_le_mono dvd_div_mult_self mult_le_mono1)

lemma round_down_id: "m dvd n \<Longrightarrow> round_down m n = n"
  by (simp add: round_down_def)

lemma round_up_ge: "0 < m \<Longrightarrow> n \<le> round_up m n"
  using round_down_gt [of m "n + (m - 1)"] by (simp add: round_up_def)

lemma round_up_lt: "0 < m \<Longrightarrow> round_up m n < n + m"
  using round_down_le [of m "n + (m - 1)"] unfolding round_up_def by linarith

lemma dvd_gap: "m dvd a \<Longrightarrow> m dvd b \<Longrightarrow> a < b + m \<Longrightarrow> a \<le> (b :: nat)"
  by (auto elim!: dvdE) (metis add.commute less_Suc_eq_le mult_Suc_right nat_mult_less_cancel1)

lemma round_up_least: "0 < m \<Longrightarrow> m dvd d \<Longrightarrow> n \<le> d \<Longrightarrow> round_up m n \<le> d"
  using round_up_lt [of m n] by (intro dvd_gap [of m]) auto

lemma round_up_id: "0 < m \<Longrightarrow> m dvd n \<Longrightarrow> round_up m n = n"
  by (meson dual_order.antisym order_refl round_up_ge round_up_least)

lemma interval_minus_last: "{i..<n} - {n - 1} = {i..<n - 1 :: nat}"
  by auto

text \<open>Clearing the low bits rounds down to a power of two.\<close>

lemma unat_and_not_mask:
  "unat (x AND NOT (mask k) :: 'a::len word) = round_down (2 ^ k) (unat x)"
proof -
  have "x AND NOT (mask k) = push_bit k (drop_bit k x)"
    by (rule bit_word_eqI) (auto simp: bit_simps)
  then have "unat (x AND NOT (mask k)) = take_bit LENGTH('a) (push_bit k (unat (drop_bit k x)))"
    by (simp add: unsigned_push_bit_eq)
  also have "\<dots> = take_bit LENGTH('a) (round_down (2 ^ k) (unat x))"
    by (simp add: unat_drop_bit_eq push_bit_eq_mult flip: drop_bit_eq_div)
      (simp add: drop_bit_eq_div round_down_def)
  also have "\<dots> = round_down (2 ^ k) (unat x)"
    using le_less_trans [OF round_down_le [of "2 ^ k" "unat x"] unat_less_exp]
    by (simp add: take_bit_nat_eq_self_iff)
  finally show ?thesis .
qed

lemma unat_pow2_less_width: "unat (a :: 'a::len word) = 2 ^ k \<Longrightarrow> k < LENGTH('a)"
  by (metis one_less_numeral_iff power_less_imp_less_exp semiring_norm(76) unat_less_exp)

lemma pow2_minus_1: "unat (a :: 'a::len word) = 2 ^ k \<Longrightarrow> a - 1 = mask k"
  by (metis mask_eq_exp_minus_1 of_nat_numeral of_nat_power of_nat_unat ucast_id)

end
