(* ===== verification/Addr.thy ===== *)
theory Addr
  imports Rust_Prelude
begin

text \<open>
  \<^verbatim>\<open>shared/src/memory/addr.rs\<close>: addresses, lengths and extents of the physical and the virtual
  address space, kept at their width of 64 bits. The second half of the theory reads an extent as
  the set of addresses it holds and proves the interval operations against that reading.
\<close>

section \<open>Model\<close>

datatype PhysAddressType = PhysAddressType
datatype VirtAddressType = VirtAddressType

text \<open>\<^verbatim>\<open>Address<Type>(u64, PhantomData<Type>)\<close>: the type parameter is a phantom here too.\<close>

datatype 't address = Address (addr_raw: u64)

type_synonym phys_address = "PhysAddressType address"
type_synonym virt_address = "VirtAddressType address"

datatype mem_length = Length (len_raw: u64)

text \<open>The derived orders compare the raw values.\<close>

instantiation address :: (type) linorder
begin

definition less_eq_address :: "'a address \<Rightarrow> 'a address \<Rightarrow> bool" where
  "less_eq_address a b \<longleftrightarrow> addr_raw a \<le> addr_raw b"

definition less_address :: "'a address \<Rightarrow> 'a address \<Rightarrow> bool" where
  "less_address a b \<longleftrightarrow> addr_raw a < addr_raw b"

instance
  by standard (auto simp: less_eq_address_def less_address_def intro: address.expand)

end

instantiation mem_length :: linorder
begin

definition less_eq_mem_length :: "mem_length \<Rightarrow> mem_length \<Rightarrow> bool" where
  "less_eq_mem_length a b \<longleftrightarrow> len_raw a \<le> len_raw b"

definition less_mem_length :: "mem_length \<Rightarrow> mem_length \<Rightarrow> bool" where
  "less_mem_length a b \<longleftrightarrow> len_raw a < len_raw b"

instance
  by standard (auto simp: less_eq_mem_length_def less_mem_length_def intro: mem_length.expand)

end

subsection \<open>Alignment of raw values\<close>

definition align_u64_down :: "u64 \<Rightarrow> u64 \<Rightarrow> u64 rust" where
  "align_u64_down x alignment =
     bnd (u_sub alignment 1) (\<lambda>m. let mask = NOT m in ret (x AND mask))"

definition align_u64_up :: "u64 \<Rightarrow> u64 \<Rightarrow> u64 rust" where
  "align_u64_up x alignment =
     bnd (u_sub alignment 1) (\<lambda>m. bnd (u_add x m) (\<lambda>y. align_u64_down y alignment))"

subsection \<open>Addresses\<close>

definition address_zero :: "'t address" where
  "address_zero = Address 0"

definition is_zero :: "'t address \<Rightarrow> bool" where
  "is_zero self \<longleftrightarrow> addr_raw self = 0"

definition from_zero :: "mem_length \<Rightarrow> 't address" where
  "from_zero offset = Address (len_raw offset)"

definition offset_by_checked :: "'t address \<Rightarrow> mem_length \<Rightarrow> 't address option" where
  "offset_by_checked self l = map_option Address (checked_add (addr_raw self) (len_raw l))"

definition address_align_down :: "'t address \<Rightarrow> u64 \<Rightarrow> 't address rust" where
  "address_align_down self alignment =
     bnd (align_u64_down (addr_raw self) alignment) (\<lambda>r. ret (Address r))"

definition address_align_up :: "'t address \<Rightarrow> u64 \<Rightarrow> 't address rust" where
  "address_align_up self alignment =
     bnd (align_u64_up (addr_raw self) alignment) (\<lambda>r. ret (Address r))"

definition address_is_aligned_to :: "'t address \<Rightarrow> u64 \<Rightarrow> bool rust" where
  "address_is_aligned_to self alignment =
     bnd (address_align_down self alignment) (\<lambda>d. ret (addr_raw self = addr_raw d))"

definition is_aligned_to_length :: "'t address \<Rightarrow> mem_length \<Rightarrow> bool rust" where
  "is_aligned_to_length self alignment = address_is_aligned_to self (len_raw alignment)"

text \<open>\<^verbatim>\<open>Add<Length>\<close>, \<^verbatim>\<open>Sub<Length>\<close> and \<^verbatim>\<open>Sub<Self>\<close> for \<^verbatim>\<open>Address\<close>.\<close>

definition address_add :: "'t address \<Rightarrow> mem_length \<Rightarrow> 't address rust" where
  "address_add self rhs = unwrap (offset_by_checked self rhs)"

definition address_sub_length :: "'t address \<Rightarrow> mem_length \<Rightarrow> 't address rust" where
  "address_sub_length self rhs =
     bnd (unwrap (checked_sub (addr_raw self) (len_raw rhs))) (\<lambda>r. ret (Address r))"

definition address_sub :: "'t address \<Rightarrow> 't address \<Rightarrow> mem_length rust" where
  "address_sub self rhs =
     bnd (unwrap (checked_sub (addr_raw self) (addr_raw rhs))) (\<lambda>r. ret (Length r))"

subsection \<open>Lengths\<close>

definition length_align_down :: "mem_length \<Rightarrow> u64 \<Rightarrow> mem_length rust" where
  "length_align_down self alignment =
     bnd (align_u64_down (len_raw self) alignment) (\<lambda>r. ret (Length r))"

definition length_align_up :: "mem_length \<Rightarrow> u64 \<Rightarrow> mem_length rust" where
  "length_align_up self alignment =
     bnd (align_u64_up (len_raw self) alignment) (\<lambda>r. ret (Length r))"

definition length_is_aligned_to :: "mem_length \<Rightarrow> u64 \<Rightarrow> bool rust" where
  "length_is_aligned_to self alignment =
     bnd (length_align_down self alignment) (\<lambda>d. ret (len_raw self = len_raw d))"

text \<open>Unlike addresses, lengths are added and subtracted with the plain operators.\<close>

definition length_add :: "mem_length \<Rightarrow> mem_length \<Rightarrow> mem_length rust" where
  "length_add self rhs = bnd (u_add (len_raw self) (len_raw rhs)) (\<lambda>r. ret (Length r))"

definition length_sub :: "mem_length \<Rightarrow> mem_length \<Rightarrow> mem_length rust" where
  "length_sub self rhs = bnd (u_sub (len_raw self) (len_raw rhs)) (\<lambda>r. ret (Length r))"

definition length_mul :: "mem_length \<Rightarrow> u64 \<Rightarrow> mem_length rust" where
  "length_mul self rhs = bnd (unwrap (checked_mul (len_raw self) rhs)) (\<lambda>r. ret (Length r))"

subsection \<open>Extents\<close>

record 't extent =
  ext_address :: "'t address"
  ext_length :: mem_length

type_synonym phys_extent = "PhysAddressType extent"
type_synonym virt_extent = "VirtAddressType extent"

definition extent_new_checked :: "'t address \<Rightarrow> mem_length \<Rightarrow> 't extent option rust" where
  "extent_new_checked a l =
     bnd (u_sub u64_MAX (addr_raw a)) (\<lambda>room.
     if len_raw l = 0 \<or> len_raw l > room then ret None
     else ret (Some \<lparr>ext_address = a, ext_length = l\<rparr>))"

definition extent_new :: "'t address \<Rightarrow> mem_length \<Rightarrow> 't extent rust" where
  "extent_new a l = bnd (extent_new_checked a l) unwrap"

definition extent_from_raw :: "u64 \<Rightarrow> u64 \<Rightarrow> 't extent rust" where
  "extent_from_raw a l = extent_new (Address a) (Length l)"

definition from_range_exclusive :: "'t address \<Rightarrow> 't address \<Rightarrow> 't extent rust" where
  "from_range_exclusive begin_address end_address =
     bnd (u_sub (addr_raw end_address) (addr_raw begin_address)) (\<lambda>l.
     ret \<lparr>ext_address = begin_address, ext_length = Length l\<rparr>)"

definition from_raw_range_exclusive :: "u64 \<Rightarrow> u64 \<Rightarrow> 't extent rust" where
  "from_raw_range_exclusive begin_address end_address =
     from_range_exclusive (Address begin_address) (Address end_address)"

definition from_range_inclusive :: "'t address \<Rightarrow> 't address \<Rightarrow> 't extent rust" where
  "from_range_inclusive start last_addr =
     bnd (address_sub last_addr start) (\<lambda>d.
     bnd (length_add d (Length 1)) (\<lambda>l.
     ret \<lparr>ext_address = start, ext_length = l\<rparr>))"

definition end_address :: "'t extent \<Rightarrow> 't address rust" where
  "end_address self = address_add (ext_address self) (ext_length self)"

definition last_address :: "'t extent \<Rightarrow> 't address rust" where
  "last_address self =
     bnd (address_add (ext_address self) (ext_length self)) (\<lambda>e.
     address_sub_length e (Length 1))"

function overlap :: "'t extent \<Rightarrow> 't extent \<Rightarrow> 't extent option rust" where
  "overlap self other =
     (if ext_address self > ext_address other then overlap other self
      else
        bnd (address_sub (ext_address other) (ext_address self)) (\<lambda>d.
        if d \<ge> ext_length self then ret None
        else
          bnd (length_sub (ext_length self) d) (\<lambda>rest.
          ret (Some \<lparr>ext_address = ext_address other,
                     ext_length = min rest (ext_length other)\<rparr>))))"
  by pat_completeness auto
termination
  by (relation "measure (\<lambda>(s, t). if ext_address s > ext_address t then 1 else 0)") auto

declare overlap.simps [simp del]

definition join :: "'t extent \<Rightarrow> 't extent \<Rightarrow> 't extent rust" where
  "join self other =
     (let min_start = min (ext_address self) (ext_address other) in
      bnd (last_address self) (\<lambda>sl.
      bnd (last_address other) (\<lambda>ol.
      from_range_inclusive min_start (max sl ol))))"

definition has_overlap :: "'t extent \<Rightarrow> 't extent \<Rightarrow> bool rust" where
  "has_overlap self other = bnd (overlap self other) (\<lambda>x. ret (x \<noteq> None))"

definition contains :: "'t extent \<Rightarrow> 't extent \<Rightarrow> bool rust" where
  "contains self other =
     bnd (overlap self other) (\<lambda>x.
     case x of None \<Rightarrow> ret False | Some ov \<Rightarrow> ret (ov = other))"

definition left_difference :: "'t extent \<Rightarrow> 't extent \<Rightarrow> 't extent option rust" where
  "left_difference self other =
     (if ext_address self \<ge> ext_address other then ret None
      else
        bnd (address_sub (ext_address other) (ext_address self)) (\<lambda>d.
        ret (Some \<lparr>ext_address = ext_address self, ext_length = min (ext_length self) d\<rparr>)))"

definition right_difference :: "'t extent \<Rightarrow> 't extent \<Rightarrow> 't extent option rust" where
  "right_difference self other =
     bnd (last_address self) (\<lambda>sl.
     bnd (last_address other) (\<lambda>ol.
     if sl \<le> ol then ret None
     else
       bnd (end_address other) (\<lambda>oe.
       let diff_address = max (ext_address self) oe in
       bnd (address_sub diff_address (ext_address self)) (\<lambda>d.
       bnd (length_sub (ext_length self) d) (\<lambda>l.
       ret (Some \<lparr>ext_address = diff_address, ext_length = l\<rparr>))))))"

text \<open>\<^verbatim>\<open>&&\<close> evaluates the second test only when the first holds.\<close>

definition extent_is_aligned_to :: "'t extent \<Rightarrow> u64 \<Rightarrow> bool rust" where
  "extent_is_aligned_to self alignment =
     bnd (address_is_aligned_to (ext_address self) alignment) (\<lambda>b.
     if b then length_is_aligned_to (ext_length self) alignment else ret False)"

definition shrink_to_alignment :: "'t extent \<Rightarrow> u64 \<Rightarrow> 't extent option rust" where
  "shrink_to_alignment self alignment =
     bnd (address_align_up (ext_address self) alignment) (\<lambda>start.
     bnd (end_address self) (\<lambda>e.
     bnd (address_align_down e alignment) (\<lambda>ende.
     if ende \<le> start then ret None
     else
       bnd (address_sub ende start) (\<lambda>l.
       ret (Some \<lparr>ext_address = start, ext_length = l\<rparr>)))))"

definition expand_to_alignment :: "'t extent \<Rightarrow> u64 \<Rightarrow> 't extent rust" where
  "expand_to_alignment self alignment =
     bnd (address_align_down (ext_address self) alignment) (\<lambda>start.
     bnd (end_address self) (\<lambda>e.
     bnd (address_align_up e alignment) (\<lambda>ende.
     bnd (address_sub ende start) (\<lambda>l.
     ret \<lparr>ext_address = start, ext_length = l\<rparr>))))"

section \<open>Numbers behind the words\<close>

text \<open>
  \<open>a_nat\<close> and \<open>l_nat\<close> read an address and a length as numbers, \<open>addr_of\<close> and \<open>mlen_of\<close> go back.
  The \<open>wp\<close> rules below turn every operation into arithmetic on these numbers, with the absence
  of overflow as the only side condition.
\<close>

definition a_nat :: "'t address \<Rightarrow> nat" where
  "a_nat a = unat (addr_raw a)"

definition l_nat :: "mem_length \<Rightarrow> nat" where
  "l_nat l = unat (len_raw l)"

definition addr_of :: "nat \<Rightarrow> 't address" where
  "addr_of n = Address (of_nat n)"

definition mlen_of :: "nat \<Rightarrow> mem_length" where
  "mlen_of n = Length (of_nat n)"

named_theorems nat_view \<open>addresses, lengths and extents as numbers\<close>

lemma a_nat_less [simp]: "a_nat a < 18446744073709551616"
  by (simp add: a_nat_def)

lemma a_nat_le: "a_nat a \<le> 18446744073709551615"
  using a_nat_less [of a] by linarith

lemma l_nat_less [simp]: "l_nat a < 18446744073709551616"
  by (simp add: l_nat_def)

lemma a_nat_addr_of [simp]: "n < 18446744073709551616 \<Longrightarrow> a_nat (addr_of n) = n"
  by (simp add: a_nat_def addr_of_def unat_of_nat)

lemma l_nat_mlen_of [simp]: "n < 18446744073709551616 \<Longrightarrow> l_nat (mlen_of n) = n"
  by (simp add: l_nat_def mlen_of_def unat_of_nat)

lemma addr_of_a_nat [simp]: "addr_of (a_nat a) = a"
  by (simp add: a_nat_def addr_of_def)

lemma mlen_of_l_nat [simp]: "mlen_of (l_nat l) = l"
  by (simp add: l_nat_def mlen_of_def)

lemma addr_raw_addr_of: "addr_raw (addr_of n) = of_nat n"
  by (simp add: addr_of_def)

lemma len_raw_mlen_of: "len_raw (mlen_of n) = of_nat n"
  by (simp add: mlen_of_def)

lemma unat_addr_raw [simp]: "unat (addr_raw a) = a_nat a"
  by (simp add: a_nat_def)

lemma unat_len_raw [simp]: "unat (len_raw a) = l_nat a"
  by (simp add: l_nat_def)

lemma a_nat_Address [simp]: "a_nat (Address w) = unat w"
  by (simp add: a_nat_def)

lemma l_nat_Length [simp]: "l_nat (Length w) = unat w"
  by (simp add: l_nat_def)

lemma address_eq_iff [nat_view]: "a = b \<longleftrightarrow> a_nat a = a_nat b"
  by (metis addr_of_a_nat)

lemma mem_length_eq_iff [nat_view]: "a = b \<longleftrightarrow> l_nat a = l_nat b"
  by (metis mlen_of_l_nat)

lemma address_le_iff [nat_view]: "a \<le> b \<longleftrightarrow> a_nat a \<le> a_nat b"
  by (simp add: less_eq_address_def word_le_nat_alt)

lemma address_less_iff [nat_view]: "a < b \<longleftrightarrow> a_nat a < a_nat b"
  by (simp add: less_address_def word_less_nat_alt)

lemma mem_length_le_iff [nat_view]: "a \<le> b \<longleftrightarrow> l_nat a \<le> l_nat b"
  by (simp add: less_eq_mem_length_def word_le_nat_alt)

lemma mem_length_less_iff [nat_view]: "a < b \<longleftrightarrow> l_nat a < l_nat b"
  by (simp add: less_mem_length_def word_less_nat_alt)

lemma a_nat_min [simp]: "a_nat (min a b) = min (a_nat a) (a_nat b)"
  by (simp add: min_def nat_view)

lemma a_nat_max [simp]: "a_nat (max a b) = max (a_nat a) (a_nat b)"
  by (simp add: max_def nat_view)

lemma l_nat_min [simp]: "l_nat (min a b) = min (l_nat a) (l_nat b)"
  by (simp add: min_def nat_view)

lemma addr_ofI: "unat w = n \<Longrightarrow> Address w = addr_of n"
  by (metis a_nat_Address addr_of_a_nat)

lemma len_ofI: "unat w = n \<Longrightarrow> Length w = mlen_of n"
  by (metis l_nat_Length mlen_of_l_nat)

subsection \<open>The operations on numbers\<close>

lemma runs_align_u64_down:
  assumes "unat al = 2 ^ k"
  shows "align_u64_down x al = ret (of_nat (round_down (2 ^ k) (unat x)))"
proof -
  have "al - 1 = mask k" using assms by (rule pow2_minus_1)
  moreover have "1 \<le> unat al" using assms by simp
  ultimately have "align_u64_down x al = ret (x AND NOT (mask k))"
    by (simp add: align_u64_down_def u_sub_def checked_sub_def word_le_nat_alt Let_def)
  also have "x AND NOT (mask k) = of_nat (round_down (2 ^ k) (unat x))"
    by (metis of_nat_unat ucast_id unat_and_not_mask)
  finally show ?thesis .
qed

lemma align_u64_up_eq:
  assumes al: "unat al = 2 ^ k"
  shows "align_u64_up x al =
    (if unat x + (2 ^ k - 1) < 2 ^ 64 then ret (of_nat (round_up (2 ^ k) (unat x)))
     else throw Overflow)"
proof -
  have 1: "unat (al - 1) = 2 ^ k - 1"
    using al by (simp add: unat_sub_exact word_le_nat_alt)
  have 2: "u_sub al 1 = ret (al - 1)"
    using al by (simp add: u_sub_def checked_sub_def word_le_nat_alt)
  show ?thesis
  proof (cases "unat x + (2 ^ k - 1) < 2 ^ 64")
    case True
    then have "u_add x (al - 1) = ret (x + (al - 1))"
      by (simp add: u_add_def checked_add_def 1)
    moreover from True have "unat (x + (al - 1)) = unat x + (2 ^ k - 1)"
      by (subst unat_add_exact) (simp_all add: 1)
    ultimately show ?thesis
      using True by (simp add: align_u64_up_def 2 runs_align_u64_down [OF al] round_up_def)
  next
    case False
    then have "u_add x (al - 1) = throw Overflow"
      by (simp add: u_add_def checked_add_def 1)
    with False show ?thesis by (simp add: align_u64_up_def 2)
  qed
qed

lemma address_align_down_eq:
  "unat al = 2 ^ k \<Longrightarrow>
   address_align_down a al = ret (addr_of (round_down (2 ^ k) (a_nat a)))"
  by (simp add: address_align_down_def runs_align_u64_down addr_of_def)

lemma address_align_up_eq:
  "unat al = 2 ^ k \<Longrightarrow> address_align_up a al =
    (if a_nat a + (2 ^ k - 1) < 2 ^ 64 then ret (addr_of (round_up (2 ^ k) (a_nat a)))
     else throw Overflow)"
  by (simp add: address_align_up_def align_u64_up_eq addr_of_def)

lemma round_down_64 [simp]: "n < 18446744073709551616 \<Longrightarrow> round_down m n < 18446744073709551616"
  by (meson le_less_trans round_down_le)

lemma round_down_eq_iff: "round_down m n = n \<longleftrightarrow> m dvd n"
  by (metis round_down_dvd round_down_id)

lemma addr_raw_eq_iff: "addr_raw a = addr_raw b \<longleftrightarrow> a_nat a = a_nat b"
  unfolding a_nat_def unat_inj_iff by (rule refl)

lemma address_is_aligned_to_eq:
  assumes "unat al = 2 ^ k"
  shows "address_is_aligned_to a al = ret (2 ^ k dvd a_nat a)"
proof -
  have "addr_raw a = addr_raw (addr_of (round_down (2 ^ k) (a_nat a)) :: 'a address) \<longleftrightarrow>
      a_nat a = round_down (2 ^ k) (a_nat a)"
    by (subst addr_raw_eq_iff) simp
  also have "\<dots> \<longleftrightarrow> 2 ^ k dvd a_nat a"
    by (subst eq_commute) (rule round_down_eq_iff)
  finally show ?thesis
    by (simp only: address_is_aligned_to_def address_align_down_eq [OF assms] bnd.simps)
qed

lemma length_is_aligned_to_eq:
  assumes "unat al = 2 ^ k"
  shows "length_is_aligned_to l al = ret (2 ^ k dvd l_nat l)"
  using address_is_aligned_to_eq [OF assms, of "Address (len_raw l)"]
  by (simp add: length_is_aligned_to_def length_align_down_def address_is_aligned_to_def
      address_align_down_def runs_align_u64_down [OF assms])

lemma offset_by_checked_eq:
  "offset_by_checked a l =
    (if a_nat a + l_nat l < 2 ^ 64 then Some (addr_of (a_nat a + l_nat l)) else None)"
  by (simp add: offset_by_checked_def checked_add_def addr_ofI unat_add_exact)

lemma address_add_eq:
  "address_add a l =
    (if a_nat a + l_nat l < 2 ^ 64 then ret (addr_of (a_nat a + l_nat l)) else throw UnwrapNone)"
  by (simp add: address_add_def offset_by_checked_eq)

lemma address_sub_length_eq:
  "address_sub_length a l =
    (if l_nat l \<le> a_nat a then ret (addr_of (a_nat a - l_nat l)) else throw UnwrapNone)"
  by (simp add: address_sub_length_def checked_sub_def word_le_nat_alt addr_ofI unat_sub_exact)

lemma address_sub_eq:
  "address_sub a b =
    (if a_nat b \<le> a_nat a then ret (mlen_of (a_nat a - a_nat b)) else throw UnwrapNone)"
  by (simp add: address_sub_def checked_sub_def word_le_nat_alt len_ofI unat_sub_exact)

lemma length_add_eq:
  "length_add a b =
    (if l_nat a + l_nat b < 2 ^ 64 then ret (mlen_of (l_nat a + l_nat b)) else throw Overflow)"
  by (simp add: length_add_def u_add_def checked_add_def len_ofI unat_add_exact)

lemma length_sub_eq:
  "length_sub a b =
    (if l_nat b \<le> l_nat a then ret (mlen_of (l_nat a - l_nat b)) else throw Overflow)"
  by (simp add: length_sub_def u_sub_def checked_sub_def word_le_nat_alt len_ofI unat_sub_exact)

lemmas addr_op_eqs = address_add_eq address_sub_length_eq address_sub_eq length_add_eq
  length_sub_eq

section \<open>Extents as intervals\<close>

definition lo :: "'t extent \<Rightarrow> nat" where
  "lo e = a_nat (ext_address e)"

definition ln :: "'t extent \<Rightarrow> nat" where
  "ln e = l_nat (ext_length e)"

definition hi :: "'t extent \<Rightarrow> nat" where
  "hi e = lo e + ln e"

definition addrs :: "'t extent \<Rightarrow> nat set" where
  "addrs e = {lo e..<hi e}"

text \<open>What \<^verbatim>\<open>Extent::new\<close> guarantees: not empty, and the end address is representable.\<close>

definition valid_extent :: "'t extent \<Rightarrow> bool" where
  "valid_extent e \<longleftrightarrow> lo e < hi e \<and> hi e < 2 ^ 64"

definition extent_of :: "nat \<Rightarrow> nat \<Rightarrow> 't extent" where
  "extent_of n m = \<lparr>ext_address = addr_of n, ext_length = mlen_of m\<rparr>"

text \<open>The extent from one address up to another, if there is anything between them.\<close>

definition span :: "nat \<Rightarrow> nat \<Rightarrow> 't extent option" where
  "span s t = (if s < t then Some (extent_of s (t - s)) else None)"

text \<open>The addresses of an extent that may be absent.\<close>

definition opt_addrs :: "'t extent option \<Rightarrow> nat set" where
  "opt_addrs x = (case x of None \<Rightarrow> {} | Some e \<Rightarrow> addrs e)"

lemma lo_extent_of [simp]: "n < 18446744073709551616 \<Longrightarrow> lo (extent_of n m) = n"
  by (simp add: lo_def extent_of_def)

lemma ln_extent_of [simp]: "m < 18446744073709551616 \<Longrightarrow> ln (extent_of n m) = m"
  by (simp add: ln_def extent_of_def)

lemma hi_extent_of [simp]:
  "n < 18446744073709551616 \<Longrightarrow> m < 18446744073709551616 \<Longrightarrow> hi (extent_of n m) = n + m"
  by (simp add: hi_def)

lemma extent_of_lo_ln [simp]: "extent_of (lo e) (ln e) = e"
  by (simp add: extent_of_def lo_def ln_def)

lemma lo_less [simp]: "lo e < 18446744073709551616"
  by (simp add: lo_def)

lemma ln_less [simp]: "ln e < 18446744073709551616"
  by (simp add: ln_def)

lemma extent_eq_iff [nat_view]: "e = f \<longleftrightarrow> lo e = lo f \<and> ln e = ln f"
  by (metis extent_of_lo_ln)

lemma extent_eq_iff_hi: "e = f \<longleftrightarrow> lo e = lo f \<and> hi e = hi f"
  by (auto simp: hi_def nat_view)

lemma valid_extentD:
  assumes "valid_extent e"
  shows "lo e < hi e" "hi e < 18446744073709551616"
  using assms by (auto simp: valid_extent_def)

lemma valid_extent_extent_of:
  "s < t \<Longrightarrow> t < 2 ^ 64 \<Longrightarrow> valid_extent (extent_of s (t - s))"
  by (simp add: valid_extent_def)

lemma addrs_extent_of:
  "s \<le> t \<Longrightarrow> t < 2 ^ 64 \<Longrightarrow> addrs (extent_of s (t - s)) = {s..<t}"
  by (simp add: addrs_def)

lemma span_SomeD:
  "span s t = Some g \<Longrightarrow> t < 2 ^ 64 \<Longrightarrow>
   valid_extent g \<and> lo g = s \<and> hi g = t \<and> addrs g = {s..<t} \<and> s < t"
  by (auto simp: span_def valid_extent_extent_of addrs_extent_of split: if_splits)

lemma span_None: "span s t = None \<longleftrightarrow> t \<le> s"
  by (simp add: span_def not_less)

lemma opt_addrs_span: "t < 2 ^ 64 \<Longrightarrow> opt_addrs (span s t) = {s..<t}"
  by (simp add: opt_addrs_def span_def addrs_extent_of)

lemma addrs_nonempty: "valid_extent e \<Longrightarrow> addrs e \<noteq> {}"
  by (auto simp: addrs_def valid_extent_def)

lemma addrs_subset_iff:
  "valid_extent f \<Longrightarrow> addrs f \<subseteq> addrs e \<longleftrightarrow> lo e \<le> lo f \<and> hi f \<le> hi e"
  by (auto simp: addrs_def valid_extent_def)

lemma addrs_inj: "valid_extent e \<Longrightarrow> valid_extent f \<Longrightarrow> addrs e = addrs f \<longleftrightarrow> e = f"
  by (metis addrs_subset_iff dual_order.antisym extent_eq_iff_hi order_refl)

subsection \<open>Each operation as arithmetic on the ends\<close>

lemma ext_address_view: "ext_address e = addr_of (lo e)"
  by (simp add: lo_def)

lemma ext_length_view: "ext_length e = mlen_of (ln e)"
  by (simp add: ln_def)

lemma max_addr_of:
  "n < 18446744073709551616 \<Longrightarrow> m < 18446744073709551616 \<Longrightarrow>
   max (addr_of n) (addr_of m) = addr_of (max n m)"
  by (simp add: nat_view)

lemma min_addr_of:
  "n < 18446744073709551616 \<Longrightarrow> m < 18446744073709551616 \<Longrightarrow>
   min (addr_of n) (addr_of m) = addr_of (min n m)"
  by (simp add: nat_view)

lemmas ext_view = ext_address_view ext_length_view max_addr_of min_addr_of
  extent_of_def [symmetric]

lemma extent_new_checked_eq:
  "extent_new_checked a l = ret (if l_nat l = 0 \<or> a_nat a + l_nat l \<ge> 2 ^ 64 then None
     else Some \<lparr>ext_address = a, ext_length = l\<rparr>)"
proof -
  have max: "unat u64_MAX = 18446744073709551615"
    by (simp add: unsigned_minus_1_eq_mask mask_eq_exp_minus_1)
  have le: "addr_raw a \<le> u64_MAX" by (rule word_order.extremum)
  have room: "unat (u64_MAX - addr_raw a) = 18446744073709551615 - a_nat a"
    using unat_sub_exact [OF le] by (simp add: max)
  have "u_sub u64_MAX (addr_raw a) = ret (u64_MAX - addr_raw a)"
    by (simp add: u_sub_def checked_sub_def)
  moreover have "len_raw l = 0 \<longleftrightarrow> l_nat l = 0"
    by (metis unat_eq_zero unat_len_raw)
  moreover have "len_raw l > u64_MAX - addr_raw a \<longleftrightarrow> a_nat a + l_nat l \<ge> 2 ^ 64"
    using a_nat_le [of a] by (simp only: word_less_nat_alt room unat_len_raw) (simp, arith)
  ultimately show ?thesis by (simp add: extent_new_checked_def)
qed

lemma extent_new_eq:
  "extent_new a l = (if l_nat l = 0 \<or> a_nat a + l_nat l \<ge> 2 ^ 64 then throw UnwrapNone
     else ret \<lparr>ext_address = a, ext_length = l\<rparr>)"
  by (simp add: extent_new_def extent_new_checked_eq)

lemma end_address_eq:
  "valid_extent e \<Longrightarrow> end_address e = ret (addr_of (hi e))"
  by (auto simp: end_address_def address_add_eq hi_def lo_def ln_def valid_extent_def)

lemma last_address_eq:
  "valid_extent e \<Longrightarrow> last_address e = ret (addr_of (hi e - 1))"
  by (auto simp: last_address_def address_add_eq address_sub_length_eq hi_def lo_def ln_def valid_extent_def)

lemma overlap_ordered:
  assumes "valid_extent e" "valid_extent f" "lo e \<le> lo f"
  shows "overlap e f = ret (span (lo f) (min (hi e) (hi f)))"
  using assms
  by (subst overlap.simps)
    (auto simp: addr_op_eqs nat_view span_def extent_of_def hi_def lo_def ln_def min_def valid_extent_def)

lemma overlap_eq:
  assumes "valid_extent e" "valid_extent f"
  shows "overlap e f = ret (span (max (lo e) (lo f)) (min (hi e) (hi f)))"
proof (cases "lo e \<le> lo f")
  case True
  with assms show ?thesis by (simp add: overlap_ordered max_absorb2)
next
  case False
  then have "overlap e f = overlap f e"
    by (subst overlap.simps) (simp add: nat_view lo_def)
  with False assms show ?thesis
    by (simp add: overlap_ordered max_absorb1 min.commute)
qed

lemma left_difference_eq:
  assumes "valid_extent e" "valid_extent f"
  shows "left_difference e f = ret (span (lo e) (min (hi e) (lo f)))"
  using assms
  by (auto simp: left_difference_def addr_op_eqs nat_view span_def extent_of_def hi_def lo_def
      ln_def min_def valid_extent_def)

lemma right_difference_eq:
  assumes "valid_extent e" "valid_extent f"
  shows "right_difference e f = ret (span (max (lo e) (hi f)) (hi e))"
proof -
  have le: "hi e - 1 \<le> hi f - 1 \<longleftrightarrow> hi e \<le> hi f" using assms by (auto simp: valid_extent_def)
  show ?thesis
  proof (cases "hi e \<le> hi f")
    case True
    with assms le show ?thesis
      by (simp add: right_difference_def last_address_eq nat_view span_None less_imp_diff_less
          valid_extentD)
        (simp add: span_def)
  next
    case False
    let ?d = "max (lo e) (hi f)"
    have "ln e - (?d - lo e) = hi e - ?d" by (auto simp: hi_def)
    moreover have "?d < 2 ^ 64" "?d - lo e \<le> ln e" "?d < hi e"
      using False assms by (auto simp: hi_def [of e] valid_extent_def)
    ultimately show ?thesis using False assms le
      by (simp add: right_difference_def last_address_eq end_address_eq ext_view addr_op_eqs
          nat_view less_imp_diff_less valid_extentD Let_def span_def)
  qed
qed

lemma from_range_inclusive_eq:
  "s < t \<Longrightarrow> t < 2 ^ 64 \<Longrightarrow>
   from_range_inclusive (addr_of s) (addr_of (t - 1)) = ret (extent_of s (t - s))"
  by (simp add: from_range_inclusive_def addr_op_eqs ext_view Suc_diff_Suc less_imp_diff_less
      Suc_diff_le flip: less_eq_Suc_le) auto

lemma join_eq:
  assumes "valid_extent e" "valid_extent f"
  shows "join e f = ret (extent_of (min (lo e) (lo f)) (max (hi e) (hi f) - min (lo e) (lo f)))"
proof -
  let ?s = "min (lo e) (lo f)" and ?t = "max (hi e) (hi f)"
  have "max (hi e - 1) (hi f - 1) = ?t - 1" "?s < ?t" "?t < 2 ^ 64"
    using assms by (auto simp: valid_extent_def)
  then show ?thesis
    using assms from_range_inclusive_eq [of ?s ?t]
    by (simp add: join_def last_address_eq ext_view Let_def valid_extentD less_imp_diff_less)
qed

lemma has_overlap_eq:
  assumes "valid_extent e" "valid_extent f"
  shows "has_overlap e f = ret (max (lo e) (lo f) < min (hi e) (hi f))"
  using assms by (simp add: has_overlap_def overlap_eq span_def)

lemma contains_eq:
  assumes "valid_extent e" "valid_extent f"
  shows "contains e f = ret (lo e \<le> lo f \<and> hi f \<le> hi e)"
  using assms
  by (auto simp: contains_def overlap_eq span_def extent_eq_iff_hi valid_extent_def
      split: if_splits)

lemma shrink_to_alignment_eq:
  assumes "valid_extent e" "unat al = 2 ^ k"
  shows "shrink_to_alignment e al =
    (if lo e + (2 ^ k - 1) < 2 ^ 64
     then ret (span (round_up (2 ^ k) (lo e)) (round_down (2 ^ k) (hi e)))
     else throw Overflow)"
proof (cases "lo e + (2 ^ k - 1) < 2 ^ 64")
  case True
  have "round_up (2 ^ k) (lo e) \<le> lo e + (2 ^ k - 1)" by (simp add: round_up_def)
  with True have "round_up (2 ^ k) (lo e) < 2 ^ 64" by linarith
  with True assms show ?thesis
    by (simp add: shrink_to_alignment_def ext_view address_align_up_eq end_address_eq
        address_align_down_eq addr_op_eqs nat_view valid_extentD span_def)
next
  case False
  with assms show ?thesis
    by (simp add: shrink_to_alignment_def ext_view address_align_up_eq)
qed

lemma expand_to_alignment_eq:
  assumes "valid_extent e" "unat al = 2 ^ k"
  shows "expand_to_alignment e al =
    (if hi e + (2 ^ k - 1) < 2 ^ 64
     then ret (extent_of (round_down (2 ^ k) (lo e))
       (round_up (2 ^ k) (hi e) - round_down (2 ^ k) (lo e)))
     else throw Overflow)"
proof (cases "hi e + (2 ^ k - 1) < 2 ^ 64")
  case True
  have "round_up (2 ^ k) (hi e) \<le> hi e + (2 ^ k - 1)" by (simp add: round_up_def)
  with True have "round_up (2 ^ k) (hi e) < 2 ^ 64" by linarith
  moreover have "round_down (2 ^ k) (lo e) \<le> round_up (2 ^ k) (hi e)"
    using round_down_le round_up_ge valid_extentD(1) [OF assms(1)]
    by (metis less_imp_le order_trans zero_less_numeral zero_less_power)
  ultimately show ?thesis
    using True assms
    by (simp add: expand_to_alignment_def ext_view address_align_up_eq end_address_eq
        address_align_down_eq addr_op_eqs valid_extentD)
next
  case False
  with assms show ?thesis
    by (simp add: expand_to_alignment_def ext_view address_align_up_eq end_address_eq
        address_align_down_eq valid_extentD)
qed

lemma extent_is_aligned_to_eq:
  "unat al = 2 ^ k \<Longrightarrow> extent_is_aligned_to e al = ret (2 ^ k dvd lo e \<and> 2 ^ k dvd ln e)"
  by (simp add: extent_is_aligned_to_def address_is_aligned_to_eq length_is_aligned_to_eq
      lo_def ln_def)

lemmas extent_op_eqs = overlap_eq left_difference_eq right_difference_eq join_eq contains_eq
  has_overlap_eq end_address_eq last_address_eq

subsection \<open>Aligned extents\<close>

definition aligned_extent :: "nat \<Rightarrow> 't extent \<Rightarrow> bool" where
  "aligned_extent m g \<longleftrightarrow> valid_extent g \<and> m dvd lo g \<and> m dvd hi g"

lemma aligned_extent_of:
  assumes "m dvd s" "m dvd t" "s < t" "t < 2 ^ 64"
  shows "aligned_extent m (extent_of s (t - s))"
  using assms by (simp add: aligned_extent_def valid_extent_extent_of)

lemma aligned_inside:
  assumes "0 < m" "aligned_extent m g" "addrs g \<subseteq> addrs e"
  shows "round_up m (lo e) \<le> lo g" "hi g \<le> round_down m (hi e)"
  using assms by (auto simp: aligned_extent_def addrs_subset_iff round_up_least round_down_greatest)

lemma aligned_outside:
  assumes "0 < m" "aligned_extent m g" "addrs e \<subseteq> addrs g" "valid_extent e"
  shows "lo g \<le> round_down m (lo e)" "round_up m (hi e) \<le> hi g"
  using assms by (auto simp: aligned_extent_def addrs_subset_iff round_up_least round_down_greatest)

lemma shrink_correct:
  fixes e :: "'t extent"
  assumes v: "valid_extent e" and al: "unat al = 2 ^ k" and fits: "lo e + (2 ^ k - 1) < 2 ^ 64"
  shows "runs (shrink_to_alignment e al) (\<lambda>r. case r of
          None \<Rightarrow> \<not> (\<exists>g :: 't extent. aligned_extent (2 ^ k) g \<and> addrs g \<subseteq> addrs e)
        | Some s \<Rightarrow> aligned_extent (2 ^ k) s \<and> addrs s \<subseteq> addrs e
            \<and> (\<forall>g :: 't extent. aligned_extent (2 ^ k) g \<and> addrs g \<subseteq> addrs e \<longrightarrow> addrs g \<subseteq> addrs s))"
proof -
  let ?s = "round_up (2 ^ k) (lo e)" and ?t = "round_down (2 ^ k) (hi e)"
  have inside: "?s \<le> lo g" "hi g \<le> ?t" if "aligned_extent (2 ^ k) g" "addrs g \<subseteq> addrs e"
    for g :: "'t extent" using that aligned_inside [of "2 ^ k" g e] by auto
  have t: "?t < 2 ^ 64" using v by (simp add: valid_extent_def)
  show ?thesis
  proof (cases "?s < ?t")
    case True
    then have "addrs (extent_of ?s (?t - ?s) :: 't extent) = {?s..<?t}"
      using t by (intro addrs_extent_of) auto
    moreover have "{?s..<?t} \<subseteq> addrs e"
      using round_up_ge [of "2 ^ k" "lo e"] round_down_le [of "2 ^ k" "hi e"]
      by (auto simp: addrs_def)
    moreover have "addrs g \<subseteq> {?s..<?t}"
      if "aligned_extent (2 ^ k) g" "addrs g \<subseteq> addrs e" for g :: "'t extent"
      using inside [OF that] by (auto simp: addrs_def)
    ultimately show ?thesis
      using True t fits by (simp add: shrink_to_alignment_eq [OF v al] span_def aligned_extent_of)
  next
    case False
    have "\<not> addrs g \<subseteq> addrs e" if "aligned_extent (2 ^ k) g" for g :: "'t extent"
      using inside [OF that] False that by (auto simp: aligned_extent_def valid_extent_def)
    with False fits show ?thesis by (auto simp: shrink_to_alignment_eq [OF v al] span_def)
  qed
qed

lemma expand_correct:
  fixes e :: "'t extent"
  assumes v: "valid_extent e" and al: "unat al = 2 ^ k" and fits: "hi e + (2 ^ k - 1) < 2 ^ 64"
  shows "runs (expand_to_alignment e al) (\<lambda>s. aligned_extent (2 ^ k) s \<and> addrs e \<subseteq> addrs s
        \<and> (\<forall>g :: 't extent. aligned_extent (2 ^ k) g \<and> addrs e \<subseteq> addrs g \<longrightarrow> addrs s \<subseteq> addrs g))"
proof -
  let ?s = "round_down (2 ^ k) (lo e)" and ?t = "round_up (2 ^ k) (hi e)"
  have le: "?s \<le> lo e" "hi e \<le> ?t" by (simp_all add: round_up_ge)
  have st: "?s < ?t" using le valid_extentD(1) [OF v] by linarith
  have t: "?t < 2 ^ 64"
    using round_down_le [of "2 ^ k" "hi e + (2 ^ k - 1)"] fits unfolding round_up_def by linarith
  have a: "addrs (extent_of ?s (?t - ?s) :: 't extent) = {?s..<?t}"
    using st t by (intro addrs_extent_of) auto
  moreover have "addrs e \<subseteq> {?s..<?t}" using le by (auto simp: addrs_def)
  moreover have "{?s..<?t} \<subseteq> addrs g"
    if "aligned_extent (2 ^ k) g" "addrs e \<subseteq> addrs g" for g :: "'t extent"
    using aligned_outside [OF _ that v] by (auto simp: addrs_def)
  ultimately show ?thesis
    using st t fits by (simp add: expand_to_alignment_eq [OF v al] aligned_extent_of)
qed

section \<open>Properties\<close>

text \<open>
  C19. The three-way split \<^verbatim>\<open>mark_kernel_areas\<close> relies on: the left difference, the overlap and the
  right difference of two valid extents are computed without a panic. The overlap is the intersection of the
  two; the three parts are pairwise disjoint, together hold exactly the addresses of the first extent, and each
  is \<^verbatim>\<open>None\<close> or a valid extent.
\<close>

theorem differences_partition:
  assumes "valid_extent e" "valid_extent f"
  shows "\<exists>l m r. left_difference e f = ret l \<and> overlap e f = ret m \<and> right_difference e f = ret r
    \<and> opt_addrs l \<union> opt_addrs m \<union> opt_addrs r = addrs e
    \<and> opt_addrs m = addrs e \<inter> addrs f
    \<and> opt_addrs l \<inter> opt_addrs m = {} \<and> opt_addrs m \<inter> opt_addrs r = {}
    \<and> opt_addrs l \<inter> opt_addrs r = {} \<and> pred_option valid_extent l \<and> pred_option valid_extent m \<and> pred_option valid_extent r"
proof -
  have b: "min (hi e) (hi f) < 2 ^ 64" "min (hi e) (lo f) < 2 ^ 64" "hi e < 2 ^ 64"
    using assms by (auto simp: valid_extent_def)
  have "pred_option valid_extent (span s t :: 'a extent option)" if "t < 2 ^ 64" for s t
    using span_SomeD [OF _ that, of s] by (auto simp: option.pred_set)
  with b show ?thesis
    using assms by (auto simp: extent_op_eqs opt_addrs_span addrs_def valid_extent_def)
qed

theorem differences_partition_witness:
  "\<exists>l m r. left_difference (extent_of 10 10) (extent_of 12 6 :: phys_extent) = ret l
    \<and> overlap (extent_of 10 10) (extent_of 12 6 :: phys_extent) = ret m
    \<and> right_difference (extent_of 10 10) (extent_of 12 6 :: phys_extent) = ret r
    \<and> opt_addrs l \<union> opt_addrs m \<union> opt_addrs r = addrs (extent_of 10 10 :: phys_extent)
    \<and> opt_addrs m = addrs (extent_of 10 10 :: phys_extent) \<inter> addrs (extent_of 12 6 :: phys_extent)
    \<and> opt_addrs l \<inter> opt_addrs m = {} \<and> opt_addrs m \<inter> opt_addrs r = {}
    \<and> opt_addrs l \<inter> opt_addrs r = {} \<and> pred_option valid_extent l \<and> pred_option valid_extent m \<and> pred_option valid_extent r"
  by (rule differences_partition) (simp_all add: valid_extent_def)

text \<open>
  C20. \<^verbatim>\<open>Extent::contains\<close> decides inclusion of the address sets, and \<^verbatim>\<open>Extent::join\<close> returns the
  smallest valid extent that includes both arguments.
\<close>

theorem contains_join_correct:
  fixes e f :: "'t extent"
  assumes "valid_extent e" "valid_extent f"
  shows "contains e f = ret (addrs f \<subseteq> addrs e)
    \<and> runs (join e f) (\<lambda>j. valid_extent j \<and> addrs e \<union> addrs f \<subseteq> addrs j
        \<and> (\<forall>g :: 't extent. valid_extent g \<and> addrs e \<union> addrs f \<subseteq> addrs g \<longrightarrow> addrs j \<subseteq> addrs g))"
proof -
  let ?j = "extent_of (min (lo e) (lo f)) (max (hi e) (hi f) - min (lo e) (lo f)) :: 't extent"
  have j: "min (lo e) (lo f) < max (hi e) (hi f)" "max (hi e) (hi f) < 2 ^ 64"
    using assms by (auto simp: valid_extent_def)
  then have v: "valid_extent ?j" by (rule valid_extent_extent_of)
  have a: "addrs ?j = {min (lo e) (lo f)..<max (hi e) (hi f)}"
    using j by (intro addrs_extent_of) auto
  have "addrs ?j \<subseteq> addrs g" if "valid_extent g" "addrs e \<union> addrs f \<subseteq> addrs g" for g :: "'t extent"
    using that assms unfolding a Un_subset_iff by (simp add: addrs_subset_iff) (auto simp: addrs_def)
  moreover have "addrs e \<union> addrs f \<subseteq> addrs ?j" unfolding a by (auto simp: addrs_def)
  ultimately show ?thesis
    using assms v by (simp add: join_eq contains_eq) (simp add: addrs_subset_iff)
qed

theorem contains_join_correct_witness:
  "contains (extent_of 0 10) (extent_of 5 4 :: phys_extent)
      = ret (addrs (extent_of 5 4 :: phys_extent) \<subseteq> addrs (extent_of 0 10 :: phys_extent))
    \<and> runs (join (extent_of 0 10) (extent_of 5 4 :: phys_extent)) (\<lambda>j. valid_extent j
        \<and> addrs (extent_of 0 10 :: phys_extent) \<union> addrs (extent_of 5 4 :: phys_extent) \<subseteq> addrs j
        \<and> (\<forall>g :: phys_extent. valid_extent g \<and> addrs (extent_of 0 10 :: phys_extent)
              \<union> addrs (extent_of 5 4 :: phys_extent) \<subseteq> addrs g \<longrightarrow> addrs j \<subseteq> addrs g))"
  by (rule contains_join_correct) (simp_all add: valid_extent_def)

text \<open>
  C21. Alignment to a power of two. Rounding down always succeeds and gives the greatest multiple
  not above the address; rounding up gives the least multiple not below it when
  \<open>address + (alignment - 1)\<close> fits in 64 bits, and panics with an overflow in every other case.
\<close>

theorem align_correct:
  assumes "unat al = 2 ^ k"
  shows "runs (address_align_down a al) (\<lambda>d. 2 ^ k dvd a_nat d \<and> a_nat d \<le> a_nat a
      \<and> (\<forall>m. 2 ^ k dvd m \<and> m \<le> a_nat a \<longrightarrow> m \<le> a_nat d))
    \<and> (if a_nat a + (2 ^ k - 1) < 2 ^ 64
       then runs (address_align_up a al) (\<lambda>u. 2 ^ k dvd a_nat u \<and> a_nat a \<le> a_nat u
         \<and> (\<forall>m. 2 ^ k dvd m \<and> a_nat a \<le> m \<longrightarrow> a_nat u \<le> m))
       else address_align_up a al = throw Overflow)"
proof -
  have "round_up (2 ^ k) (a_nat a) < 2 ^ 64" if "a_nat a + (2 ^ k - 1) < 2 ^ 64"
    using round_down_le [of "2 ^ k" "a_nat a + (2 ^ k - 1)"] that
    unfolding round_up_def by linarith
  then show ?thesis
    using assms by (auto simp: address_align_down_eq address_align_up_eq round_down_greatest
        round_up_ge round_up_least)
qed

theorem align_correct_witness:
  "runs (address_align_down (Address 5000 :: phys_address) 4096) (\<lambda>d. 2 ^ 12 dvd a_nat d
      \<and> a_nat d \<le> a_nat (Address 5000 :: phys_address)
      \<and> (\<forall>m. 2 ^ 12 dvd m \<and> m \<le> a_nat (Address 5000 :: phys_address) \<longrightarrow> m \<le> a_nat d))
    \<and> (if a_nat (Address 5000 :: phys_address) + (2 ^ 12 - 1) < 2 ^ 64
       then runs (address_align_up (Address 5000 :: phys_address) 4096) (\<lambda>u. 2 ^ 12 dvd a_nat u
         \<and> a_nat (Address 5000 :: phys_address) \<le> a_nat u
         \<and> (\<forall>m. 2 ^ 12 dvd m \<and> a_nat (Address 5000 :: phys_address) \<le> m \<longrightarrow> a_nat u \<le> m))
       else address_align_up (Address 5000 :: phys_address) 4096 = throw Overflow)"
  by (rule align_correct) simp

text \<open>
  C22. \<^verbatim>\<open>Extent::shrink_to_alignment\<close> returns the largest aligned extent inside the argument, and
  \<^verbatim>\<open>None\<close> only when no aligned extent fits; \<^verbatim>\<open>Extent::expand_to_alignment\<close> returns the smallest
  aligned extent around it. Both need the rounded-up address to be representable; without it both
  panic with an overflow, although the doc comment of \<^verbatim>\<open>expand_to_alignment\<close> says that there is
  always a valid result.
\<close>

theorem shrink_expand_correct:
  fixes e :: "'t extent"
  assumes v: "valid_extent e" and al: "unat al = 2 ^ k"
  shows "(if lo e + (2 ^ k - 1) < 2 ^ 64 then
      runs (shrink_to_alignment e al) (\<lambda>r. case r of
          None \<Rightarrow> \<not> (\<exists>g :: 't extent. aligned_extent (2 ^ k) g \<and> addrs g \<subseteq> addrs e)
        | Some s \<Rightarrow> aligned_extent (2 ^ k) s \<and> addrs s \<subseteq> addrs e
            \<and> (\<forall>g :: 't extent. aligned_extent (2 ^ k) g \<and> addrs g \<subseteq> addrs e \<longrightarrow> addrs g \<subseteq> addrs s))
      else shrink_to_alignment e al = throw Overflow)
    \<and> (if hi e + (2 ^ k - 1) < 2 ^ 64 then
      runs (expand_to_alignment e al) (\<lambda>s. aligned_extent (2 ^ k) s \<and> addrs e \<subseteq> addrs s
        \<and> (\<forall>g :: 't extent. aligned_extent (2 ^ k) g \<and> addrs e \<subseteq> addrs g \<longrightarrow> addrs s \<subseteq> addrs g))
      else expand_to_alignment e al = throw Overflow)"
proof -
  have "shrink_to_alignment e al = throw Overflow" if "\<not> lo e + (2 ^ k - 1) < 2 ^ 64"
    using that by (simp add: shrink_to_alignment_eq [OF v al])
  moreover have "expand_to_alignment e al = throw Overflow" if "\<not> hi e + (2 ^ k - 1) < 2 ^ 64"
    using that by (simp add: expand_to_alignment_eq [OF v al])
  ultimately show ?thesis
    unfolding if_bool_eq_conj using shrink_correct [OF v al] expand_correct [OF v al] by blast
qed

theorem shrink_expand_correct_witness:
  "(if lo (extent_of 1 8191 :: phys_extent) + (2 ^ 12 - 1) < 2 ^ 64 then
      runs (shrink_to_alignment (extent_of 1 8191 :: phys_extent) 4096) (\<lambda>r. case r of
          None \<Rightarrow> \<not> (\<exists>g :: phys_extent. aligned_extent (2 ^ 12) g \<and> addrs g \<subseteq> addrs (extent_of 1 8191 :: phys_extent))
        | Some s \<Rightarrow> aligned_extent (2 ^ 12) s \<and> addrs s \<subseteq> addrs (extent_of 1 8191 :: phys_extent)
            \<and> (\<forall>g :: phys_extent. aligned_extent (2 ^ 12) g \<and> addrs g \<subseteq> addrs (extent_of 1 8191 :: phys_extent)
                \<longrightarrow> addrs g \<subseteq> addrs s))
      else shrink_to_alignment (extent_of 1 8191 :: phys_extent) 4096 = throw Overflow)
    \<and> (if hi (extent_of 1 8191 :: phys_extent) + (2 ^ 12 - 1) < 2 ^ 64 then
      runs (expand_to_alignment (extent_of 1 8191 :: phys_extent) 4096) (\<lambda>s. aligned_extent (2 ^ 12) s
        \<and> addrs (extent_of 1 8191 :: phys_extent) \<subseteq> addrs s
        \<and> (\<forall>g :: phys_extent. aligned_extent (2 ^ 12) g \<and> addrs (extent_of 1 8191 :: phys_extent) \<subseteq> addrs g
            \<longrightarrow> addrs s \<subseteq> addrs g))
      else expand_to_alignment (extent_of 1 8191 :: phys_extent) 4096 = throw Overflow)"
  by (rule shrink_expand_correct) (simp_all add: valid_extent_def)

end
