(* ===== verification/Page.thy ===== *)
theory Page
  imports Addr
begin

text \<open>
  \<^verbatim>\<open>shared/src/memory/page.rs\<close>: 4 KiB frames of physical memory, pages of virtual memory, and the
  contiguous ranges of either. \<^verbatim>\<open>Frame\<close> and \<^verbatim>\<open>Page\<close> are separate types with the same operations, so
  what is proved about both is proved once, in the locale \<open>page_like\<close>, and interpreted twice.
\<close>

section \<open>Model\<close>

definition PAGE_SIZE :: mem_length where
  "PAGE_SIZE = Length 4096"

subsection \<open>Frames\<close>

record frame =
  frame_start :: phys_address

definition frame_new :: "phys_address \<Rightarrow> frame rust" where
  "frame_new start =
     bnd (address_is_aligned_to start (len_raw PAGE_SIZE)) (\<lambda>b.
     bnd (rassert b) (\<lambda>_.
     ret \<lparr>frame_start = start\<rparr>))"

definition frame_index :: "frame \<Rightarrow> u64 rust" where
  "frame_index self = u_div (addr_raw (frame_start self)) (len_raw PAGE_SIZE)"

definition frame_containing :: "phys_address \<Rightarrow> frame rust" where
  "frame_containing a = bnd (address_align_down a (len_raw PAGE_SIZE)) frame_new"

definition frame_extent :: "frame \<Rightarrow> phys_extent rust" where
  "frame_extent self = extent_new (frame_start self) PAGE_SIZE"

text \<open>The two \<^verbatim>\<open>?\<close> return \<^verbatim>\<open>None\<close>; \<^verbatim>\<open>Self::new\<close> asserts the alignment of the result.\<close>

definition frame_next :: "frame \<Rightarrow> u64 \<Rightarrow> frame option rust" where
  "frame_next self n =
     (case checked_mul (len_raw PAGE_SIZE) n of
        None \<Rightarrow> ret None
      | Some d \<Rightarrow>
          (case offset_by_checked (frame_start self) (Length d) of
             None \<Rightarrow> ret None
           | Some next_start \<Rightarrow> bnd (frame_new next_start) (\<lambda>f. ret (Some f))))"

subsection \<open>Pages\<close>

record page =
  page_start :: virt_address

definition page_new :: "virt_address \<Rightarrow> page rust" where
  "page_new start =
     bnd (address_is_aligned_to start (len_raw PAGE_SIZE)) (\<lambda>b.
     bnd (rassert b) (\<lambda>_.
     ret \<lparr>page_start = start\<rparr>))"

definition page_containing :: "virt_address \<Rightarrow> page rust" where
  "page_containing a = bnd (address_align_down a (len_raw PAGE_SIZE)) page_new"

definition page_extent :: "page \<Rightarrow> virt_extent rust" where
  "page_extent self = extent_new (page_start self) PAGE_SIZE"

definition page_next :: "page \<Rightarrow> u64 \<Rightarrow> page option rust" where
  "page_next self n =
     (case checked_mul (len_raw PAGE_SIZE) n of
        None \<Rightarrow> ret None
      | Some d \<Rightarrow>
          (case offset_by_checked (page_start self) (Length d) of
             None \<Rightarrow> ret None
           | Some next_start \<Rightarrow> bnd (page_new next_start) (\<lambda>p. ret (Some p))))"

text \<open>The shifts are by constants below 64, which never panic.\<close>

definition l4_index :: "page \<Rightarrow> usize" where
  "l4_index self = drop_bit 39 (addr_raw (page_start self) AND push_bit 39 0x1FF)"

definition l3_index :: "page \<Rightarrow> usize" where
  "l3_index self = drop_bit 30 (addr_raw (page_start self) AND push_bit 30 0x1FF)"

definition l2_index :: "page \<Rightarrow> usize" where
  "l2_index self = drop_bit 21 (addr_raw (page_start self) AND push_bit 21 0x1FF)"

definition l1_index :: "page \<Rightarrow> usize" where
  "l1_index self = drop_bit 12 (addr_raw (page_start self) AND push_bit 12 0x1FF)"

subsection \<open>Ranges of frames\<close>

record frame_range =
  fr_first :: frame
  fr_count :: u64

definition frame_range_new :: "frame \<Rightarrow> u64 \<Rightarrow> frame_range option rust" where
  "frame_range_new first count =
     (if count = 0 then ret None
      else
        bnd (u_sub count 1) (\<lambda>n.
        bnd (frame_next first n) (\<lambda>l.
        case l of None \<Rightarrow> ret None
        | Some _ \<Rightarrow> ret (Some \<lparr>fr_first = first, fr_count = count\<rparr>))))"

definition frame_range_one :: "frame \<Rightarrow> frame_range rust" where
  "frame_range_one f = bnd (frame_range_new f 1) unwrap"

definition frame_between_inclusive :: "frame \<Rightarrow> frame \<Rightarrow> frame_range rust" where
  "frame_between_inclusive first last_frame =
     bnd (address_sub (frame_start last_frame) (frame_start first)) (\<lambda>l.
     bnd (u_div (len_raw l) (len_raw PAGE_SIZE)) (\<lambda>q.
     bnd (u_add q 1) (\<lambda>count.
     bnd (frame_range_new first count) unwrap)))"

definition frame_between_exclusive :: "frame \<Rightarrow> frame \<Rightarrow> frame_range rust" where
  "frame_between_exclusive first last_frame =
     bnd (address_sub (frame_start last_frame) (frame_start first)) (\<lambda>l.
     bnd (u_div (len_raw l) (len_raw PAGE_SIZE)) (\<lambda>count.
     bnd (frame_range_new first count) unwrap))"

definition frame_containing_extent :: "phys_extent \<Rightarrow> frame_range rust" where
  "frame_containing_extent e =
     bnd (frame_containing (ext_address e)) (\<lambda>first.
     bnd (last_address e) (\<lambda>la.
     bnd (frame_containing la) (\<lambda>last_frame.
     frame_between_inclusive first last_frame)))"

definition contained_by_extent :: "phys_extent \<Rightarrow> frame_range option rust" where
  "contained_by_extent e =
     bnd (address_align_up (ext_address e) (len_raw PAGE_SIZE)) (\<lambda>first.
     bnd (last_address e) (\<lambda>la.
     bnd (address_sub_length la PAGE_SIZE) (\<lambda>x.
     bnd (address_add x (Length 1)) (\<lambda>y.
     bnd (address_align_down y (len_raw PAGE_SIZE)) (\<lambda>last_addr.
     if first \<ge> last_addr then ret None
     else
       bnd (address_sub last_addr first) (\<lambda>l.
       bnd (length_is_aligned_to l (len_raw PAGE_SIZE)) (\<lambda>b.
       bnd (rassert b) (\<lambda>_.
       bnd (frame_new first) (\<lambda>f.
       bnd (u_div (len_raw l) (len_raw PAGE_SIZE)) (\<lambda>count.
       frame_range_new f count))))))))))"

definition frame_range_last :: "frame_range \<Rightarrow> frame rust" where
  "frame_range_last self =
     bnd (u_sub (fr_count self) 1) (\<lambda>n. bnd (frame_next (fr_first self) n) unwrap)"

definition frame_range_end :: "frame_range \<Rightarrow> frame option rust" where
  "frame_range_end self = frame_next (fr_first self) (fr_count self)"

lemma frame_next_1_increases:
  assumes "frame_next f 1 = Inr (Some g)"
  shows "a_nat (frame_start f) < a_nat (frame_start g)"
  using assms
  by (auto simp: frame_next_def PAGE_SIZE_def checked_mul_def offset_by_checked_eq frame_new_def
      rust_iff split: if_splits option.splits)

text \<open>
  \<^verbatim>\<open>iter::successors(Some(first), ..)\<close>: each item is yielded, then the closure computes the next
  one, so the sequence is never empty. It ends because every step moves to a higher address.
\<close>

function frame_successors :: "frame \<Rightarrow> frame \<Rightarrow> frame list rust" where
  "frame_successors last_frame f =
     bnd (if frame_start f < frame_start last_frame then frame_next f 1 else ret None) (\<lambda>n.
     case n of
       None \<Rightarrow> ret [f]
     | Some g \<Rightarrow> bnd (frame_successors last_frame g) (\<lambda>fs. ret (f # fs)))"
  by pat_completeness auto
termination
  by (relation "measure (\<lambda>(l, f). a_nat (frame_start l) - a_nat (frame_start f))")
    (auto simp: nat_view split: if_splits dest!: frame_next_1_increases)

declare frame_successors.simps [simp del]

definition frame_range_iter :: "frame_range \<Rightarrow> frame list rust" where
  "frame_range_iter self =
     bnd (frame_range_last self) (\<lambda>l. frame_successors l (fr_first self))"

subsection \<open>Ranges of pages\<close>

record page_range =
  pr_first :: page
  pr_count :: u64

definition page_range_new :: "page \<Rightarrow> u64 \<Rightarrow> page_range option rust" where
  "page_range_new first count =
     (if count = 0 then ret None
      else
        bnd (u_sub count 1) (\<lambda>n.
        bnd (page_next first n) (\<lambda>l.
        case l of None \<Rightarrow> ret None
        | Some _ \<Rightarrow> ret (Some \<lparr>pr_first = first, pr_count = count\<rparr>))))"

definition page_range_one :: "page \<Rightarrow> page_range rust" where
  "page_range_one p = bnd (page_range_new p 1) unwrap"

definition page_between_inclusive :: "page \<Rightarrow> page \<Rightarrow> page_range rust" where
  "page_between_inclusive first last_page =
     bnd (address_sub (page_start last_page) (page_start first)) (\<lambda>l.
     bnd (u_div (len_raw l) (len_raw PAGE_SIZE)) (\<lambda>q.
     bnd (u_add q 1) (\<lambda>count.
     bnd (page_range_new first count) unwrap)))"

definition page_between_exclusive :: "page \<Rightarrow> page \<Rightarrow> page_range option rust" where
  "page_between_exclusive first last_page =
     bnd (address_sub (page_start last_page) (page_start first)) (\<lambda>l.
     bnd (u_div (len_raw l) (len_raw PAGE_SIZE)) (\<lambda>count.
     page_range_new first count))"

definition page_containing_extent :: "virt_extent \<Rightarrow> page_range rust" where
  "page_containing_extent e =
     bnd (page_containing (ext_address e)) (\<lambda>first.
     bnd (last_address e) (\<lambda>la.
     bnd (page_containing la) (\<lambda>last_page.
     page_between_inclusive first last_page)))"

definition page_range_last :: "page_range \<Rightarrow> page rust" where
  "page_range_last self =
     bnd (u_sub (pr_count self) 1) (\<lambda>n. bnd (page_next (pr_first self) n) unwrap)"

definition page_range_end :: "page_range \<Rightarrow> page option rust" where
  "page_range_end self = page_next (pr_first self) (pr_count self)"

lemma page_next_1_increases:
  assumes "page_next f 1 = Inr (Some g)"
  shows "a_nat (page_start f) < a_nat (page_start g)"
  using assms
  by (auto simp: page_next_def PAGE_SIZE_def checked_mul_def offset_by_checked_eq page_new_def
      rust_iff split: if_splits option.splits)

function page_successors :: "page \<Rightarrow> page \<Rightarrow> page list rust" where
  "page_successors last_page p =
     bnd (if page_start p < page_start last_page then page_next p 1 else ret None) (\<lambda>n.
     case n of
       None \<Rightarrow> ret [p]
     | Some q \<Rightarrow> bnd (page_successors last_page q) (\<lambda>ps. ret (p # ps)))"
  by pat_completeness auto
termination
  by (relation "measure (\<lambda>(l, p). a_nat (page_start l) - a_nat (page_start p))")
    (auto simp: nat_view split: if_splits dest!: page_next_1_increases)

declare page_successors.simps [simp del]

definition page_range_iter :: "page_range \<Rightarrow> page list rust" where
  "page_range_iter self =
     bnd (page_range_last self) (\<lambda>l. page_successors l (pr_first self))"

section \<open>What frames and pages share\<close>

text \<open>
  A \<^verbatim>\<open>Frame\<close> or \<^verbatim>\<open>Page\<close> is determined by its number \<open>i\<close>, below \<open>2 ^ 52\<close>; \<open>at i\<close> is the one with that
  number. The assumptions say what the constructor and \<^verbatim>\<open>next\<close> promise and how a range and its
  iterator are built from them; everything else about ranges follows.
\<close>

lemma unat_PAGE_SIZE [simp]: "unat (len_raw PAGE_SIZE) = 2 ^ 12"
  by (simp add: PAGE_SIZE_def)

lemma l_nat_PAGE_SIZE [simp]: "l_nat PAGE_SIZE = 4096"
  by (simp add: PAGE_SIZE_def)

locale page_like =
  fixes start :: "'f \<Rightarrow> 't address"
    and at :: "nat \<Rightarrow> 'f"
    and mk :: "'t address \<Rightarrow> 'f rust"
    and nxt :: "'f \<Rightarrow> u64 \<Rightarrow> 'f option rust"
    and succs :: "'f \<Rightarrow> 'f \<Rightarrow> 'f list rust"
  assumes start_at: "start (at i) = addr_of (4096 * i)"
    and mk_law: "mk a = (if 4096 dvd a_nat a then ret (at (a_nat a div 4096)) else throw AssertFailed)"
    and nxt_law: "4096 dvd a_nat (start f) \<Longrightarrow> nxt f n =
      ret (if a_nat (start f) + 4096 * unat n < 2 ^ 64
           then Some (at (a_nat (start f) div 4096 + unat n)) else None)"
    and succs_law: "succs l f = bnd (if start f < start l then nxt f 1 else ret None)
      (\<lambda>n. case n of None \<Rightarrow> ret [f] | Some g \<Rightarrow> bnd (succs l g) (\<lambda>fs. ret (f # fs)))"
begin

lemma a_nat_start_at [simp]: "i < 2 ^ 52 \<Longrightarrow> a_nat (start (at i)) = 4096 * i"
  by (simp add: start_at)

lemma nxt_at:
  "i < 2 ^ 52 \<Longrightarrow> nxt (at i) n =
    ret (if i + unat n < 2 ^ 52 then Some (at (i + unat n)) else None)"
  by (subst nxt_law) (auto simp: start_at)

lemma containing_at:
  "bnd (address_align_down a (len_raw PAGE_SIZE)) mk = ret (at (a_nat a div 4096))"
  by (simp add: address_align_down_eq [where k = 12] mk_law)
    (simp add: round_down_def)

lemma succs_at:
  "i \<le> j \<Longrightarrow> j < 2 ^ 52 \<Longrightarrow> succs (at j) (at i) = ret (map at [i..<Suc j])"
proof (induction "j - i" arbitrary: i)
  case 0
  then show ?case by (subst succs_law) simp
next
  case (Suc d)
  then have "succs (at j) (at (Suc i)) = ret (map at [Suc i..<Suc j])" by simp
  moreover have "nxt (at i) 1 = ret (Some (at (Suc i)))" using Suc by (simp add: nxt_at)
  ultimately show ?case using Suc
    by (subst succs_law, subst upt_conv_Cons) (simp_all add: address_less_iff)
qed

end

locale page_range_like = page_like start at mk nxt succs
  for start :: "'f \<Rightarrow> 't address" and at mk nxt succs +
  fixes range :: "'f \<Rightarrow> u64 \<Rightarrow> 'r"
    and first :: "'r \<Rightarrow> 'f"
    and count :: "'r \<Rightarrow> u64"
    and rnew :: "'f \<Rightarrow> u64 \<Rightarrow> 'r option rust"
  assumes first_range [simp]: "first (range f c) = f"
    and count_range [simp]: "count (range f c) = c"
    and rnew_law: "rnew f c = (if c = 0 then ret None
      else bnd (u_sub c 1) (\<lambda>n. bnd (nxt f n) (\<lambda>l.
        case l of None \<Rightarrow> ret None | Some _ \<Rightarrow> ret (Some (range f c)))))"
begin

lemma rnew_at:
  "i < 2 ^ 52 \<Longrightarrow> rnew (at i) c =
    ret (if 0 < unat c \<and> i + unat c \<le> 2 ^ 52 then Some (range (at i) c) else None)"
  by (cases "c = 0") (auto simp: rnew_law nxt_at u_sub_1 unat_minus_one unat_gt_0)

lemma last_at:
  assumes "i + unat (count r) \<le> 2 ^ 52" "0 < unat (count r)" "first r = at i"
  shows "bnd (u_sub (count r) 1) (\<lambda>n. bnd (nxt (first r) n) unwrap) =
    ret (at (i + unat (count r) - 1))"
proof -
  have "count r \<noteq> 0" using assms(2) by auto
  then show ?thesis using assms by (simp add: u_sub_1 unat_minus_one nxt_at)
qed

lemma distance_at:
  "i \<le> j \<Longrightarrow> j < 2 ^ 52 \<Longrightarrow>
   address_sub (start (at j)) (start (at i)) = ret (mlen_of (4096 * (j - i)))"
  by (simp add: address_sub_eq diff_mult_distrib2)

lemma distance_div:
  "n < 2 ^ 52 \<Longrightarrow> u_div (len_raw (mlen_of (4096 * n))) (len_raw PAGE_SIZE) = ret (of_nat n)"
  by (simp add: u_div_def PAGE_SIZE_def len_raw_mlen_of)
    (rule unat_eqI, simp add: unat_div_distrib unat_of_nat unat_word_ariths)

lemma between_inclusive_at:
  assumes "i \<le> j" "j < 2 ^ 52"
  shows "bnd (address_sub (start (at j)) (start (at i))) (\<lambda>l.
      bnd (u_div (len_raw l) (len_raw PAGE_SIZE)) (\<lambda>q.
      bnd (u_add q 1) (\<lambda>c. bnd (rnew (at i) c) unwrap))) =
    ret (range (at i) (of_nat (j - i + 1)))"
proof -
  define n where "n = j - i"
  have n: "n < 2 ^ 52" "i + (n + 1) \<le> 2 ^ 52" using assms by (auto simp: n_def)
  have "u_add (of_nat n) (1 :: u64) = ret (of_nat (n + 1))"
    using u_add_of_nat [of n 1, where 'a = 64] n by simp
  moreover have "unat (of_nat (n + 1) :: u64) = n + 1"
    using n by (subst unat_of_nat_eq) auto
  ultimately show ?thesis
    using assms n unfolding n_def [symmetric]
    by (simp add: distance_at distance_div rnew_at n_def [symmetric] del: of_nat_add)
qed

end

section \<open>Frames and pages by number\<close>

definition frame_at :: "nat \<Rightarrow> frame" where
  "frame_at i = \<lparr>frame_start = addr_of (4096 * i)\<rparr>"

definition page_at :: "nat \<Rightarrow> page" where
  "page_at i = \<lparr>page_start = addr_of (4096 * i)\<rparr>"

definition frame_range_at :: "nat \<Rightarrow> nat \<Rightarrow> frame_range" where
  "frame_range_at i n = \<lparr>fr_first = frame_at i, fr_count = of_nat n\<rparr>"

definition page_range_at :: "nat \<Rightarrow> nat \<Rightarrow> page_range" where
  "page_range_at i n = \<lparr>pr_first = page_at i, pr_count = of_nat n\<rparr>"

lemma start_at_index [simp]:
  "4096 dvd a_nat a \<Longrightarrow> addr_of (4096 * (a_nat a div 4096)) = a"
  by simp

lemma frame_new_eq:
  "frame_new a = (if 4096 dvd a_nat a then ret (frame_at (a_nat a div 4096)) else throw AssertFailed)"
  by (simp add: frame_new_def frame_at_def address_is_aligned_to_eq [where k = 12])

lemma page_new_eq:
  "page_new a = (if 4096 dvd a_nat a then ret (page_at (a_nat a div 4096)) else throw AssertFailed)"
  by (simp add: page_new_def page_at_def address_is_aligned_to_eq [where k = 12])

lemma offset_pages:
  assumes "4096 dvd a_nat a"
  shows "(case checked_mul (len_raw PAGE_SIZE) n of None \<Rightarrow> ret None
      | Some d \<Rightarrow> (case offset_by_checked a (Length d) of None \<Rightarrow> ret None
        | Some b \<Rightarrow> bnd (if 4096 dvd a_nat b then ret (g (a_nat b div 4096)) else throw AssertFailed)
            (\<lambda>f. ret (Some f)))) =
    ret (if a_nat a + 4096 * unat n < 2 ^ 64 then Some (g (a_nat a div 4096 + unat n)) else None)"
proof (cases "4096 * unat n < 2 ^ 64")
  case True
  then have "unat (4096 * n) = 4096 * unat n" using unat_mul_exact [of 4096 n] by simp
  with True assms show ?thesis
    by (auto simp: PAGE_SIZE_def checked_mul_def offset_by_checked_eq)
next
  case False
  then show ?thesis by (simp add: PAGE_SIZE_def checked_mul_def)
qed

lemma frame_next_eq:
  "4096 dvd a_nat (frame_start f) \<Longrightarrow> frame_next f n =
    ret (if a_nat (frame_start f) + 4096 * unat n < 2 ^ 64
         then Some (frame_at (a_nat (frame_start f) div 4096 + unat n)) else None)"
  unfolding frame_next_def frame_new_eq by (rule offset_pages)

interpretation fr: page_range_like frame_start frame_at frame_new frame_next frame_successors
  "\<lambda>f c. \<lparr>fr_first = f, fr_count = c\<rparr>" fr_first fr_count frame_range_new
proof unfold_locales
  show "frame_successors l f = bnd (if frame_start f < frame_start l then frame_next f 1 else ret None)
      (\<lambda>n. case n of None \<Rightarrow> ret [f] | Some g \<Rightarrow> bnd (frame_successors l g) (\<lambda>fs. ret (f # fs)))" for l f
    by (rule frame_successors.simps)
  show "frame_start (frame_at i) = addr_of (4096 * i)" for i
    by (simp add: frame_at_def)
qed (simp_all add: frame_new_eq frame_next_eq frame_range_new_def)

lemma page_next_eq:
  "4096 dvd a_nat (page_start f) \<Longrightarrow> page_next f n =
    ret (if a_nat (page_start f) + 4096 * unat n < 2 ^ 64
         then Some (page_at (a_nat (page_start f) div 4096 + unat n)) else None)"
  unfolding page_next_def page_new_eq by (rule offset_pages)

interpretation pg: page_range_like page_start page_at page_new page_next page_successors
  "\<lambda>f c. \<lparr>pr_first = f, pr_count = c\<rparr>" pr_first pr_count page_range_new
proof unfold_locales
  show "page_successors l f = bnd (if page_start f < page_start l then page_next f 1 else ret None)
      (\<lambda>n. case n of None \<Rightarrow> ret [f] | Some g \<Rightarrow> bnd (page_successors l g) (\<lambda>fs. ret (f # fs)))" for l f
    by (rule page_successors.simps)
  show "page_start (page_at i) = addr_of (4096 * i)" for i
    by (simp add: page_at_def)
qed (simp_all add: page_new_eq page_next_eq page_range_new_def)

subsection \<open>Well-formed frames and ranges\<close>

definition wf_frame :: "frame \<Rightarrow> bool" where
  "wf_frame f \<longleftrightarrow> 4096 dvd a_nat (frame_start f)"

definition fidx :: "frame \<Rightarrow> nat" where
  "fidx f = a_nat (frame_start f) div 4096"

definition wf_frame_range :: "frame_range \<Rightarrow> bool" where
  "wf_frame_range r \<longleftrightarrow> wf_frame (fr_first r) \<and> 0 < unat (fr_count r)
     \<and> fidx (fr_first r) + unat (fr_count r) \<le> 2 ^ 52"

text \<open>The numbers of the frames of a range, and the bytes they hold.\<close>

definition range_frames :: "frame_range \<Rightarrow> nat set" where
  "range_frames r = {fidx (fr_first r)..<fidx (fr_first r) + unat (fr_count r)}"

definition frames_bytes :: "nat set \<Rightarrow> nat set" where
  "frames_bytes F = {b. b div 4096 \<in> F}"

lemma fidx_less: "fidx f < 2 ^ 52"
  using a_nat_less [of "frame_start f"] unfolding fidx_def by (simp add: less_mult_imp_div_less)

lemma frame_at_fidx: "wf_frame f \<Longrightarrow> frame_at (fidx f) = f"
  by (simp add: wf_frame_def fidx_def frame_at_def)

lemma wf_frame_at [simp]: "i < 4503599627370496 \<Longrightarrow> wf_frame (frame_at i)"
  by (simp add: wf_frame_def frame_at_def)

lemma fidx_frame_at [simp]: "i < 4503599627370496 \<Longrightarrow> fidx (frame_at i) = i"
  by (simp add: fidx_def frame_at_def)

lemma wf_frame_range_at:
  "0 < n \<Longrightarrow> i + n \<le> 2 ^ 52 \<Longrightarrow> wf_frame_range (frame_range_at i n)"
  by (simp add: wf_frame_range_def frame_range_at_def unat_of_nat_eq)

lemma range_frames_at:
  "0 < n \<Longrightarrow> i + n \<le> 2 ^ 52 \<Longrightarrow> range_frames (frame_range_at i n) = {i..<i + n}"
  by (simp add: range_frames_def frame_range_at_def unat_of_nat_eq)

lemma frame_range_at_eq:
  assumes "wf_frame_range r"
  shows "frame_range_at (fidx (fr_first r)) (unat (fr_count r)) = r"
  using assms by (simp add: wf_frame_range_def frame_range_at_def frame_at_fidx)

lemma frame_new_correct:
  "frame_new a = (if 4096 dvd a_nat a then ret \<lparr>frame_start = a\<rparr> else throw AssertFailed)"
  by (simp add: frame_new_eq frame_at_def)

lemma frame_containing_eq: "frame_containing a = ret (frame_at (a_nat a div 4096))"
  unfolding frame_containing_def by (rule fr.containing_at)

lemma frame_next_wf:
  "wf_frame f \<Longrightarrow> frame_next f n =
    ret (if fidx f + unat n < 2 ^ 52 then Some (frame_at (fidx f + unat n)) else None)"
  using fr.nxt_at [of "fidx f" n] fidx_less [of f] by (simp add: frame_at_fidx)

lemma frame_range_new_wf:
  "wf_frame f \<Longrightarrow> frame_range_new f c =
    ret (if 0 < unat c \<and> fidx f + unat c \<le> 2 ^ 52 then Some \<lparr>fr_first = f, fr_count = c\<rparr> else None)"
  using fr.rnew_at [of "fidx f" c] fidx_less [of f] by (simp add: frame_at_fidx)

lemma frame_range_new_at:
  "0 < n \<Longrightarrow> i + n \<le> 2 ^ 52 \<Longrightarrow>
   frame_range_new (frame_at i) (of_nat n) = ret (Some (frame_range_at i n))"
  by (subst frame_range_new_wf) (simp_all add: unat_of_nat_eq frame_range_at_def)

lemma frame_range_last_wf:
  assumes "wf_frame_range r"
  shows "frame_range_last r = ret (frame_at (fidx (fr_first r) + unat (fr_count r) - 1))"
  unfolding frame_range_last_def
  by (rule fr.last_at) (use assms in \<open>auto simp: wf_frame_range_def frame_at_fidx\<close>)

lemma frame_range_iter_wf:
  assumes "wf_frame_range r"
  shows "frame_range_iter r =
    ret (map frame_at [fidx (fr_first r)..<fidx (fr_first r) + unat (fr_count r)])"
proof -
  let ?i = "fidx (fr_first r)" and ?n = "unat (fr_count r)"
  have "?i \<le> ?i + ?n - 1" "?i + ?n - 1 < 2 ^ 52" "Suc (?i + ?n - 1) = ?i + ?n"
    and f: "frame_at ?i = fr_first r"
    using assms by (auto simp: wf_frame_range_def frame_at_fidx)
  then have "frame_successors (frame_at (?i + ?n - 1)) (fr_first r) = ret (map frame_at [?i..<?i + ?n])"
    using fr.succs_at [of ?i "?i + ?n - 1"] by simp
  then show ?thesis by (simp add: frame_range_iter_def frame_range_last_wf [OF assms])
qed

lemma frame_between_inclusive_at:
  "i \<le> j \<Longrightarrow> j < 2 ^ 52 \<Longrightarrow>
   frame_between_inclusive (frame_at i) (frame_at j) = ret (frame_range_at i (j - i + 1))"
  unfolding frame_between_inclusive_def frame_range_at_def by (rule fr.between_inclusive_at)

lemma frame_containing_extent_eq:
  assumes "valid_extent e"
  shows "frame_containing_extent e =
    ret (frame_range_at (lo e div 4096) ((hi e - 1) div 4096 - lo e div 4096 + 1))"
proof -
  have "lo e div 4096 \<le> (hi e - 1) div 4096" "(hi e - 1) div 4096 < 2 ^ 52"
    using assms by (auto simp: valid_extent_def intro!: div_le_mono less_mult_imp_div_less)
  then show ?thesis
    using assms by (simp add: frame_containing_extent_def frame_containing_eq last_address_eq
        frame_between_inclusive_at valid_extentD less_imp_diff_less flip: lo_def)
qed

text \<open>
  \<^verbatim>\<open>contained_by_extent\<close> computes the start of the last contained frame and then uses it as an
  exclusive end.
\<close>

lemma contained_by_extent_eq:
  assumes v: "valid_extent e" and fits: "lo e + 4095 < 2 ^ 64" and big: "4096 < hi e"
  defines "i \<equiv> round_up 4096 (lo e) div 4096" and "j \<equiv> hi e div 4096 - 1"
  shows "contained_by_extent e = ret (if i < j then Some (frame_range_at i (j - i)) else None)"
proof -
  let ?f = "round_up 4096 (lo e)"
  have f: "?f = 4096 * i" by (simp add: i_def)
  have f64: "?f < 2 ^ 64"
    using round_down_le [of 4096 "lo e + (4096 - 1)"] fits unfolding round_up_def by simp
  then have i52: "i < 2 ^ 52" using f by simp
  have "hi e - 4096 = hi e - 1 - 4096 + 1" "4096 \<le> hi e - 1" "hi e - 4097 < 2 ^ 64 - 1"
    using big valid_extentD(2) [OF v] by auto
  moreover have rd: "round_down 4096 (hi e - 4096) = 4096 * j"
    unfolding round_down_def j_def using big by (simp add: div_eq_0_iff le_div_geq)
  moreover have j52: "j < 2 ^ 52"
    using valid_extentD(2) [OF v] unfolding j_def
    by (simp add: less_mult_imp_div_less less_imp_diff_less)
  ultimately have steps: "contained_by_extent e =
    (if 4096 * i \<ge> 4096 * j then ret None
     else bnd (frame_new (addr_of (4096 * i))) (\<lambda>f. frame_range_new f (of_nat (j - i))))"
    using v fits big f f64
    by (simp add: contained_by_extent_def ext_view address_align_up_eq [where k = 12]
        last_address_eq addr_op_eqs address_align_down_eq [where k = 12] nat_view valid_extentD
        length_is_aligned_to_eq [where k = 12] less_imp_diff_less diff_mult_distrib2 [symmetric]
        fr.distance_div)
  have "frame_new (addr_of (4096 * i)) = ret (frame_at i)"
    using i52 by (simp add: frame_new_eq)
  then show ?thesis
    using steps i52 j52 frame_range_new_at [of "j - i" i] by (simp add: of_nat_diff)
qed

lemma contained_by_extent_short:
  assumes "valid_extent e" "hi e \<le> 4096"
  shows "contained_by_extent e = throw UnwrapNone"
proof -
  have "lo e + 4095 < 2 ^ 64" using assms by (auto simp: valid_extent_def)
  then show ?thesis
    using assms by (auto simp: contained_by_extent_def ext_view address_align_up_eq [where k = 12]
        last_address_eq addr_op_eqs valid_extent_def)
qed

subsection \<open>Pages\<close>

definition wf_page :: "page \<Rightarrow> bool" where
  "wf_page p \<longleftrightarrow> 4096 dvd a_nat (page_start p)"

definition pidx :: "page \<Rightarrow> nat" where
  "pidx p = a_nat (page_start p) div 4096"

definition wf_page_range :: "page_range \<Rightarrow> bool" where
  "wf_page_range r \<longleftrightarrow> wf_page (pr_first r) \<and> 0 < unat (pr_count r)
     \<and> pidx (pr_first r) + unat (pr_count r) \<le> 2 ^ 52"

lemma pidx_less: "pidx f < 2 ^ 52"
  using a_nat_less [of "page_start f"] unfolding pidx_def by (simp add: less_mult_imp_div_less)

lemma page_at_pidx: "wf_page f \<Longrightarrow> page_at (pidx f) = f"
  by (simp add: wf_page_def pidx_def page_at_def)

lemma page_containing_eq: "page_containing a = ret (page_at (a_nat a div 4096))"
  unfolding page_containing_def by (rule pg.containing_at)

lemma page_range_last_wf:
  assumes "wf_page_range r"
  shows "page_range_last r = ret (page_at (pidx (pr_first r) + unat (pr_count r) - 1))"
  unfolding page_range_last_def
  by (rule pg.last_at) (use assms in \<open>auto simp: wf_page_range_def page_at_pidx\<close>)

lemma page_range_iter_wf:
  assumes "wf_page_range r"
  shows "page_range_iter r =
    ret (map page_at [pidx (pr_first r)..<pidx (pr_first r) + unat (pr_count r)])"
proof -
  let ?i = "pidx (pr_first r)" and ?n = "unat (pr_count r)"
  have "?i \<le> ?i + ?n - 1" "?i + ?n - 1 < 2 ^ 52" "Suc (?i + ?n - 1) = ?i + ?n"
    and f: "page_at ?i = pr_first r"
    using assms by (auto simp: wf_page_range_def page_at_pidx)
  then have "page_successors (page_at (?i + ?n - 1)) (pr_first r) = ret (map page_at [?i..<?i + ?n])"
    using pg.succs_at [of ?i "?i + ?n - 1"] by simp
  then show ?thesis by (simp add: page_range_iter_def page_range_last_wf [OF assms])
qed

text \<open>A table index is nine bits of the page's address.\<close>

lemma extract_bits:
  "drop_bit n (x AND push_bit n (mask m)) = take_bit m (drop_bit n (x :: 'a::len word))"
  by (rule bit_word_eqI) (auto simp: bit_simps dest: bit_imp_le_length)

lemma nine_bits:
  "unat (drop_bit n (x AND push_bit n 0x1FF) :: u64) = unat x div 2 ^ n mod 512"
proof -
  have m: "(0x1FF :: u64) = mask 9" by (simp add: mask_eq_exp_minus_1)
  have "unat (drop_bit n (x AND push_bit n 0x1FF)) = take_bit 9 (drop_bit n (unat x))"
    unfolding m extract_bits unsigned_take_bit_eq unat_drop_bit_eq by (rule refl)
  then show ?thesis by (simp add: take_bit_eq_mod drop_bit_eq_div)
qed

lemma round_up_le_iff: "0 < m \<Longrightarrow> n \<le> m * i \<longleftrightarrow> round_up m n div m \<le> i"
proof -
  assume m: "0 < m"
  have "n \<le> m * i \<longleftrightarrow> round_up m n \<le> m * i"
    using round_up_least [OF m, of "m * i" n] round_up_ge [OF m, of n] by (meson dvd_triv_left le_trans)
  also have "\<dots> \<longleftrightarrow> m * (round_up m n div m) \<le> m * i"
    by (simp only: dvd_mult_div_cancel round_up_dvd)
  also have "\<dots> \<longleftrightarrow> round_up m n div m \<le> i" by (rule nat_mult_le_cancel1 [OF m])
  finally show ?thesis .
qed

lemma next_multiple_le_iff: "0 < m \<Longrightarrow> m * i + m \<le> (h::nat) \<longleftrightarrow> i < h div m"
  by (metis Suc_le_eq add.commute less_eq_div_iff_mult_less_eq mult.commute mult_Suc_right)

lemma frames_inside:
  "{i. {4096 * i..<4096 * i + 4096} \<subseteq> addrs e} = {round_up 4096 (lo e) div 4096..<hi e div 4096}"
  unfolding addrs_def ivl_subset
  using round_up_le_iff [of 4096 "lo e"] next_multiple_le_iff [of 4096 _ "hi e"] by auto

lemma Max_interval: "i < n \<Longrightarrow> Max {i..<n} = (n - 1 :: nat)"
  by (intro Max_eqI) auto

section \<open>Properties\<close>

text \<open>
  \<^verbatim>\<open>FrameRange::iter\<close> terminates and yields every frame of the range exactly once, in
  ascending order: \<^verbatim>\<open>count\<close> frames with consecutive numbers from \<^verbatim>\<open>first\<close>, for every well-formed
  range, also one that ends at the last frame of the address space.
\<close>

lemma frame_range_iter_correct:
  assumes "wf_frame_range r"
  shows "runs (frame_range_iter r) (\<lambda>fs. length fs = unat (fr_count r)
    \<and> map fidx fs = [fidx (fr_first r)..<fidx (fr_first r) + unat (fr_count r)]
    \<and> distinct fs \<and> set (map fidx fs) = range_frames r)"
proof -
  let ?i = "fidx (fr_first r)" and ?n = "unat (fr_count r)"
  have bound: "?i + ?n \<le> 2 ^ 52" using assms by (simp add: wf_frame_range_def)
  have idx: "map fidx (map frame_at [?i..<?i + ?n]) = [?i..<?i + ?n]"
    using bound by (intro nth_equalityI) auto
  then have "distinct (map fidx (map frame_at [?i..<?i + ?n]))" by simp
  then have "distinct (map frame_at [?i..<?i + ?n])" unfolding distinct_map by blast
  moreover have "length (map frame_at [?i..<?i + ?n]) = ?n" by simp
  moreover have "set [?i..<?i + ?n] = range_frames r" by (simp add: range_frames_def)
  ultimately show ?thesis
    unfolding frame_range_iter_wf [OF assms] runs_Inr idx by blast
qed

text \<open>
  C24. \<^verbatim>\<open>FrameRange::containing_extent\<close> returns the minimal range that holds an extent: a well-formed
  range whose frames hold every byte of the extent, and whose frames every other covering range
  has too.
\<close>

theorem containing_extent_minimal:
  assumes "valid_extent e"
  shows "runs (frame_containing_extent e) (\<lambda>r. wf_frame_range r
    \<and> addrs e \<subseteq> frames_bytes (range_frames r)
    \<and> (\<forall>q. addrs e \<subseteq> frames_bytes (range_frames q) \<longrightarrow> range_frames r \<subseteq> range_frames q))"
proof -
  let ?i = "lo e div 4096" and ?j = "(hi e - 1) div 4096"
  have ij: "?i \<le> ?j" "?j < 2 ^ 52"
    using assms by (auto simp: valid_extent_def intro!: div_le_mono less_mult_imp_div_less)
  have fr: "range_frames (frame_range_at ?i (?j - ?i + 1)) = {?i..<?j + 1}"
    using ij by (subst range_frames_at) auto
  have "addrs e \<subseteq> frames_bytes {?i..<?j + 1}"
    by (auto simp: addrs_def frames_bytes_def less_Suc_eq_le intro!: div_le_mono)
  moreover have "{?i..<?j + 1} \<subseteq> range_frames q" if "addrs e \<subseteq> frames_bytes (range_frames q)" for q
  proof -
    have "lo e \<in> addrs e" "hi e - 1 \<in> addrs e"
      using assms by (auto simp: addrs_def valid_extent_def)
    with that have "?i \<in> range_frames q" "?j \<in> range_frames q"
      by (auto simp: frames_bytes_def)
    then show ?thesis by (auto simp: range_frames_def)
  qed
  moreover have "wf_frame_range (frame_range_at ?i (?j - ?i + 1))"
    using ij by (intro wf_frame_range_at) auto
  ultimately show ?thesis
    unfolding frame_containing_extent_eq [OF assms] runs_Inr fr by blast
qed

theorem containing_extent_minimal_witness:
  "runs (frame_containing_extent (extent_of 4095 2)) (\<lambda>r. wf_frame_range r
    \<and> addrs (extent_of 4095 2 :: phys_extent) \<subseteq> frames_bytes (range_frames r)
    \<and> (\<forall>q. addrs (extent_of 4095 2 :: phys_extent) \<subseteq> frames_bytes (range_frames q)
        \<longrightarrow> range_frames r \<subseteq> range_frames q))"
  by (rule containing_extent_minimal) (simp add: valid_extent_def)

text \<open>
  C25. \<^verbatim>\<open>FrameRange::contained_by_extent\<close> loses a frame. Where it returns at all, the result is not
  the maximal range of frames inside the extent, as its doc comment says, but that range without
  its last frame, and \<^verbatim>\<open>None\<close> when the extent holds at most one whole frame; for an extent that
  ends at or below the first page boundary it panics.
\<close>

theorem contained_by_extent_drops_last:
  assumes "valid_extent e" "lo e + 4095 < 2 ^ 64"
  shows "if hi e \<le> 4096 then contained_by_extent e = throw UnwrapNone
    else runs (contained_by_extent e) (\<lambda>r.
      let inside = {i. {4096 * i..<4096 * i + 4096} \<subseteq> addrs e} in
      case r of None \<Rightarrow> card inside \<le> 1
      | Some q \<Rightarrow> wf_frame_range q \<and> range_frames q = inside - {Max inside})"
proof (cases "hi e \<le> 4096")
  case True
  with assms show ?thesis by (simp add: contained_by_extent_short)
next
  case False
  define i n where "i = round_up 4096 (lo e) div 4096" and "n = hi e div 4096"
  have n52: "n < 2 ^ 52"
    using valid_extentD(2) [OF assms(1)] by (simp add: less_mult_imp_div_less n_def)
  have eq: "contained_by_extent e =
      ret (if i < n - 1 then Some (frame_range_at i (n - 1 - i)) else None)"
    using contained_by_extent_eq [OF assms] False by (simp add: i_def n_def)
  have "wf_frame_range (frame_range_at i (n - 1 - i))
      \<and> range_frames (frame_range_at i (n - 1 - i)) = {i..<n} - {Max {i..<n}}" if "i < n - 1"
    using that n52 wf_frame_range_at [of "n - 1 - i" i] range_frames_at [of "n - 1 - i" i]
      interval_minus_last [of i n] by (simp add: Max_interval)
  moreover have "card {i..<n} \<le> 1" if "\<not> i < n - 1" using that by simp
  ultimately show ?thesis
    unfolding eq frames_inside i_def [symmetric] n_def [symmetric] Let_def
    using False by simp
qed

theorem contained_by_extent_drops_last_witness:
  "if hi (extent_of 4096 8192 :: phys_extent) \<le> 4096
   then contained_by_extent (extent_of 4096 8192) = throw UnwrapNone
   else runs (contained_by_extent (extent_of 4096 8192)) (\<lambda>r.
      let inside = {i. {4096 * i..<4096 * i + 4096} \<subseteq> addrs (extent_of 4096 8192 :: phys_extent)} in
      case r of None \<Rightarrow> card inside \<le> 1
      | Some q \<Rightarrow> wf_frame_range q \<and> range_frames q = inside - {Max inside})"
  by (rule contained_by_extent_drops_last) (simp_all add: valid_extent_def)

lemma frame_range_new_typed: "wf_frame f \<Longrightarrow> runs (frame_range_new f c) (pred_option wf_frame_range)"
  by (simp add: frame_range_new_wf wf_frame_range_def)

lemma frame_range_newD: "frame_range_new f c = ret q \<Longrightarrow> wf_frame f \<Longrightarrow> pred_option wf_frame_range q"
  using frame_range_new_typed [of f c] by simp

lemma between_typed:
  assumes "wf_frame f"
  shows "frame_between_inclusive f g = ret q \<Longrightarrow> wf_frame_range q" "frame_between_exclusive f g = ret q \<Longrightarrow> wf_frame_range q"
  unfolding frame_between_inclusive_def frame_between_exclusive_def
  by (auto simp: bnd_Inr_iff unwrap_Inr_iff dest!: frame_range_newD [OF _ assms])

text \<open>
  C23. The types \<^verbatim>\<open>Frame\<close> and \<^verbatim>\<open>FrameRange\<close> keep their promise. Every frame an operation returns starts at a multiple of
  the frame size, and every range is not empty and ends inside the address space, as long as the arguments do;
  the operations that cannot fail return.
\<close>

theorem frame_operations_typed:
  assumes "wf_frame f" "wf_frame_range r" "valid_extent e"
  shows "(\<forall>x. frame_new a = ret x \<longrightarrow> wf_frame x) \<and> runs (frame_containing a) wf_frame \<and> runs (frame_next f n) (pred_option wf_frame)
    \<and> (\<forall>x. frame_extent f = ret x \<longrightarrow> valid_extent x)
    \<and> runs (frame_range_new f n) (pred_option wf_frame_range) \<and> runs (frame_range_one f) wf_frame_range
    \<and> (\<forall>q. frame_between_inclusive f g = ret q \<longrightarrow> wf_frame_range q) \<and> (\<forall>q. frame_between_exclusive f g = ret q \<longrightarrow> wf_frame_range q)
    \<and> runs (frame_containing_extent e) wf_frame_range \<and> (\<forall>q. contained_by_extent e = ret q \<longrightarrow> pred_option wf_frame_range q)
    \<and> runs (frame_range_last r) wf_frame \<and> runs (frame_range_end r) (pred_option wf_frame) \<and> runs (frame_range_iter r) (list_all wf_frame)"
proof (intro conjI allI impI)
  have r: "wf_frame (fr_first r)" "0 < unat (fr_count r)" "fidx (fr_first r) + unat (fr_count r) \<le> 2 ^ 52" using assms(2) by (auto simp: wf_frame_range_def)
  show "wf_frame x" if "frame_new a = ret x" for x using that by (auto simp: frame_new_correct wf_frame_def split: if_splits)
  show "runs (frame_containing a) wf_frame" using a_nat_less [of a] by (simp add: frame_containing_eq less_mult_imp_div_less)
  show "runs (frame_next f n) (pred_option wf_frame)" using assms(1) by (simp add: frame_next_wf)
  show "valid_extent x" if "frame_extent f = ret x" for x
    using that by (auto simp: frame_extent_def extent_new_eq valid_extent_def lo_def hi_def ln_def split: if_splits)
  show "runs (frame_range_new f n) (pred_option wf_frame_range)" by (rule frame_range_new_typed [OF assms(1)])
  show "runs (frame_range_one f) wf_frame_range" using fidx_less [of f] assms(1) by (simp add: frame_range_one_def frame_range_new_wf wf_frame_range_def)
  show "wf_frame_range q" if "frame_between_inclusive f g = ret q" for q by (rule between_typed(1) [OF assms(1) that])
  show "wf_frame_range q" if "frame_between_exclusive f g = ret q" for q by (rule between_typed(2) [OF assms(1) that])
  have "(hi e - 1) div 4096 < 2 ^ 52" "lo e div 4096 \<le> (hi e - 1) div 4096"
    using assms(3) by (auto simp: valid_extent_def less_mult_imp_div_less intro!: div_le_mono)
  then show "runs (frame_containing_extent e) wf_frame_range" by (simp add: frame_containing_extent_eq [OF assms(3)] wf_frame_range_at)
  show "pred_option wf_frame_range q" if "contained_by_extent e = ret q" for q
    using that by (auto simp: contained_by_extent_def bnd_Inr_iff frame_new_correct split: if_splits)
      (auto dest!: frame_range_newD simp: wf_frame_def)
  show "runs (frame_range_last r) wf_frame" using r by (simp add: frame_range_last_wf [OF assms(2)])
  show "runs (frame_range_end r) (pred_option wf_frame)" using r by (simp add: frame_range_end_def frame_next_wf)
  show "runs (frame_range_iter r) (list_all wf_frame)" using r by (simp add: frame_range_iter_wf [OF assms(2)] list_all_iff)
qed

theorem frame_operations_typed_witness:
  "runs (frame_next (frame_at 5) 3) (pred_option wf_frame) \<and> runs (frame_range_iter (frame_range_at 2 4)) (list_all wf_frame)
    \<and> runs (frame_containing_extent (extent_of 4095 2)) wf_frame_range"
  using frame_operations_typed [of "frame_at 5" "frame_range_at 2 4" "extent_of 4095 2" _ 3]
  by (simp add: wf_frame_range_at valid_extent_def)

lemma page_indices_sum:
  assumes "wf_page p"
  shows "unat (l4_index p) < 512 \<and> unat (l3_index p) < 512 \<and> unat (l2_index p) < 512
    \<and> unat (l1_index p) < 512
    \<and> 2 ^ 39 * unat (l4_index p) + 2 ^ 30 * unat (l3_index p) + 2 ^ 21 * unat (l2_index p)
        + 2 ^ 12 * unat (l1_index p) = a_nat (page_start p) mod 2 ^ 48"
proof -
  define i where "i = pidx p"
  have a: "a_nat (page_start p) = 4096 * i" using assms by (simp add: wf_page_def i_def pidx_def)
  have "unat (l1_index p) = i mod 512" "unat (l2_index p) = i div 2 ^ 9 mod 512"
    "unat (l3_index p) = i div 2 ^ 18 mod 512" "unat (l4_index p) = i div 2 ^ 27 mod 512"
    using div_mult_mult1 [of 4096 i "2 ^ 9"] div_mult_mult1 [of 4096 i "2 ^ 18"]
      div_mult_mult1 [of 4096 i "2 ^ 27"]
    unfolding l1_index_def l2_index_def l3_index_def l4_index_def nine_bits unat_addr_raw a
    by simp_all
  moreover have "a_nat (page_start p) mod 2 ^ 48 = 4096 * (i mod 2 ^ 36)"
    unfolding a using mult_mod_right [of 4096 i "2 ^ 36"] by simp
  moreover have "2 ^ 27 * (i div 2 ^ 27 mod 512) + 2 ^ 18 * (i div 2 ^ 18 mod 512)
      + 2 ^ 9 * (i div 2 ^ 9 mod 512) + i mod 512 = i mod 2 ^ 36"
    using mod_mult2_eq [of i "2 ^ 9" "2 ^ 27"] mod_mult2_eq [of "i div 2 ^ 9" "2 ^ 9" "2 ^ 18"]
      mod_mult2_eq [of "i div 2 ^ 18" "2 ^ 9" "2 ^ 9"]
    by (simp add: div_mult2_eq [symmetric])
  ultimately show ?thesis by simp
qed



end
