(* ===== verification/Memory_Map.thy ===== *)
theory Memory_Map
  imports Page
begin

text \<open>
  \<^verbatim>\<open>shared/src/memory.rs\<close>: the map of physical memory, the iterator that marks the areas occupied by
  the kernel, and the frames of a map.

  The iterator uses two types of other packages, \<^verbatim>\<open>itertools::PutBack\<close> and \<^verbatim>\<open>arrayvec::ArrayVec\<close>.
  Their operations are parameters of the model, and \<open>put_back_law\<close> and \<open>array_vec_law\<close> state the
  documented behaviour the code relies on.
\<close>

section \<open>Model\<close>

datatype memory_type = Available | Acpi | ReservedPreserveOnHibernation | Defective | Reserved
  | KernelLoad

record map_entry =
  me_extent :: phys_extent
  me_type :: memory_type

subsection \<open>The map\<close>

record memory_map =
  mm_entries :: "map_entry list"
  mm_num_entries :: u64

fun fill_entries :: "map_entry list \<Rightarrow> u64 \<Rightarrow> map_entry list \<Rightarrow> (map_entry list \<times> u64) rust" where
  "fill_entries entries num [] = ret (entries, num)"
| "fill_entries entries num (entry # src) =
     bnd (rassert (unat num < length entries)) (\<lambda>_.
     bnd (store entries (unat num) entry) (\<lambda>entries'.
     bnd (u_add num 1) (\<lambda>num'.
     fill_entries entries' num' src)))"

definition from_entries :: "map_entry list \<Rightarrow> memory_map rust" where
  "from_entries src =
     bnd (extent_from_raw 0 1) (\<lambda>dummy.
     bnd (fill_entries (replicate 128 \<lparr>me_extent = dummy, me_type = Reserved\<rparr>) 0 src) (\<lambda>(entries, num).
     ret \<lparr>mm_entries = entries, mm_num_entries = num\<rparr>))"

definition map_entries :: "memory_map \<Rightarrow> map_entry list rust" where
  "map_entries self =
     (if unat (mm_num_entries self) \<le> length (mm_entries self)
      then ret (take (unat (mm_num_entries self)) (mm_entries self))
      else throw OutOfBounds)"

text \<open>\<^verbatim>\<open>entries_mut()[ndx] = entry\<close>: a write through the slice of used entries.\<close>

definition entries_mut_store :: "memory_map \<Rightarrow> nat \<Rightarrow> map_entry \<Rightarrow> memory_map rust" where
  "entries_mut_store self ndx entry =
     bnd (map_entries self) (\<lambda>slice.
     bnd (store slice ndx entry) (\<lambda>slice'.
     ret (self\<lparr>mm_entries := slice' @ drop (length slice') (mm_entries self)\<rparr>)))"

text \<open>The iterator runs over the whole array, not only over the used entries.\<close>

definition iter_type :: "memory_map \<Rightarrow> memory_type \<Rightarrow> map_entry list" where
  "iter_type self t = filter (\<lambda>e. me_type e = t) (mm_entries self)"

subsection \<open>Marking kernel areas\<close>

text \<open>
  The operations of \<^verbatim>\<open>PutBack\<close> on a state \<open>'s\<close> with items \<open>'a\<close>: construction from an iterator,
  \<^verbatim>\<open>next\<close> and \<^verbatim>\<open>put_back\<close>. Those of \<^verbatim>\<open>ArrayVec<MapEntry, 2>\<close>: construction, \<^verbatim>\<open>push\<close>, and the items in
  order, which is what \<^verbatim>\<open>flatten\<close> takes out.
\<close>

record ('s, 'a) put_back_ops =
  pb_make :: "'a list \<Rightarrow> 's"
  pb_next :: "'s \<Rightarrow> 'a option \<times> 's"
  pb_put_back :: "'s \<Rightarrow> 'a \<Rightarrow> 's"

record 'v array_vec_ops =
  av_new :: 'v
  av_push :: "'v \<Rightarrow> map_entry \<Rightarrow> 'v rust"
  av_items :: "'v \<Rightarrow> map_entry list"

record ('r, 'k, 'v) marker_ops =
  mk_r :: "('r, map_entry) put_back_ops"
  mk_k :: "('k, phys_extent) put_back_ops"
  mk_v :: "'v array_vec_ops"

record ('r, 'k) kernel_area_marker =
  km_regions :: 'r
  km_kernel_areas :: 'k

text \<open>
  The \<^verbatim>\<open>while let\<close> loop that skips kernel areas before the current region. An iterator need not be
  finite, so the loop spends one unit of fuel per round and \<open>Diverges\<close> when there is none left.
\<close>

fun skip_areas :: "('k, phys_extent) put_back_ops \<Rightarrow> nat \<Rightarrow> map_entry \<Rightarrow> 'k \<Rightarrow> 'k rust" where
  "skip_areas K 0 cur areas = throw Diverges"
| "skip_areas K (Suc fuel) cur areas =
     (case pb_next K areas of
        (None, areas') \<Rightarrow> ret areas'
      | (Some krnl, areas') \<Rightarrow>
          bnd (overlap krnl (me_extent cur)) (\<lambda>ov.
          if ov = None \<and> ext_address krnl < ext_address (me_extent cur)
          then skip_areas K fuel cur areas'
          else ret (pb_put_back K areas' krnl)))"

definition one_vec :: "'v array_vec_ops \<Rightarrow> map_entry \<Rightarrow> 'v rust" where
  "one_vec V x = av_push V (av_new V) x"

text \<open>\<^verbatim>\<open>KernelAreaMarker::next\<close>, with the new state of the marker.\<close>

definition marker_next ::
  "('r, 'k, 'v) marker_ops \<Rightarrow> nat \<Rightarrow> ('r, 'k) kernel_area_marker
    \<Rightarrow> ('v option \<times> ('r, 'k) kernel_area_marker) rust" where
  "marker_next L fuel self =
     (case pb_next (mk_r L) (km_regions self) of
        (None, regions) \<Rightarrow> ret (None, self\<lparr>km_regions := regions\<rparr>)
      | (Some cur, regions) \<Rightarrow>
          let self = self\<lparr>km_regions := regions\<rparr> in
          if me_type cur \<noteq> Available \<and> me_type cur \<noteq> Acpi
          then bnd (one_vec (mk_v L) cur) (\<lambda>v. ret (Some v, self))
          else
            bnd (skip_areas (mk_k L) fuel cur (km_kernel_areas self)) (\<lambda>areas.
            case pb_next (mk_k L) areas of
              (None, areas) \<Rightarrow>
                bnd (one_vec (mk_v L) cur) (\<lambda>v. ret (Some v, self\<lparr>km_kernel_areas := areas\<rparr>))
            | (Some krnl, areas) \<Rightarrow>
                bnd (overlap krnl (me_extent cur)) (\<lambda>ov.
                if ov = None \<and> ext_address krnl > ext_address (me_extent cur)
                then
                  bnd (one_vec (mk_v L) cur) (\<lambda>v.
                  ret (Some v, self\<lparr>km_kernel_areas := pb_put_back (mk_k L) areas krnl\<rparr>))
                else
                  bnd (right_difference (me_extent cur) krnl) (\<lambda>right.
                  let regions = (case right of None \<Rightarrow> regions
                    | Some r \<Rightarrow> pb_put_back (mk_r L) regions
                        \<lparr>me_extent = r, me_type = me_type cur\<rparr>) in
                  bnd (left_difference (me_extent cur) krnl) (\<lambda>left.
                  bnd (case left of None \<Rightarrow> ret (av_new (mk_v L))
                    | Some l \<Rightarrow> av_push (mk_v L) (av_new (mk_v L))
                        \<lparr>me_extent = l, me_type = me_type cur\<rparr>) (\<lambda>parts.
                  bnd (overlap (me_extent cur) krnl) (\<lambda>mid.
                  bnd (unwrap mid) (\<lambda>m.
                  bnd (av_push (mk_v L) parts \<lparr>me_extent = m, me_type = KernelLoad\<rparr>) (\<lambda>parts.
                  ret (Some parts, \<lparr>km_regions = regions,
                    km_kernel_areas = pb_put_back (mk_k L) areas krnl\<rparr>)))))))))) "

text \<open>\<^verbatim>\<open>.flatten()\<close>, run to the end.\<close>

fun marker_run ::
  "('r, 'k, 'v) marker_ops \<Rightarrow> nat \<Rightarrow> ('r, 'k) kernel_area_marker \<Rightarrow> map_entry list rust" where
  "marker_run L 0 self = throw Diverges"
| "marker_run L (Suc fuel) self =
     bnd (marker_next L fuel self) (\<lambda>(r, self').
     case r of None \<Rightarrow> ret []
     | Some v \<Rightarrow> bnd (marker_run L fuel self') (\<lambda>es. ret (av_items (mk_v L) v @ es)))"

definition mark_kernel_areas ::
  "('r, 'k, 'v) marker_ops \<Rightarrow> nat \<Rightarrow> map_entry list \<Rightarrow> phys_extent list \<Rightarrow> map_entry list rust" where
  "mark_kernel_areas L fuel regions areas =
     marker_run L fuel \<lparr>km_regions = pb_make (mk_r L) regions,
       km_kernel_areas = pb_make (mk_k L) areas\<rparr>"

subsection \<open>Frames of a map\<close>

fun iter_map_frames :: "map_entry list \<Rightarrow> frame_range list rust" where
  "iter_map_frames [] = ret []"
| "iter_map_frames (e # es) =
     bnd (shrink_to_alignment (me_extent e) (len_raw PAGE_SIZE)) (\<lambda>s.
     bnd (case s of None \<Rightarrow> ret []
       | Some x \<Rightarrow> bnd (frame_containing_extent x) (\<lambda>r. ret [r])) (\<lambda>rs.
     bnd (iter_map_frames es) (\<lambda>rest. ret (rs @ rest))))"

section \<open>Reference definition of the marking\<close>

definition markable :: "memory_type \<Rightarrow> bool" where
  "markable t \<longleftrightarrow> t = Available \<or> t = Acpi"

definition r_lo :: "map_entry \<Rightarrow> nat" where
  "r_lo r = lo (me_extent r)"

definition r_hi :: "map_entry \<Rightarrow> nat" where
  "r_hi r = hi (me_extent r)"

text \<open>The entry from \<open>s\<close> up to \<open>t\<close>, or nothing when that is empty.\<close>

definition piece :: "memory_type \<Rightarrow> nat \<Rightarrow> nat \<Rightarrow> map_entry list" where
  "piece ty s t = (if s < t then [\<lparr>me_extent = extent_of s (t - s), me_type = ty\<rparr>] else [])"

text \<open>
  One round of the marking on lists: the entries returned for the region \<open>r\<close>, and the regions and
  areas left for the next round.
\<close>

definition mark_round ::
  "map_entry \<Rightarrow> map_entry list \<Rightarrow> phys_extent list \<Rightarrow> map_entry list \<times> map_entry list \<times> phys_extent list" where
  "mark_round r rs ks =
     (if \<not> markable (me_type r) then ([r], rs, ks)
      else case dropWhile (\<lambda>k. hi k \<le> r_lo r) ks of
        [] \<Rightarrow> ([r], rs, [])
      | k # ks' \<Rightarrow>
          if r_hi r \<le> lo k then ([r], rs, k # ks')
          else (piece (me_type r) (r_lo r) (lo k)
              @ piece KernelLoad (max (r_lo r) (lo k)) (min (r_hi r) (hi k)),
            piece (me_type r) (hi k) (r_hi r) @ rs, k # ks'))"

declare dropWhile_eq_Nil_conv [simp del]

text \<open>Sorted, non-overlapping, valid: what \<^verbatim>\<open>mark_kernel_areas\<close> demands of both sequences.\<close>

definition areas_ok :: "phys_extent list \<Rightarrow> bool" where
  "areas_ok ks \<longleftrightarrow> list_all valid_extent ks \<and> sorted_wrt (\<lambda>k k'. hi k \<le> lo k') ks"

definition regions_ok :: "map_entry list \<Rightarrow> bool" where
  "regions_ok rs \<longleftrightarrow> areas_ok (map me_extent rs)"

lemma areas_ok_simps [simp]:
  "areas_ok []"
  "areas_ok (k # ks) \<longleftrightarrow> valid_extent k \<and> (\<forall>k' \<in> set ks. hi k \<le> lo k') \<and> areas_ok ks"
  by (auto simp: areas_ok_def)

lemma regions_ok_simps [simp]:
  "regions_ok []"
  "regions_ok (r # rs) \<longleftrightarrow> valid_extent (me_extent r) \<and> (\<forall>r' \<in> set rs. r_hi r \<le> r_lo r') \<and> regions_ok rs"
  by (auto simp: regions_ok_def r_hi_def r_lo_def)

lemma areas_ok_append:
  "areas_ok (xs @ ys) \<longleftrightarrow> areas_ok xs \<and> areas_ok ys \<and> (\<forall>x \<in> set xs. \<forall>y \<in> set ys. hi x \<le> lo y)"
  by (auto simp: areas_ok_def sorted_wrt_append)

lemma regions_ok_append:
  "regions_ok (xs @ ys) \<longleftrightarrow>
    regions_ok xs \<and> regions_ok ys \<and> (\<forall>x \<in> set xs. \<forall>y \<in> set ys. r_hi x \<le> r_lo y)"
  by (auto simp: regions_ok_def areas_ok_append r_hi_def r_lo_def)

lemma areas_ok_dropWhile: "areas_ok ks \<Longrightarrow> areas_ok (dropWhile P ks)"
  by (induction ks) auto

text \<open>The contracts of the two library types, relative to the list of items still to come.\<close>

definition put_back_law :: "('s, 'a) put_back_ops \<Rightarrow> ('s \<Rightarrow> 'a list) \<Rightarrow> ('s \<Rightarrow> bool) \<Rightarrow> bool" where
  "put_back_law P view free \<longleftrightarrow>
     (\<forall>xs. view (pb_make P xs) = xs \<and> free (pb_make P xs))
   \<and> (\<forall>s. view s = [] \<longrightarrow> fst (pb_next P s) = None \<and> view (snd (pb_next P s)) = [])
   \<and> (\<forall>s x xs. view s = x # xs \<longrightarrow> fst (pb_next P s) = Some x \<and> view (snd (pb_next P s)) = xs)
   \<and> (\<forall>s. free (snd (pb_next P s)))
   \<and> (\<forall>s x. free s \<longrightarrow> view (pb_put_back P s x) = x # view s)"

definition array_vec_law :: "'v array_vec_ops \<Rightarrow> bool" where
  "array_vec_law V \<longleftrightarrow> av_items V (av_new V) = []
   \<and> (\<forall>v x. length (av_items V v) < 2 \<longrightarrow>
        (\<exists>v'. av_push V v x = ret v' \<and> av_items V v' = av_items V v @ [x]))"

text \<open>The laws of the library types the marking uses.\<close>

definition marker_law :: "('r, 'k, 'v) marker_ops \<Rightarrow> bool" where
  "marker_law MK \<longleftrightarrow> (\<exists>vr fr. put_back_law (mk_r MK) vr fr) \<and> (\<exists>vk fk. put_back_law (mk_k MK) vk fk) \<and> array_vec_law (mk_v MK)"

lemma pb_next_cases:
  assumes "put_back_law P view free"
  obtains s' where "view s = []" "pb_next P s = (None, s')" "view s' = []" "free s'"
  | x xs s' where "view s = x # xs" "pb_next P s = (Some x, s')" "view s' = xs" "free s'"
proof (cases "view s")
  case Nil
  then have "fst (pb_next P s) = None" "view (snd (pb_next P s)) = []" "free (snd (pb_next P s))"
    using assms by (auto simp: put_back_law_def)
  then show ?thesis using Nil that(1) [of "snd (pb_next P s)"] by (simp add: prod_eq_iff)
next
  case (Cons x xs)
  then have "fst (pb_next P s) = Some x" "view (snd (pb_next P s)) = xs" "free (snd (pb_next P s))"
    using assms unfolding put_back_law_def by blast+
  then show ?thesis using Cons that(2) [of x xs "snd (pb_next P s)"] by (simp add: prod_eq_iff)
qed

lemma put_back_view: "put_back_law P view free \<Longrightarrow> free s \<Longrightarrow> view (pb_put_back P s x) = x # view s"
  by (simp add: put_back_law_def)

lemma push_first:
  assumes "array_vec_law V"
  obtains v where "av_push V (av_new V) x = ret v" "av_items V v = [x]"
proof -
  have "av_items V (av_new V) = []" using assms by (simp add: array_vec_law_def)
  then show ?thesis using assms that
    by (metis append_Nil array_vec_law_def list.size(3) zero_less_numeral)
qed

lemma push_next:
  assumes "array_vec_law V" "length (av_items V v) < 2"
  obtains v' where "av_push V v x = ret v'" "av_items V v' = av_items V v @ [x]"
  using assms by (auto simp: array_vec_law_def)

section \<open>The marker simulates the rounds\<close>

lemma skip_areas_eq:
  assumes law: "put_back_law K view free" and "valid_extent (me_extent r)"
  shows "areas_ok (view s) \<Longrightarrow> length (view s) < fuel \<Longrightarrow>
    \<exists>s'. skip_areas K fuel r s = ret s' \<and> view s' = dropWhile (\<lambda>k. hi k \<le> r_lo r) (view s)"
proof (induction fuel arbitrary: s)
  case (Suc fuel)
  show ?case
  proof (cases rule: pb_next_cases [OF law, of s])
    case (2 k ks s')
    have "valid_extent k" using Suc.prems 2 by simp
    then have *: "overlap k (me_extent r) = ret (span (max (lo k) (r_lo r)) (min (hi k) (r_hi r)))"
      "span (max (lo k) (r_lo r)) (min (hi k) (r_hi r)) = None
        \<and> ext_address k < ext_address (me_extent r) \<longleftrightarrow> hi k \<le> r_lo r"
      using assms(2) by (auto simp: overlap_eq r_lo_def r_hi_def span_def nat_view valid_extent_def
        lo_def [symmetric])
    have "areas_ok (view s')" "length (view s') < fuel" using Suc.prems 2 by auto
    then show ?thesis using Suc.IH [of s'] 2 put_back_view [OF law, of s' k]
      by (cases "hi k \<le> r_lo r") (simp_all add: *)
  qed (use Suc in auto)
qed simp

definition views_as ::
  "('r \<Rightarrow> map_entry list) \<Rightarrow> ('k \<Rightarrow> phys_extent list) \<Rightarrow> ('r, 'k) kernel_area_marker
    \<Rightarrow> map_entry list \<Rightarrow> phys_extent list \<Rightarrow> bool" where
  "views_as vr vk st rs ks \<longleftrightarrow> vr (km_regions st) = rs \<and> vk (km_kernel_areas st) = ks"

lemma dropWhile_hd: "dropWhile P xs = y # ys \<Longrightarrow> \<not> P y"
  by (metis hd_dropWhile list.distinct(1) list.sel(1))

text \<open>The last part of \<^verbatim>\<open>next\<close>: a region is cut at the borders of the area that overlaps it.\<close>

lemma marker_cut:
  assumes R: "put_back_law P vr fr" and V: "array_vec_law V"
    and g: "vr g = rs" "fr g" and r: "valid_extent (me_extent r)" "valid_extent k"
    and cut: "r_lo r < hi k" "lo k < r_hi r"
  obtains right left v0 v m where "right_difference (me_extent r) k = ret right"
    "left_difference (me_extent r) k = ret left"
    "vr (case right of None \<Rightarrow> g
       | Some x \<Rightarrow> pb_put_back P g \<lparr>me_extent = x, me_type = me_type r\<rparr>)
      = piece (me_type r) (hi k) (r_hi r) @ rs"
    "(case left of None \<Rightarrow> ret (av_new V)
       | Some l \<Rightarrow> av_push V (av_new V) \<lparr>me_extent = l, me_type = me_type r\<rparr>) = ret v0"
    "span (max (r_lo r) (lo k)) (min (r_hi r) (hi k)) = Some m"
    "av_push V v0 \<lparr>me_extent = m, me_type = KernelLoad\<rparr> = ret v"
    "av_items V v = piece (me_type r) (r_lo r) (lo k)
      @ piece KernelLoad (max (r_lo r) (lo k)) (min (r_hi r) (hi k))"
proof -
  let ?l = "span (r_lo r) (lo k)" and ?m = "extent_of (max (r_lo r) (lo k))
    (min (r_hi r) (hi k) - max (r_lo r) (lo k))"
  have ends: "r_lo r < r_hi r" "lo k < hi k" using r by (auto simp: r_lo_def r_hi_def valid_extent_def)
  obtain v0 where v0: "(case ?l of None \<Rightarrow> ret (av_new V)
       | Some l \<Rightarrow> av_push V (av_new V) \<lparr>me_extent = l, me_type = me_type r\<rparr>) = ret v0"
     "av_items V v0 = piece (me_type r) (r_lo r) (lo k)"
  proof (cases "r_lo r < lo k")
    case True
    obtain v where "av_push V (av_new V)
        \<lparr>me_extent = extent_of (r_lo r) (lo k - r_lo r), me_type = me_type r\<rparr> = ret v"
      "av_items V v = [\<lparr>me_extent = extent_of (r_lo r) (lo k - r_lo r), me_type = me_type r\<rparr>]"
      by (rule push_first [OF V])
    then show ?thesis using True that by (simp add: span_def piece_def)
  next
    case False
    then show ?thesis using V that by (simp add: span_def piece_def array_vec_law_def)
  qed
  then have "length (av_items V v0) < 2" by (simp add: piece_def)
  then obtain v where v: "av_push V v0 \<lparr>me_extent = ?m, me_type = KernelLoad\<rparr> = ret v"
      "av_items V v = av_items V v0 @ [\<lparr>me_extent = ?m, me_type = KernelLoad\<rparr>]"
    using push_next [OF V] by metis
  show ?thesis
  proof (rule that [of "span (hi k) (r_hi r)" ?l v0 ?m v])
    show "right_difference (me_extent r) k = ret (span (hi k) (r_hi r))"
      "left_difference (me_extent r) k = ret ?l"
      using r cut ends by (simp_all add: right_difference_eq left_difference_eq r_lo_def r_hi_def)
    show "vr (case span (hi k) (r_hi r) of None \<Rightarrow> g
        | Some x \<Rightarrow> pb_put_back P g \<lparr>me_extent = x, me_type = me_type r\<rparr>)
        = piece (me_type r) (hi k) (r_hi r) @ rs"
      using put_back_view [OF R g(2)] g(1) by (simp add: span_def piece_def)
    show "span (max (r_lo r) (lo k)) (min (r_hi r) (hi k)) = Some ?m"
      using cut ends by (simp add: span_def)
    show "av_items V v = piece (me_type r) (r_lo r) (lo k)
        @ piece KernelLoad (max (r_lo r) (lo k)) (min (r_hi r) (hi k))"
      using cut ends v(2) v0(2) by (simp add: piece_def)
  qed (use v0 v in simp_all)
qed

lemma marker_next_round:
  assumes R: "put_back_law (mk_r L) vr fr" and K: "put_back_law (mk_k L) vk fk"
    and V: "array_vec_law (mk_v L)"
    and st: "views_as vr vk st (r # rs) ks" and ok: "areas_ok ks" "valid_extent (me_extent r)"
    and fuel: "length ks < fuel"
  shows "\<exists>v st'. marker_next L fuel st = ret (Some v, st') \<and>
    (case mark_round r rs ks of (es, rs', ks') \<Rightarrow>
      av_items (mk_v L) v = es \<and> views_as vr vk st' rs' ks')"
proof -
  obtain g where g: "pb_next (mk_r L) (km_regions st) = (Some r, g)" "vr g = rs" "fr g"
    using pb_next_cases [OF R, of "km_regions st"] st by (auto simp: views_as_def)
  obtain v1 where v1: "one_vec (mk_v L) r = ret v1" "av_items (mk_v L) v1 = [r]"
    using push_first [OF V] by (metis one_vec_def)
  show ?thesis
  proof (cases "markable (me_type r)")
    case False
    then show ?thesis using g v1 st
      by (simp add: marker_next_def mark_round_def markable_def views_as_def)
  next
    case True
    then have ty: "\<not> (me_type r \<noteq> Available \<and> me_type r \<noteq> Acpi)" by (auto simp: markable_def)
    let ?dw = "dropWhile (\<lambda>k. hi k \<le> r_lo r) ks"
    obtain s where s: "skip_areas (mk_k L) fuel r (km_kernel_areas st) = ret s" "vk s = ?dw"
      using skip_areas_eq [OF K ok(2), of "km_kernel_areas st" fuel] st ok fuel by (auto simp: views_as_def)
    show ?thesis
    proof (cases rule: pb_next_cases [OF K, of s])
      case (1 s')
      then have "?dw = []" using s by metis
      then show ?thesis using g v1 s 1 True
        by (simp add: marker_next_def mark_round_def ty views_as_def Let_def)
    next
      case (2 k ks' s')
      have dw: "?dw = k # ks'" using 2 s by simp
      have live: "r_lo r < hi k" using dropWhile_hd [OF dw] by simp
      have k: "valid_extent k" using areas_ok_dropWhile [OF ok(1), of "\<lambda>k. hi k \<le> r_lo r"] dw by simp
      have pb: "vk (pb_put_back (mk_k L) s' k) = k # ks'" using put_back_view [OF K] 2 by simp
      have ov: "overlap k (me_extent r) = ret (span (max (lo k) (r_lo r)) (min (hi k) (r_hi r)))"
        "overlap (me_extent r) k = ret (span (max (r_lo r) (lo k)) (min (r_hi r) (hi k)))"
        using k ok by (simp_all add: overlap_eq r_lo_def r_hi_def)
      have after: "span (max (lo k) (r_lo r)) (min (hi k) (r_hi r)) = None
          \<and> ext_address (me_extent r) < ext_address k \<longleftrightarrow> r_hi r \<le> lo k"
        using k ok live by (auto simp: r_lo_def r_hi_def span_def nat_view valid_extent_def lo_def [symmetric])
      show ?thesis
      proof (cases "r_hi r \<le> lo k")
        case True
        then show ?thesis using g v1 s 2 \<open>markable (me_type r)\<close> pb
          by (simp add: marker_next_def mark_round_def ty views_as_def Let_def ov after dw)
      next
        case False
        then have "lo k < r_hi r" by simp
        then obtain right left v0 v m where cut: "right_difference (me_extent r) k = ret right"
          "left_difference (me_extent r) k = ret left"
          "vr (case right of None \<Rightarrow> g
             | Some x \<Rightarrow> pb_put_back (mk_r L) g \<lparr>me_extent = x, me_type = me_type r\<rparr>)
            = piece (me_type r) (hi k) (r_hi r) @ rs"
          "(case left of None \<Rightarrow> ret (av_new (mk_v L))
             | Some l \<Rightarrow> av_push (mk_v L) (av_new (mk_v L)) \<lparr>me_extent = l, me_type = me_type r\<rparr>) = ret v0"
          "span (max (r_lo r) (lo k)) (min (r_hi r) (hi k)) = Some m"
          "av_push (mk_v L) v0 \<lparr>me_extent = m, me_type = KernelLoad\<rparr> = ret v"
          "av_items (mk_v L) v = piece (me_type r) (r_lo r) (lo k)
            @ piece KernelLoad (max (r_lo r) (lo k)) (min (r_hi r) (hi k))"
          by (rule marker_cut [OF R V g(2,3) ok(2) k live])
        then show ?thesis using g s 2 False \<open>markable (me_type r)\<close> pb
          by (simp add: marker_next_def mark_round_def ty views_as_def Let_def ov after dw)
      qed
    qed
  qed
qed

section \<open>What the rounds compute\<close>

definition has_type :: "map_entry list \<Rightarrow> nat \<Rightarrow> memory_type \<Rightarrow> bool" where
  "has_type es a t \<longleftrightarrow> (\<exists>e \<in> set es. a \<in> addrs (me_extent e) \<and> me_type e = t)"

definition covered :: "phys_extent list \<Rightarrow> nat \<Rightarrow> bool" where
  "covered ks a \<longleftrightarrow> (\<exists>k \<in> set ks. a \<in> addrs k)"

definition marked_type :: "phys_extent list \<Rightarrow> nat \<Rightarrow> memory_type \<Rightarrow> memory_type" where
  "marked_type ks a t = (if markable t \<and> covered ks a then KernelLoad else t)"

text \<open>\<open>es\<close> is the map \<open>rs\<close> with the areas \<open>ks\<close> marked.\<close>

definition marked :: "map_entry list \<Rightarrow> phys_extent list \<Rightarrow> map_entry list \<Rightarrow> bool" where
  "marked rs ks es \<longleftrightarrow> regions_ok es
    \<and> (\<forall>a t. has_type es a t \<longleftrightarrow> (\<exists>t0. has_type rs a t0 \<and> t = marked_type ks a t0))"

lemma has_type_simps [simp]:
  "\<not> has_type [] a t"
  "has_type (r # rs) a t \<longleftrightarrow> r_lo r \<le> a \<and> a < r_hi r \<and> me_type r = t \<or> has_type rs a t"
  "has_type (xs @ ys) a t \<longleftrightarrow> has_type xs a t \<or> has_type ys a t"
  by (auto simp: has_type_def addrs_def r_lo_def r_hi_def)

lemma has_type_piece [simp]:
  "v < 18446744073709551616 \<Longrightarrow> has_type (piece ty u v) a t \<longleftrightarrow> u \<le> a \<and> a < v \<and> t = ty"
  by (auto simp: piece_def has_type_def addrs_def)

lemma piece_mem:
  "e \<in> set (piece ty u v) \<Longrightarrow> v < 18446744073709551616 \<Longrightarrow> r_lo e = u \<and> r_hi e = v \<and> u < v \<and> me_type e = ty"
  by (auto simp: piece_def r_lo_def r_hi_def split: if_splits)

lemma regions_ok_piece [simp]: "v < 18446744073709551616 \<Longrightarrow> regions_ok (piece ty u v)"
  by (simp add: piece_def valid_extent_extent_of)

lemma covered_simps [simp]:
  "\<not> covered [] a"
  "covered (k # ks) a \<longleftrightarrow> lo k \<le> a \<and> a < hi k \<or> covered ks a"
  by (auto simp: covered_def addrs_def)

lemma covered_dropWhile:
  "areas_ok ks \<Longrightarrow> b \<le> a \<Longrightarrow> covered (dropWhile (\<lambda>k. hi k \<le> b) ks) a \<longleftrightarrow> covered ks a"
  by (induction ks) auto

lemma covered_below: "\<forall>k \<in> set ks. b \<le> lo k \<Longrightarrow> a < b \<Longrightarrow> \<not> covered ks a"
  by (force simp: covered_def addrs_def)

lemma regions_ok_valid: "regions_ok rs \<Longrightarrow> r \<in> set rs \<Longrightarrow> r_lo r < r_hi r \<and> r_hi r < 18446744073709551616"
  by (induction rs) (auto simp: r_lo_def r_hi_def valid_extent_def)

lemma has_type_ge: "\<forall>r \<in> set rs. b \<le> r_lo r \<Longrightarrow> has_type rs a t \<Longrightarrow> b \<le> a"
  by (force simp: has_type_def addrs_def r_lo_def)

text \<open>A marked map lies where the map lay.\<close>

lemma marked_ge:
  assumes "marked rs ks es" "\<forall>r \<in> set rs. b \<le> r_lo r" "e \<in> set es"
  shows "b \<le> r_lo e"
proof -
  have "regions_ok es" using assms(1) by (simp add: marked_def)
  then have "has_type es (r_lo e) (me_type e)"
    using regions_ok_valid [of es e] assms(3)
    by (auto simp: has_type_def addrs_def r_lo_def r_hi_def)
  then show ?thesis using assms has_type_ge by (fastforce simp: marked_def)
qed

lemma marked_Nil: "marked [] ks []"
  by (simp add: marked_def)

text \<open>A region kept as it is: not markable, or no area touches it.\<close>

lemma marked_keep:
  assumes m: "marked rs ks' es" and ok: "regions_ok (r # rs)"
    and same: "\<And>a. r_lo r \<le> a \<Longrightarrow> covered ks' a \<longleftrightarrow> covered ks a"
    and keep: "markable (me_type r) \<Longrightarrow> \<forall>a. r_lo r \<le> a \<and> a < r_hi r \<longrightarrow> \<not> covered ks a"
  shows "marked (r # rs) ks (r # es)"
proof -
  have r: "r_lo r < r_hi r" using regions_ok_valid [OF ok] by simp
  have ge: "has_type rs a t \<Longrightarrow> r_lo r \<le> a" for a t
    using has_type_ge [of rs "r_hi r" a t] ok r by simp
  have "regions_ok (r # es)" using marked_ge [OF m, of "r_hi r"] m ok by (simp add: marked_def)
  moreover have "has_type (r # es) a t \<longleftrightarrow> (\<exists>t0. has_type (r # rs) a t0 \<and> t = marked_type ks a t0)" for a t
    using m ge [of a] same [of a] keep by (auto simp: marked_def marked_type_def)
  ultimately show ?thesis by (simp add: marked_def)
qed

text \<open>A region cut at the borders of the first area that touches it.\<close>

lemma marked_cut:
  assumes ok: "regions_ok (r # rs)" and ty: "markable (me_type r)"
    and ks: "areas_ok (k # ks')" and cut: "r_lo r < hi k" "lo k < r_hi r"
    and same: "\<And>a. r_lo r \<le> a \<Longrightarrow> covered (k # ks') a \<longleftrightarrow> covered ks a"
    and m: "marked (piece (me_type r) (hi k) (r_hi r) @ rs) (k # ks') es"
  shows "marked (r # rs) ks (piece (me_type r) (r_lo r) (lo k)
    @ piece KernelLoad (max (r_lo r) (lo k)) (min (r_hi r) (hi k)) @ es)"
proof -
  have b: "r_lo r < r_hi r" "r_hi r < 18446744073709551616" "lo k < hi k" "hi k < 18446744073709551616"
    using regions_ok_valid [OF ok] ks by (auto simp: valid_extent_def)
  have ge: "has_type rs a t \<Longrightarrow> r_hi r \<le> a" for a t
    using has_type_ge [of rs "r_hi r" a t] ok by simp
  have "\<forall>x \<in> set (piece (me_type r) (hi k) (r_hi r) @ rs). min (r_hi r) (hi k) \<le> r_lo x"
    using ok b by (auto dest!: piece_mem)
  then have "\<forall>e \<in> set es. min (r_hi r) (hi k) \<le> r_lo e" using marked_ge [OF m] by blast
  then have "regions_ok (piece (me_type r) (r_lo r) (lo k)
      @ piece KernelLoad (max (r_lo r) (lo k)) (min (r_hi r) (hi k)) @ es)"
    using m b cut by (fastforce simp: marked_def regions_ok_append dest!: piece_mem)
  moreover have "has_type (piece (me_type r) (r_lo r) (lo k)
      @ piece KernelLoad (max (r_lo r) (lo k)) (min (r_hi r) (hi k)) @ es) a t
    \<longleftrightarrow> (\<exists>t0. has_type (r # rs) a t0 \<and> t = marked_type ks a t0)" for a t
  proof -
    have *: "has_type es a t \<longleftrightarrow> (\<exists>t0. (hi k \<le> a \<and> a < r_hi r \<and> t0 = me_type r \<or> has_type rs a t0)
        \<and> t = marked_type (k # ks') a t0)"
      using m b by (simp add: marked_def)
    have low: "a < hi k \<Longrightarrow> \<not> covered ks' a" using covered_below [of ks' "hi k" a] ks by simp
    consider "a < r_lo r" | "r_lo r \<le> a" "a < r_hi r" | "r_hi r \<le> a" by linarith
    then show ?thesis
    proof cases
      case 1
      then have "\<not> has_type rs a t0" for t0 using ge [of a t0] b by auto
      then show ?thesis unfolding has_type_simps * using 1 b cut by simp
    next
      case 2
      then have n: "\<not> has_type rs a t0" for t0 using ge [of a t0] by auto
      have s: "covered ks a \<longleftrightarrow> lo k \<le> a \<and> a < hi k \<or> covered ks' a" using same [of a] 2 by simp
      show ?thesis unfolding has_type_simps * using 2 n b cut low ty by (auto simp: marked_type_def s)
    next
      case 3
      then have "covered ks a \<longleftrightarrow> covered (k # ks') a" using same [of a] b by simp
      then show ?thesis unfolding has_type_simps * using 3 b cut by (simp add: marked_type_def)
    qed
  qed
  ultimately show ?thesis by (simp add: marked_def)
qed

text \<open>Every round makes progress: a region is done, or an area lies behind all regions from now on.\<close>

definition rounds_left :: "map_entry list \<Rightarrow> phys_extent list \<Rightarrow> nat" where
  "rounds_left rs ks = length rs + length (filter (\<lambda>k. \<exists>r \<in> set rs. r_lo r < hi k) ks)"

lemma rounds_left_le: "rounds_left rs ks \<le> length rs + length ks"
  unfolding rounds_left_def by simp

lemma filter_length_mono:
  "(\<And>x. x \<in> set xs \<Longrightarrow> P x \<Longrightarrow> Q x) \<Longrightarrow> length (filter P xs) \<le> length (filter Q xs)"
  by (induction xs) auto

lemma filter_dropWhile_le: "length (filter P (dropWhile Q xs)) \<le> length (filter P xs)"
  by (induction xs) auto

text \<open>The two outcomes of a round; in both the areas left are a suffix that agrees from \<open>r\<close> on.\<close>

lemma mark_round_cases:
  assumes ok: "regions_ok (r # rs)" "areas_ok ks" and rnd: "mark_round r rs ks = (es, rs', ks')"
  assumes keep: "es = [r] \<Longrightarrow> rs' = rs
      \<Longrightarrow> (markable (me_type r) \<Longrightarrow> \<forall>a. r_lo r \<le> a \<and> a < r_hi r \<longrightarrow> \<not> covered ks a) \<Longrightarrow> thesis"
    and cut: "\<And>k ks''. ks' = k # ks'' \<Longrightarrow> markable (me_type r) \<Longrightarrow> r_lo r < hi k \<Longrightarrow> lo k < r_hi r
      \<Longrightarrow> es = piece (me_type r) (r_lo r) (lo k) @ piece KernelLoad (max (r_lo r) (lo k)) (min (r_hi r) (hi k))
      \<Longrightarrow> rs' = piece (me_type r) (hi k) (r_hi r) @ rs \<Longrightarrow> thesis"
  shows thesis
proof (cases "markable (me_type r)")
  case False
  then show ?thesis using rnd keep by (simp add: mark_round_def)
next
  case True
  let ?dw = "dropWhile (\<lambda>k. hi k \<le> r_lo r) ks"
  have same: "r_lo r \<le> a \<Longrightarrow> covered ?dw a \<longleftrightarrow> covered ks a" for a
    by (rule covered_dropWhile [OF ok(2)])
  have dwok: "areas_ok ?dw" by (rule areas_ok_dropWhile [OF ok(2)])
  show ?thesis
  proof (cases ?dw)
    case Nil
    then have "r_lo r \<le> a \<Longrightarrow> \<not> covered ks a" for a using same [of a] by simp
    then show ?thesis using rnd True Nil by (intro keep) (auto simp: mark_round_def)
  next
    case (Cons k ks'')
    note live = dropWhile_hd [OF Cons]
    show ?thesis
    proof (cases "r_hi r \<le> lo k")
      case True
      have "\<forall>x \<in> set (k # ks''). r_hi r \<le> lo x"
        using dwok True Cons by (auto simp: valid_extent_def intro: order_trans)
      then have "r_lo r \<le> a \<Longrightarrow> a < r_hi r \<Longrightarrow> \<not> covered ks a" for a
        using covered_below [of "k # ks''" "r_hi r" a] same [of a] Cons by simp
      then show ?thesis using rnd \<open>markable (me_type r)\<close> True Cons by (intro keep) (auto simp: mark_round_def)
    next
      case False
      then show ?thesis using rnd True Cons live by (intro cut [of k ks'']) (auto simp: mark_round_def)
    qed
  qed
qed

lemma mark_round_areas:
  assumes "areas_ok ks" and "mark_round r rs ks = (es, rs', ks')"
  shows "areas_ok ks'" "length ks' \<le> length ks" "length (filter P ks') \<le> length (filter P ks)"
    "r_lo r \<le> a \<Longrightarrow> covered ks' a \<longleftrightarrow> covered ks a"
proof -
  have "ks' = ks \<or> ks' = dropWhile (\<lambda>k. hi k \<le> r_lo r) ks"
    using assms(2) by (auto simp: mark_round_def split: if_splits list.splits)
  then show "areas_ok ks'" "length ks' \<le> length ks" "length (filter P ks') \<le> length (filter P ks)"
    "r_lo r \<le> a \<Longrightarrow> covered ks' a \<longleftrightarrow> covered ks a"
    using assms(1) by (auto simp: areas_ok_dropWhile length_dropWhile_le filter_dropWhile_le covered_dropWhile)
qed

lemma mark_round_progress:
  assumes ok: "regions_ok (r # rs)" "areas_ok ks" and rnd: "mark_round r rs ks = (es, rs', ks')"
  shows "regions_ok rs' \<and> rounds_left rs' ks' < rounds_left (r # rs) ks"
proof (rule mark_round_cases [OF ok rnd])
  assume rs': "rs' = rs"
  have "length (filter (\<lambda>k. \<exists>r \<in> set rs. r_lo r < hi k) ks')
      \<le> length (filter (\<lambda>k. \<exists>r \<in> set (r # rs). r_lo r < hi k) ks')"
    by (rule filter_length_mono) auto
  also have "\<dots> \<le> length (filter (\<lambda>k. \<exists>r \<in> set (r # rs). r_lo r < hi k) ks)"
    by (rule mark_round_areas(3) [OF ok(2) rnd])
  finally show ?thesis using ok rs' by (simp add: rounds_left_def)
next
  fix k ks''
  assume cut: "ks' = k # ks''" "r_lo r < hi k" "lo k < r_hi r"
    "rs' = piece (me_type r) (hi k) (r_hi r) @ rs"
  have b: "r_hi r < 18446744073709551616" "r_lo r < r_hi r" using regions_ok_valid [OF ok(1)] by auto
  have part: "x \<in> set (piece (me_type r) (hi k) (r_hi r)) \<Longrightarrow>
      r_lo x = hi k \<and> r_hi x = r_hi r \<and> hi k < r_hi r" for x
    using b by (auto dest!: piece_mem)
  have "regions_ok rs'" using ok b cut(4) part by (auto simp: regions_ok_append)
  moreover have "rounds_left rs' ks' < rounds_left (r # rs) ks'"
  proof -
    have le: "length (filter (\<lambda>k. \<exists>x \<in> set rs'. r_lo x < hi k) ks'')
        \<le> length (filter (\<lambda>k. \<exists>x \<in> set (r # rs). r_lo x < hi k) ks'')"
      by (rule filter_length_mono) (use cut part in \<open>fastforce\<close>)
    show ?thesis
    proof (cases "hi k < r_hi r")
      case True
      then have "\<not> (\<exists>x \<in> set rs'. r_lo x < hi k)" using cut(4) ok part by (auto simp: not_less intro: order_trans less_imp_le)
      then show ?thesis using le True cut by (simp add: rounds_left_def piece_def)
    next
      case False
      then have "rs' = rs" using cut(4) by (simp add: piece_def)
      then show ?thesis using le cut by (simp add: rounds_left_def)
    qed
  qed
  ultimately show ?thesis using mark_round_areas(3) [OF ok(2) rnd]
    by (auto simp: rounds_left_def intro: less_le_trans)
qed

lemma mark_round_marked:
  assumes ok: "regions_ok (r # rs)" "areas_ok ks" and rnd: "mark_round r rs ks = (es, rs', ks')"
    and m: "marked rs' ks' es'"
  shows "marked (r # rs) ks (es @ es')"
proof (rule mark_round_cases [OF ok rnd])
  assume "es = [r]" "rs' = rs"
    "markable (me_type r) \<Longrightarrow> \<forall>a. r_lo r \<le> a \<and> a < r_hi r \<longrightarrow> \<not> covered ks a"
  then show ?thesis using marked_keep [OF _ ok(1), of ks' es' ks] m mark_round_areas(4) [OF ok(2) rnd]
    by simp
next
  fix k ks''
  assume "ks' = k # ks''" "markable (me_type r)" "r_lo r < hi k" "lo k < r_hi r"
    "es = piece (me_type r) (r_lo r) (lo k) @ piece KernelLoad (max (r_lo r) (lo k)) (min (r_hi r) (hi k))"
    "rs' = piece (me_type r) (hi k) (r_hi r) @ rs"
  then show ?thesis using marked_cut [OF ok(1), of k ks'' ks es'] m mark_round_areas [OF ok(2) rnd]
    by simp
qed

text \<open>All rounds: the entries that come out for the regions \<open>rs\<close> and the areas \<open>ks\<close>.\<close>

inductive mark_rounds :: "map_entry list \<Rightarrow> phys_extent list \<Rightarrow> map_entry list \<Rightarrow> bool" where
  rounds_done: "mark_rounds [] ks []"
| rounds_step: "mark_round r rs ks = (es, rs', ks') \<Longrightarrow> mark_rounds rs' ks' es' \<Longrightarrow> mark_rounds (r # rs) ks (es @ es')"

lemma marker_run_rounds:
  assumes R: "put_back_law (mk_r L) vr fr" and K: "put_back_law (mk_k L) vk fk"
    and V: "array_vec_law (mk_v L)"
  shows "views_as vr vk st rs ks \<Longrightarrow> regions_ok rs \<Longrightarrow> areas_ok ks \<Longrightarrow>
    rounds_left rs ks + length ks + 1 < fuel \<Longrightarrow> runs (marker_run L fuel st) (mark_rounds rs ks)"
proof (induction fuel arbitrary: st rs ks)
  case (Suc fuel)
  show ?case
  proof (cases rs)
    case Nil
    show ?thesis
    proof (cases rule: pb_next_cases [OF R, of "km_regions st"])
      case (1 s')
      then show ?thesis using Nil by (simp add: marker_next_def rounds_done)
    qed (use Nil Suc.prems(1) in \<open>simp add: views_as_def\<close>)
  next
    case (Cons r rs0)
    obtain es rs' ks' where rnd: "mark_round r rs0 ks = (es, rs', ks')" by (metis prod_cases3)
    have ok: "regions_ok (r # rs0)" using Suc.prems Cons by simp
    note progress = conjunct1 [OF mark_round_progress [OF ok Suc.prems(3) rnd]]
      mark_round_areas(1,2) [OF Suc.prems(3) rnd]
      conjunct2 [OF mark_round_progress [OF ok Suc.prems(3) rnd]]
    obtain v st' where n: "marker_next L fuel st = ret (Some v, st')" "av_items (mk_v L) v = es"
      "views_as vr vk st' rs' ks'"
      using marker_next_round [OF R K V, of st r rs0 ks fuel] Suc.prems Cons ok rnd by auto
    have "runs (marker_run L fuel st') (mark_rounds rs' ks')"
      using Suc.IH [OF n(3) progress(1,2)] Suc.prems(4) progress(3,4) Cons by simp
    then show ?thesis using n rounds_step [OF rnd] unfolding Cons by (auto simp: wp runs_iff)
  qed
qed simp

lemma mark_rounds_marked: "mark_rounds rs ks es \<Longrightarrow> regions_ok rs \<Longrightarrow> areas_ok ks \<Longrightarrow> marked rs ks es"
  by (induction rule: mark_rounds.induct)
    (use marked_Nil mark_round_marked mark_round_progress mark_round_areas(1) in blast)+

lemma mark_rounds_length:
  "mark_rounds rs ks es \<Longrightarrow> regions_ok rs \<Longrightarrow> areas_ok ks \<Longrightarrow> length es \<le> 2 * rounds_left rs ks"
proof (induction rule: mark_rounds.induct)
  case (rounds_step r rs ks es rs' ks' es')
  have "length es \<le> 2" using rounds_step(1) by (auto simp: mark_round_def piece_def split: if_splits list.splits)
  moreover have "length es' \<le> 2 * rounds_left rs' ks'" "rounds_left rs' ks' < rounds_left (r # rs) ks"
    using rounds_step.IH mark_round_progress [OF rounds_step.prems rounds_step(1)]
      mark_round_areas(1) [OF rounds_step.prems(2) rounds_step(1)] by auto
  ultimately show ?case by simp
qed simp

text \<open>A part of a region that no area touches stays in one entry.\<close>

lemma mark_rounds_keep:
  "mark_rounds rs ks es \<Longrightarrow> regions_ok rs \<Longrightarrow> areas_ok ks \<Longrightarrow> x \<in> set rs \<Longrightarrow> r_lo x \<le> u \<Longrightarrow> u < v \<Longrightarrow> v \<le> r_hi x
    \<Longrightarrow> \<forall>a \<in> {u..<v}. \<not> covered ks a \<Longrightarrow> \<exists>e \<in> set es. me_type e = me_type x \<and> r_lo e \<le> u \<and> v \<le> r_hi e"
proof (induction arbitrary: x rule: mark_rounds.induct)
  case (rounds_step r rs ks es rs' ks' es')
  note ok = rounds_step.prems(1,2) and uv = rounds_step.prems(4-6)
  have r: "r_lo r < r_hi r" "r_hi r < 18446744073709551616" using regions_ok_valid [OF ok(1)] by auto
  have ge: "r_lo r \<le> r_lo x" using rounds_step.prems(3) ok(1) r(1) by (auto intro: order_trans less_imp_le)
  have free: "\<forall>a \<in> {u..<v}. \<not> covered ks' a"
    using rounds_step.prems(7) mark_round_areas(4) [OF ok(2) rounds_step(1)] ge uv(1) by auto
  note later = rounds_step.IH [OF conjunct1 [OF mark_round_progress [OF ok rounds_step(1)]]
      mark_round_areas(1) [OF ok(2) rounds_step(1)] _ _ uv(2) _ free]
  show ?case
  proof (rule mark_round_cases [OF ok rounds_step(1)])
    assume "es = [r]" "rs' = rs"
    then show ?thesis using later [of x] uv rounds_step.prems(3) by auto
  next
    fix k ks''
    assume cut: "ks' = k # ks''" "lo k < r_hi r" "es = piece (me_type r) (r_lo r) (lo k) @ piece KernelLoad (max (r_lo r) (lo k)) (min (r_hi r) (hi k))"
      "rs' = piece (me_type r) (hi k) (r_hi r) @ rs"
    have k: "lo k < hi k" "lo k < 18446744073709551616" using mark_round_areas(1) [OF ok(2) rounds_step(1)] cut(1) by (auto simp: valid_extent_def)
    have "\<not> (lo k \<le> max u (lo k) \<and> max u (lo k) < hi k)" if "max u (lo k) < v"
      using free cut(1) that uv(2) by (auto simp: max_def split: if_splits)
    then have "v \<le> lo k \<or> hi k \<le> u" using k(1) uv(2) by (cases "max u (lo k) < v") (auto simp: max_def split: if_splits)
    then show ?thesis
    proof (cases "x = r")
      case True
      show ?thesis
      proof (cases "v \<le> lo k")
        case le: True
        have "r_lo r < lo k" using le uv True by simp
        let ?e = "\<lparr>me_extent = extent_of (r_lo r) (lo k - r_lo r), me_type = me_type r\<rparr>"
        have "?e \<in> set (piece (me_type r) (r_lo r) (lo k))" using \<open>r_lo r < lo k\<close> by (simp add: piece_def)
        from this piece_mem [OF this k(2)] show ?thesis using le uv True unfolding cut(3) by (intro bexI [of _ ?e]) auto
      next
        case False
        then have "hi k \<le> u" using \<open>v \<le> lo k \<or> hi k \<le> u\<close> by simp
        then show ?thesis
          using later [of "\<lparr>me_extent = extent_of (hi k) (r_hi r - hi k), me_type = me_type r\<rparr>"] uv True r(2)
          unfolding cut(4) by (auto simp: piece_def r_lo_def r_hi_def)
      qed
    next
      case False
      then show ?thesis using later [of x] uv rounds_step.prems(3) cut(4) by auto
    qed
  qed
qed simp

inductive_cases mark_rounds_NilE: "mark_rounds [] ks es"
inductive_cases mark_rounds_ConsE: "mark_rounds (r # rs) ks es"

lemma mark_rounds_det: "mark_rounds rs ks es \<Longrightarrow> mark_rounds rs ks es' \<Longrightarrow> es' = es"
proof (induction arbitrary: es' rule: mark_rounds.induct)
  case (rounds_step r rs ks es rs' ks' fs)
  from rounds_step.prems show ?case
    by (rule mark_rounds_ConsE) (use rounds_step.hyps(1) rounds_step.IH in auto)
qed (auto elim: mark_rounds_NilE)

text \<open>Every entry is a part of one region, with its type or marked.\<close>

lemma mark_rounds_from:
  "mark_rounds rs ks es \<Longrightarrow> regions_ok rs \<Longrightarrow> areas_ok ks \<Longrightarrow> e \<in> set es \<Longrightarrow>
    \<exists>r \<in> set rs. r_lo r \<le> r_lo e \<and> r_hi e \<le> r_hi r \<and> (me_type e = me_type r \<or> me_type e = KernelLoad)"
proof (induction arbitrary: e rule: mark_rounds.induct)
  case (rounds_step r rs ks es rs' ks' fs)
  note ok = rounds_step.prems(1,2)
  have r: "r_hi r < 18446744073709551616" "r_lo r < r_hi r" using regions_ok_valid [OF ok(1)] by auto
  have later: "e \<in> set fs \<Longrightarrow> \<exists>x \<in> set rs'. r_lo x \<le> r_lo e \<and> r_hi e \<le> r_hi x \<and> (me_type e = me_type x \<or> me_type e = KernelLoad)"
    using rounds_step.IH [of e] mark_round_progress [OF ok rounds_step.hyps(1)] mark_round_areas(1) [OF ok(2) rounds_step.hyps(1)] by blast
  show ?case
  proof (rule mark_round_cases [OF ok rounds_step.hyps(1)])
    assume "es = [r]" "rs' = rs"
    then show ?thesis using later rounds_step.prems(3) by auto
  next
    fix k ks''
    assume cut: "ks' = k # ks''" "r_lo r < hi k" "lo k < r_hi r"
      "es = piece (me_type r) (r_lo r) (lo k) @ piece KernelLoad (max (r_lo r) (lo k)) (min (r_hi r) (hi k))"
      "rs' = piece (me_type r) (hi k) (r_hi r) @ rs"
    have k: "lo k < 18446744073709551616" using r cut(3) by simp
    have m: "min (r_hi r) (hi k) < 18446744073709551616" using r(1) by simp
    have right: "\<exists>x \<in> set (r # rs). r_lo x \<le> r_lo y \<and> r_hi y \<le> r_hi x \<and> me_type x = me_type y" if "y \<in> set rs'" for y
      using that cut(2,5) by (auto dest!: piece_mem [OF _ r(1)] intro: less_imp_le)
    consider "e \<in> set (piece (me_type r) (r_lo r) (lo k))" | "e \<in> set (piece KernelLoad (max (r_lo r) (lo k)) (min (r_hi r) (hi k)))" | "e \<in> set fs"
      using rounds_step.prems(3) cut(4) by auto
    then show ?thesis
    proof cases
      case 1
      from piece_mem [OF this k] show ?thesis using cut(3) by auto
    next
      case 2
      from piece_mem [OF this m] show ?thesis by auto
    next
      case 3
      from later [OF this] obtain y where "y \<in> set rs'" "r_lo y \<le> r_lo e" "r_hi e \<le> r_hi y" "me_type e = me_type y \<or> me_type e = KernelLoad" by blast
      then show ?thesis using right [of y] by (metis order_trans)
    qed
  qed
qed simp

section \<open>The map as an array\<close>

lemma fill_entries_eq:
  "length entries < 2 ^ 64 \<Longrightarrow> n + length src \<le> length entries \<Longrightarrow>
   fill_entries entries (of_nat n) src
     = ret (take n entries @ src @ drop (n + length src) entries, of_nat (n + length src))"
proof (induction src arbitrary: entries n)
  case (Cons e src)
  have *: "unat (of_nat n :: u64) = n" using Cons.prems by (simp add: unat_of_nat_eq)
  have "u_add (of_nat n) 1 = ret (of_nat (Suc n) :: u64)"
    using Cons.prems by (simp add: u_add_Suc del: of_nat_Suc)
  then show ?case using Cons.prems Cons.IH [of "entries[n := e]" "Suc n"]
    by (simp add: * upd_conv_take_nth_drop take_Suc_conv_app_nth add.commute)
qed simp

lemma fill_entries_full:
  "length entries < 2 ^ 64 \<Longrightarrow> n \<le> length entries \<Longrightarrow> length entries < n + length src \<Longrightarrow>
   fill_entries entries (of_nat n) src = throw AssertFailed"
proof (induction src arbitrary: entries n)
  case (Cons e src)
  have *: "unat (of_nat n :: u64) = n" using Cons.prems by (simp add: unat_of_nat_eq)
  show ?case
  proof (cases "n < length entries")
    case True
    then have "u_add (of_nat n) 1 = ret (of_nat (Suc n) :: u64)"
      using Cons.prems by (simp add: u_add_Suc del: of_nat_Suc)
    then show ?thesis using Cons.prems Cons.IH [of "entries[n := e]" "Suc n"] True by (simp add: *)
  qed (simp add: *)
qed simp

lemma extent_from_raw_dummy: "extent_from_raw 0 1 = ret (extent_of 0 1)"
  by (simp add: extent_from_raw_def extent_new_eq extent_of_def nat_view lo_def ln_def)

abbreviation dummy_entry :: map_entry where
  "dummy_entry \<equiv> \<lparr>me_extent = extent_of 0 1, me_type = Reserved\<rparr>"

lemma from_entries_eq:
  "from_entries src = (if length src \<le> 128
     then ret \<lparr>mm_entries = src @ replicate (128 - length src) dummy_entry, mm_num_entries = of_nat (length src)\<rparr>
     else throw AssertFailed)"
  using fill_entries_eq [of "replicate 128 dummy_entry" 0 src]
    fill_entries_full [of "replicate 128 dummy_entry" 0 src]
  by (simp add: from_entries_def extent_from_raw_dummy)

lemma from_entries_store:
  assumes "from_entries src = ret m" "i < length src"
  shows "\<exists>m'. entries_mut_store m i e = ret m' \<and> from_entries (src[i := e]) = ret m'"
proof -
  have l: "length src \<le> 128" and m: "m = \<lparr>mm_entries = src @ replicate (128 - length src) dummy_entry, mm_num_entries = of_nat (length src)\<rparr>"
    using assms(1) by (auto simp: from_entries_eq split: if_splits)
  then show ?thesis using assms(2) by (simp add: entries_mut_store_def map_entries_def from_entries_eq unat_of_nat_eq)
qed

lemma from_entries_entries: "from_entries src = ret m \<Longrightarrow> map_entries m = ret src"
  by (auto simp: from_entries_eq map_entries_def unat_of_nat_eq split: if_splits)

text \<open>The whole frames of an entry.\<close>

definition whole_frames :: "map_entry \<Rightarrow> nat set" where
  "whole_frames e = {i. {4096 * i..<4096 * i + 4096} \<subseteq> addrs (me_extent e)}"

lemma iter_map_frames_entry:
  assumes "valid_extent (me_extent e)" "r_lo e + 4095 < 2 ^ 64"
  shows "\<exists>s. shrink_to_alignment (me_extent e) (len_raw PAGE_SIZE) = ret s \<and>
    (case s of None \<Rightarrow> whole_frames e = {}
     | Some x \<Rightarrow> runs (frame_containing_extent x) (\<lambda>r. wf_frame_range r \<and> range_frames r = whole_frames e
         \<and> whole_frames e \<noteq> {}))"
proof -
  let ?u = "round_up 4096 (r_lo e)" and ?d = "round_down 4096 (r_hi e)"
  have w: "whole_frames e = {?u div 4096..<r_hi e div 4096}"
    by (simp add: whole_frames_def frames_inside r_lo_def r_hi_def)
  have d: "?d div 4096 = r_hi e div 4096" by (simp add: round_down_def)
  have sh: "shrink_to_alignment (me_extent e) (len_raw PAGE_SIZE) = ret (span ?u ?d)"
    using shrink_to_alignment_eq [of "me_extent e" "len_raw PAGE_SIZE" 12] assms
    by (simp add: PAGE_SIZE_def r_lo_def r_hi_def)
  have hi: "r_hi e < 2 ^ 64" using assms(1) by (simp add: r_hi_def valid_extent_def)
  show ?thesis
  proof (cases "?u < ?d")
    case True
    obtain i j where ij: "?u = 4096 * i" "?d = 4096 * j" using round_up_dvd round_down_dvd by (metis dvdE)
    have lt: "?d < 2 ^ 64" using hi round_down_le [of 4096 "r_hi e"] by linarith
    let ?x = "extent_of ?u (?d - ?u) :: phys_extent"
    have x: "valid_extent ?x" "lo ?x = 4096 * i" "hi ?x = 4096 * j"
      using True lt ij by (auto simp: valid_extent_extent_of)
    have j: "(4096 * j - 1) div 4096 = j - 1" "i < j" "j < 2 ^ 52"
      using True ij lt by auto
    then have "frame_containing_extent ?x = ret (frame_range_at i (j - i))"
      using frame_containing_extent_eq [OF x(1)] x by (simp add: Suc_diff_Suc)
    moreover have "whole_frames e = {i..<j}" using w d ij by simp
    ultimately show ?thesis using True sh j
      by (simp add: span_def wf_frame_range_at range_frames_at)
  next
    case False
    then have "r_hi e div 4096 \<le> ?u div 4096" using div_le_mono [of ?d ?u 4096] d by simp
    then have "whole_frames e = {}" using w by simp
    then show ?thesis using False sh by (simp add: span_def)
  qed
qed

section \<open>Properties\<close>

lemma mark_kernel_areas_rounds:
  assumes "put_back_law (mk_r L) vr fr" "put_back_law (mk_k L) vk fk" "array_vec_law (mk_v L)"
    and "regions_ok regions" "areas_ok areas" "length regions + 2 * length areas + 1 < fuel"
  shows "runs (mark_kernel_areas L fuel regions areas) (mark_rounds regions areas)"
proof -
  let ?st = "\<lparr>km_regions = pb_make (mk_r L) regions, km_kernel_areas = pb_make (mk_k L) areas\<rparr>"
  have "views_as vr vk ?st regions areas" using assms by (simp add: views_as_def put_back_law_def)
  moreover have "rounds_left regions areas + length areas + 1 < fuel"
    using assms(6) rounds_left_le [of regions areas] by linarith
  ultimately show ?thesis
    unfolding mark_kernel_areas_def using marker_run_rounds [OF assms(1-3)] assms(4,5) by blast
qed

text \<open>
  C5. \<^verbatim>\<open>mark_kernel_areas\<close> on sorted, non-overlapping regions and areas, for every implementation
  of \<^verbatim>\<open>PutBack\<close> and \<^verbatim>\<open>ArrayVec\<close> that keeps its contract: the iteration ends after a bounded number of
  rounds without a panic, the result is again sorted and non-overlapping, an address has a type in
  it iff it had one in the input, and that type is \<^verbatim>\<open>KernelLoad\<close> where the address was available or
  ACPI memory inside a kernel area, and the old one everywhere else. A part of a region outside all
  areas is not split, and the number of entries is bounded by twice that of the regions and areas.
\<close>

theorem mark_kernel_areas_correct:
  assumes "put_back_law (mk_r L) vr fr" "put_back_law (mk_k L) vk fk" "array_vec_law (mk_v L)"
    and "regions_ok regions" "areas_ok areas" "length regions + 2 * length areas + 1 < fuel"
  shows "runs (mark_kernel_areas L fuel regions areas) (\<lambda>es. regions_ok es
    \<and> (\<forall>a t. has_type es a t \<longleftrightarrow>
        (\<exists>t0. has_type regions a t0
          \<and> t = (if markable t0 \<and> covered areas a then KernelLoad else t0)))
    \<and> (\<forall>r \<in> set regions. \<forall>u v. u < v \<and> {u..<v} \<subseteq> addrs (me_extent r) \<and> (\<forall>a \<in> {u..<v}. \<not> covered areas a)
        \<longrightarrow> (\<exists>e \<in> set es. me_type e = me_type r \<and> {u..<v} \<subseteq> addrs (me_extent e)))
    \<and> length es \<le> 2 * (length regions + length areas))"
proof -
  obtain es where es: "mark_kernel_areas L fuel regions areas = ret es" "mark_rounds regions areas es"
    using mark_kernel_areas_rounds [OF assms] by (auto simp: runs_iff)
  have "length es \<le> 2 * (length regions + length areas)"
    using mark_rounds_length [OF es(2) assms(4,5)] rounds_left_le by (rule order_trans [OF _ mult_le_mono2])
  moreover have "\<exists>e \<in> set es. me_type e = me_type r \<and> {u..<v} \<subseteq> addrs (me_extent e)"
    if "r \<in> set regions" "u < v" "{u..<v} \<subseteq> addrs (me_extent r)" "\<forall>a \<in> {u..<v}. \<not> covered areas a" for r u v
    using mark_rounds_keep [OF es(2) assms(4,5) that(1) _ that(2) _ that(4)] that(2,3)
    by (simp add: addrs_def r_lo_def r_hi_def)
  ultimately show ?thesis using mark_rounds_marked [OF es(2) assms(4,5)] es(1)
    by (simp add: marked_def marked_type_def)
qed

text \<open>An implementation of the two library types: a slot before a list, and a list of at most two.\<close>

definition slot_put_back :: "('a option \<times> 'a list, 'a) put_back_ops" where
  "slot_put_back = \<lparr>pb_make = (\<lambda>xs. (None, xs)),
     pb_next = (\<lambda>(top, xs). case top of Some x \<Rightarrow> (Some x, (None, xs))
       | None \<Rightarrow> (case xs of [] \<Rightarrow> (None, (None, [])) | x # xs \<Rightarrow> (Some x, (None, xs)))),
     pb_put_back = (\<lambda>(top, xs) x. (Some x, xs))\<rparr>"

definition slot_view :: "'a option \<times> 'a list \<Rightarrow> 'a list" where
  "slot_view s = (case fst s of None \<Rightarrow> [] | Some x \<Rightarrow> [x]) @ snd s"

definition list_vec2 :: "map_entry list array_vec_ops" where
  "list_vec2 = \<lparr>av_new = [], av_push = (\<lambda>v x. if length v < 2 then ret (v @ [x]) else throw Explicit),
     av_items = (\<lambda>v. v)\<rparr>"

lemma slot_put_back_law: "put_back_law slot_put_back slot_view (\<lambda>s. fst s = None)"
  by (auto simp: put_back_law_def slot_put_back_def slot_view_def split: option.splits list.splits)

lemma list_vec2_law: "array_vec_law list_vec2"
  by (simp add: array_vec_law_def list_vec2_def)

definition slot_ops ::
  "(map_entry option \<times> map_entry list, phys_extent option \<times> phys_extent list, map_entry list) marker_ops" where
  "slot_ops = \<lparr>mk_r = slot_put_back, mk_k = slot_put_back, mk_v = list_vec2\<rparr>"

lemma slot_ops_law: "marker_law slot_ops"
  by (simp add: marker_law_def slot_ops_def list_vec2_law) (intro conjI exI; rule slot_put_back_law)

theorem mark_kernel_areas_correct_witness:
  "runs (mark_kernel_areas slot_ops 8
      [\<lparr>me_extent = extent_of 0 100, me_type = Available\<rparr>, \<lparr>me_extent = extent_of 100 100, me_type = Reserved\<rparr>]
      [extent_of 25 50, extent_of 90 20]) (\<lambda>es. regions_ok es
    \<and> has_type es 30 KernelLoad \<and> has_type es 80 Available \<and> has_type es 100 Reserved \<and> length es \<le> 8
    \<and> (\<exists>e \<in> set es. me_type e = Available \<and> {75..<90} \<subseteq> addrs (me_extent e)))"
proof -
  let ?rs = "[\<lparr>me_extent = extent_of 0 100, me_type = Available\<rparr>, \<lparr>me_extent = extent_of 100 100, me_type = Reserved\<rparr>] :: map_entry list"
    and ?ks = "[extent_of 25 50, extent_of 90 20] :: phys_extent list"
  have ok: "regions_ok ?rs" "areas_ok ?ks" by (simp_all add: valid_extent_def r_hi_def r_lo_def)
  have laws: "put_back_law (mk_r slot_ops) slot_view (\<lambda>s. fst s = None)" "put_back_law (mk_k slot_ops) slot_view (\<lambda>s. fst s = None)"
    "array_vec_law (mk_v slot_ops)" by (simp_all add: slot_ops_def slot_put_back_law list_vec2_law)
  have t: "has_type ?rs 30 Available" "has_type ?rs 80 Available" "has_type ?rs 100 Reserved" "covered ?ks 30" "\<not> covered ?ks 80"
    by (simp_all add: r_hi_def r_lo_def)
  have part: "hd ?rs \<in> set ?rs" "{75..<90} \<subseteq> addrs (me_extent (hd ?rs))" "\<forall>a \<in> {75..<90}. \<not> covered ?ks a"
    by (simp_all add: addrs_def)
  have fuel: "length ?rs + 2 * length ?ks + 1 < 8" and lt: "(75 :: nat) < 90" by simp_all
  show ?thesis
  proof (rule runs_mono [OF mark_kernel_areas_correct [OF laws ok fuel]], elim conjE, intro conjI)
    fix es
    assume types: "\<forall>a t. has_type es a t \<longleftrightarrow> (\<exists>t0. has_type ?rs a t0 \<and> t = (if markable t0 \<and> covered ?ks a then KernelLoad else t0))"
      and keep: "\<forall>r \<in> set ?rs. \<forall>u v. u < v \<and> {u..<v} \<subseteq> addrs (me_extent r) \<and> (\<forall>a \<in> {u..<v}. \<not> covered ?ks a)
        \<longrightarrow> (\<exists>e \<in> set es. me_type e = me_type r \<and> {u..<v} \<subseteq> addrs (me_extent e))"
      and "length es \<le> 2 * (length ?rs + length ?ks)"
    have "markable Available" "\<not> markable Reserved" by (simp_all add: markable_def)
    then show "has_type es 30 KernelLoad" "has_type es 80 Available" "has_type es 100 Reserved"
      unfolding types [rule_format] using t by auto
    show "length es \<le> 8" using \<open>length es \<le> 2 * (length ?rs + length ?ks)\<close> by simp
    show "\<exists>e \<in> set es. me_type e = Available \<and> {75..<90} \<subseteq> addrs (me_extent e)"
      using keep [rule_format, of "hd ?rs" 75 90] part lt by (simp only: list.sel map_entry.select_convs simp_thms)
  qed simp_all
qed

text \<open>
  C27. \<^verbatim>\<open>Map::from_entries\<close> keeps up to 128 entries and \<^verbatim>\<open>entries\<close> gives them back unchanged; with
  more the assertion fails. \<^verbatim>\<open>iter_type\<close> however searches the whole array: for \<^verbatim>\<open>Reserved\<close> it also
  yields the unused dummy entries.
\<close>

theorem from_entries_roundtrip:
  "(if length src \<le> 128
    then runs (from_entries src) (\<lambda>m. map_entries m = ret src
      \<and> iter_type m t = filter (\<lambda>e. me_type e = t) src
          @ (if t = Reserved then replicate (128 - length src) dummy_entry else []))
    else from_entries src = throw AssertFailed)"
  by (simp add: from_entries_eq map_entries_def iter_type_def unat_of_nat_eq)

text \<open>
  C28. \<^verbatim>\<open>iter_map_frames\<close> yields, entry by entry and in order, exactly the frames that lie completely
  inside the entry, and nothing for an entry without such a frame.
\<close>

theorem iter_map_frames_correct:
  assumes "\<forall>e \<in> set es. valid_extent (me_extent e) \<and> lo (me_extent e) + 4095 < 2 ^ 64"
  shows "runs (iter_map_frames es) (\<lambda>rs. list_all wf_frame_range rs
    \<and> map range_frames rs = filter (\<lambda>F. F \<noteq> {}) (map whole_frames es))"
  using assms
proof (induction es)
  case (Cons e es)
  then obtain rs where rs: "iter_map_frames es = ret rs" "list_all wf_frame_range rs"
    "map range_frames rs = filter (\<lambda>F. F \<noteq> {}) (map whole_frames es)"
    by (auto simp: runs_iff)
  obtain s where "shrink_to_alignment (me_extent e) (len_raw PAGE_SIZE) = ret s"
    "case s of None \<Rightarrow> whole_frames e = {}
     | Some x \<Rightarrow> runs (frame_containing_extent x) (\<lambda>r. wf_frame_range r \<and> range_frames r = whole_frames e
         \<and> whole_frames e \<noteq> {})"
    using iter_map_frames_entry [of e] Cons.prems by (auto simp: r_lo_def)
  then show ?case using rs by (auto simp: runs_iff split: option.splits)
qed simp

theorem iter_map_frames_correct_witness:
  "runs (iter_map_frames [\<lparr>me_extent = extent_of 4095 8194, me_type = Available\<rparr>,
      \<lparr>me_extent = extent_of 20000 100, me_type = Available\<rparr>]) (\<lambda>rs. list_all wf_frame_range rs
    \<and> map range_frames rs = filter (\<lambda>F. F \<noteq> {}) (map whole_frames
        [\<lparr>me_extent = extent_of 4095 8194, me_type = Available\<rparr>,
         \<lparr>me_extent = extent_of 20000 100, me_type = Available\<rparr>]))"
  by (rule iter_map_frames_correct) (simp add: valid_extent_def)

end
