(* ===== verification/Frame_Alloc.thy ===== *)
theory Frame_Alloc
  imports Memory_Map
begin

text \<open>
  \<^verbatim>\<open>shared/src/memory/alloc/phys.rs\<close>: the bump allocator, the bitmap allocator and the contract
  of the \<^verbatim>\<open>FrameAllocator\<close> trait.

  A bitmap is a list of bytes. Slices are shorter than \<open>2 ^ 63\<close> bytes, so loop indices into them and
  their sums with a group length are natural numbers; an index that becomes an address is a word.
\<close>

section \<open>Model\<close>

datatype frame_reserve_error = FrameInUse

subsection \<open>The bump allocator\<close>

record bump_frame_allocator =
  remain :: "frame_range option"

definition bump_new :: "frame_range \<Rightarrow> bump_frame_allocator" where
  "bump_new frames = \<lparr>remain = Some frames\<rparr>"

text \<open>The two \<^verbatim>\<open>?\<close> leave the allocator as it was.\<close>

definition bump_allocate :: "bump_frame_allocator \<Rightarrow> (frame option \<times> bump_frame_allocator) rust" where
  "bump_allocate self =
     (case remain self of
        None \<Rightarrow> ret (None, self)
      | Some r \<Rightarrow>
          bnd (frame_next (fr_first r) 1) (\<lambda>n.
          case n of
            None \<Rightarrow> ret (None, self)
          | Some next_frame \<Rightarrow>
              bnd (u_sub (fr_count r) 1) (\<lambda>c.
              bnd (frame_range_new next_frame c) (\<lambda>r'.
              ret (Some (fr_first r), self\<lparr>remain := r'\<rparr>)))))"

definition bump_unwrap :: "bump_frame_allocator \<Rightarrow> frame_range option" where
  "bump_unwrap self = remain self"

subsection \<open>Bit groups\<close>

text \<open>\<^verbatim>\<open>usize::is_power_of_two\<close>: exactly one bit is set.\<close>

definition is_power_of_two :: "usize \<Rightarrow> bool" where
  "is_power_of_two x \<longleftrightarrow> length (filter (bit x) [0..<64]) = 1"

text \<open>The \<^verbatim>\<open>while\<close> loop. With a step of zero it would repeat itself for ever.\<close>

function find_bit_loop :: "u8 \<Rightarrow> u8 \<Rightarrow> u8 \<Rightarrow> u8 \<Rightarrow> u8 option rust" where
  "find_bit_loop byte mk len shift =
     (if shift < 8 then
        bnd (u_shl mk (unat shift)) (\<lambda>m.
        bnd (u_shr (byte AND m) (unat shift)) (\<lambda>x.
        if x = mk then ret (Some shift)
        else if len = 0 then throw Diverges
        else bnd (u_add shift len) (\<lambda>shift'. find_bit_loop byte mk len shift')))
      else ret None)"
  by pat_completeness auto
termination
  by (relation "measure (\<lambda>(b, m, l, s). 256 - unat s)")
    (auto simp: rust_iff unat_gt_0 intro!: diff_less_mono2)

declare find_bit_loop.simps [simp del]

definition find_bit_group :: "u8 \<Rightarrow> usize \<Rightarrow> u8 option rust" where
  "find_bit_group byte len =
     bnd (rassert (len < 8)) (\<lambda>_.
     bnd (rassert (is_power_of_two len)) (\<lambda>_.
     bnd (u_shl len 1) (\<lambda>l2.
     bnd (u_sub l2 1) (\<lambda>m.
     find_bit_loop byte (ucast m) (ucast len) 0))))"

subsection \<open>The bitmap allocator\<close>

record bitmap_allocator =
  bitmap :: "u8 list"

definition bitmap_new :: "u8 list \<Rightarrow> bitmap_allocator" where
  "bitmap_new bm = \<lparr>bitmap = bm\<rparr>"

definition offsets_to_frame :: "usize \<Rightarrow> u32 \<Rightarrow> frame rust" where
  "offsets_to_frame byte_offset bit_offset =
     bnd (u_mul byte_offset (len_raw PAGE_SIZE)) (\<lambda>a.
     bnd (u_mul a 8) (\<lambda>b.
     bnd (u_mul (ucast bit_offset) (len_raw PAGE_SIZE)) (\<lambda>c.
     bnd (u_add b c) (\<lambda>d.
     frame_new (Address d)))))"

definition frame_to_offsets :: "frame \<Rightarrow> (usize \<times> u32) rust" where
  "frame_to_offsets f =
     (let a = addr_raw (frame_start f) in
     bnd (u_div a (len_raw PAGE_SIZE)) (\<lambda>n.
     bnd (u_div n 8) (\<lambda>byte_offset.
     bnd (u_rem n 8) (\<lambda>bit_offset.
     ret (byte_offset, ucast bit_offset)))))"

definition search_from_offset :: "bitmap_allocator \<Rightarrow> usize \<Rightarrow> nat option" where
  "search_from_offset self offset =
     find (\<lambda>i. bitmap self ! i > 0) [unat offset..<length (bitmap self)]"

text \<open>\<^verbatim>\<open>deallocate_impl\<close> and \<^verbatim>\<open>unreserve_impl\<close> have the same body.\<close>

definition deallocate_impl :: "bitmap_allocator \<Rightarrow> frame \<Rightarrow> bitmap_allocator rust" where
  "deallocate_impl self f =
     bnd (frame_to_offsets f) (\<lambda>(byte_offset, bit_offset).
     bnd (u_shl 1 (unat bit_offset)) (\<lambda>m.
     bnd (index (bitmap self) (unat byte_offset)) (\<lambda>b.
     bnd (rassert (b AND m = 0)) (\<lambda>_.
     bnd (store (bitmap self) (unat byte_offset) (b OR m)) (\<lambda>bm.
     ret (self\<lparr>bitmap := bm\<rparr>))))))"

definition unreserve_impl :: "bitmap_allocator \<Rightarrow> frame \<Rightarrow> bitmap_allocator rust" where
  "unreserve_impl self f =
     bnd (frame_to_offsets f) (\<lambda>(byte_offset, bit_offset).
     bnd (u_shl 1 (unat bit_offset)) (\<lambda>m.
     bnd (index (bitmap self) (unat byte_offset)) (\<lambda>b.
     bnd (rassert (b AND m = 0)) (\<lambda>_.
     bnd (store (bitmap self) (unat byte_offset) (b OR m)) (\<lambda>bm.
     ret (self\<lparr>bitmap := bm\<rparr>))))))"

definition add_new_frame :: "bitmap_allocator \<Rightarrow> frame \<Rightarrow> bitmap_allocator rust" where
  "add_new_frame self f = unreserve_impl self f"

text \<open>The loop of \<^verbatim>\<open>allocate_range\<close> for fewer than eight frames, over the indices still to visit.\<close>

fun alloc_small :: "usize \<Rightarrow> nat list \<Rightarrow> u8 list \<Rightarrow> (frame_range option \<times> u8 list) rust" where
  "alloc_small sz [] bm = ret (None, bm)"
| "alloc_small sz (i # is) bm =
     bnd (index bm i) (\<lambda>byte.
     if byte = 0 then alloc_small sz is bm
     else
       bnd (find_bit_group byte sz) (\<lambda>g.
       case g of
         None \<Rightarrow> alloc_small sz is bm
       | Some boff \<Rightarrow>
           bnd (u_shl (1 :: u32) (unat sz)) (\<lambda>s.
           bnd (u_sub s 1) (\<lambda>t.
           bnd (try_into t) (\<lambda>mk :: u8.
           bnd (u_shl mk (unat boff)) (\<lambda>sh.
           bnd (store bm i (byte AND NOT sh)) (\<lambda>bm'.
           bnd (offsets_to_frame (of_nat i) (ucast boff)) (\<lambda>f.
           bnd (frame_range_new f sz) (\<lambda>r.
           ret (r, bm'))))))))))"

text \<open>The two inner loops over a group of bytes.\<close>

fun all_max :: "nat list \<Rightarrow> u8 list \<Rightarrow> bool rust" where
  "all_max [] bm = ret True"
| "all_max (j # js) bm = bnd (index bm j) (\<lambda>b. if b \<noteq> u8_MAX then ret False else all_max js bm)"

fun fill_bytes :: "u8 \<Rightarrow> nat list \<Rightarrow> u8 list \<Rightarrow> u8 list rust" where
  "fill_bytes v [] bm = ret bm"
| "fill_bytes v (j # js) bm = bnd (store bm j v) (fill_bytes v js)"

text \<open>The loop for eight frames and more, over the group starts still to visit.\<close>

fun alloc_large :: "usize \<Rightarrow> nat \<Rightarrow> nat list \<Rightarrow> u8 list \<Rightarrow> (frame_range option \<times> u8 list) rust" where
  "alloc_large sz byte_len [] bm = throw Unreachable"
| "alloc_large sz byte_len (i # is) bm =
     (if i + byte_len > length bm then ret (None, bm)
      else
        bnd (all_max [i..<i + byte_len] bm) (\<lambda>b.
        if \<not> b then alloc_large sz byte_len is bm
        else
          bnd (fill_bytes 0 [i..<i + byte_len] bm) (\<lambda>bm'.
          bnd (offsets_to_frame (of_nat i) 0) (\<lambda>f.
          bnd (frame_range_new f sz) (\<lambda>r.
          ret (r, bm'))))))"

definition allocate_range ::
  "bitmap_allocator \<Rightarrow> usize \<Rightarrow> (frame_range option \<times> bitmap_allocator) rust" where
  "allocate_range self order =
     bnd (rassert (order \<le> 24)) (\<lambda>_.
     bnd (u_shl 1 (unat order)) (\<lambda>sz.
     bnd (if sz < 8 then alloc_small sz [0..<length (bitmap self)] (bitmap self)
       else
         bnd (rassert (sz \<ge> 8)) (\<lambda>_.
         bnd (u_div sz 8) (\<lambda>byte_len.
         bnd (step_by 0 (length (bitmap self)) (unat byte_len)) (\<lambda>is.
         alloc_large sz (unat byte_len) is (bitmap self))))) (\<lambda>(r, bm).
     ret (r, self\<lparr>bitmap := bm\<rparr>))))"

text \<open>The trait's default methods and the methods of the allocator.\<close>

definition allocate :: "bitmap_allocator \<Rightarrow> (frame option \<times> bitmap_allocator) rust" where
  "allocate self =
     bnd (allocate_range self 0) (\<lambda>(r, self'). ret (map_option fr_first r, self'))"

definition deallocate :: "bitmap_allocator \<Rightarrow> frame \<Rightarrow> bitmap_allocator rust" where
  "deallocate self f = deallocate_impl self f"

fun deallocate_all :: "bitmap_allocator \<Rightarrow> frame list \<Rightarrow> bitmap_allocator rust" where
  "deallocate_all self [] = ret self"
| "deallocate_all self (f # fs) = bnd (deallocate self f) (\<lambda>self'. deallocate_all self' fs)"

definition deallocate_range :: "bitmap_allocator \<Rightarrow> frame_range \<Rightarrow> bitmap_allocator rust" where
  "deallocate_range self r = bnd (frame_range_iter r) (deallocate_all self)"

definition reserve ::
  "bitmap_allocator \<Rightarrow> frame \<Rightarrow> ((frame_reserve_error + unit) \<times> bitmap_allocator) rust" where
  "reserve self f =
     bnd (frame_to_offsets f) (\<lambda>(byte_offset, bit_offset).
     bnd (u_shl 1 (unat bit_offset)) (\<lambda>m.
     if unat byte_offset < length (bitmap self) then
       let b = bitmap self ! unat byte_offset in
       if \<not> b AND m > 0 then ret (Inl FrameInUse, self)
       else ret (Inr (), self\<lparr>bitmap := (bitmap self)[unat byte_offset := b AND NOT m]\<rparr>)
     else throw Explicit))"

definition unreserve :: "bitmap_allocator \<Rightarrow> frame \<Rightarrow> bitmap_allocator rust" where
  "unreserve self f = unreserve_impl self f"

section \<open>Bits\<close>

lemma mask_test:
  fixes b :: "'a::len word"
  shows "drop_bit s (b AND push_bit s (mask w)) = mask w \<longleftrightarrow> (\<forall>k < w. k < LENGTH('a) \<longrightarrow> s + k < LENGTH('a) \<and> bit b (s + k))"
  by (auto simp: bit_eq_iff bit_simps)

lemma filter_dvd_upt:
  assumes "0 < d" "d dvd s" "s < n"
  shows "filter (\<lambda>x. d dvd x) [s..<n] = s # filter (\<lambda>x. d dvd x) [s + d..<n]"
proof -
  have none: "filter (\<lambda>x. d dvd x) [Suc s..<m] = []" if "m \<le> s + d" for m
    using assms(2) that by (fastforce simp: filter_empty_conv dest: dvd_gap [of d _ s])
  have "filter (\<lambda>x. d dvd x) [Suc s..<n] = filter (\<lambda>x. d dvd x) [s + d..<n]"
  proof (cases "s + d \<le> n")
    case True
    then have "[Suc s..<n] = [Suc s..<s + d] @ [s + d..<n]"
      using assms(1) upt_add_eq_append [of "Suc s" "s + d" "n - (s + d)"] by simp
    then show ?thesis using none [of "s + d"] by simp
  next
    case False
    then show ?thesis using none [of n] by simp
  qed
  then show ?thesis using assms by (simp add: upt_conv_Cons)
qed

definition group_at :: "u8 \<Rightarrow> nat \<Rightarrow> nat \<Rightarrow> bool" where
  "group_at byte w s \<longleftrightarrow> (\<forall>k < w. bit byte (s + k))"

lemma find_bit_loop_eq:
  assumes d: "0 < d" "d \<le> 8" "w \<le> d" "d dvd 8"
  shows "d dvd s \<Longrightarrow> s \<le> 8 \<Longrightarrow> find_bit_loop byte (mask w) (of_nat d) (of_nat s)
    = ret (map_option of_nat (find (group_at byte w) (filter (\<lambda>x. d dvd x) [s..<8])))"
proof (induction "8 - s" arbitrary: s rule: less_induct)
  case less
  have us: "unat (of_nat s :: u8) = s" using less.prems by (simp add: unat_of_nat_eq)
  have ud: "(of_nat d :: u8) \<noteq> 0" using d by (simp add: word_unat_eq_iff unat_of_nat_eq)
  show ?case
  proof (cases "s < 8")
    case True
    have le: "s + d \<le> 8" using True less.prems(1) d by (metis dvd_add dvd_gap dvd_refl add_le_cancel_right less_or_eq_imp_le nat_less_le not_le)
    have lt: "(of_nat s :: u8) < 8" using True by (simp add: word_less_nat_alt us)
    have test: "drop_bit s (byte AND push_bit s (mask w)) = mask w \<longleftrightarrow> group_at byte w s"
      unfolding mask_test group_at_def using d le by auto
    have "u_add (of_nat s) (of_nat d) = ret (of_nat (s + d) :: u8)"
      using le by (intro u_add_of_nat) simp
    then show ?thesis
      using less.hyps [of "s + d"] less.prems True d le lt
      by (subst find_bit_loop.simps)
        (simp add: us ud u_shl_def u_shr_def test filter_dvd_upt del: of_nat_add drop_bit_and)
  next
    case False
    then have "\<not> (of_nat s :: u8) < 8" by (simp add: word_less_nat_alt us)
    then show ?thesis using False by (subst find_bit_loop.simps) simp
  qed
qed

text \<open>
  The mask of \<^verbatim>\<open>find_bit_group\<close> has \<open>order + 1\<close> bits: enough for one and two frames, one too few for
  four.
\<close>

definition probed_bits :: "nat \<Rightarrow> nat" where
  "probed_bits ord = Suc ord"

lemma is_power_of_two_pow: "n < 64 \<Longrightarrow> is_power_of_two (2 ^ n)"
proof -
  assume "n < 64"
  then have "filter (bit (2 ^ n :: usize)) [0..<64] = filter (\<lambda>i. i = n) [0..<64]"
    by (intro filter_cong) (auto simp: bit_exp_iff possible_bit_word)
  moreover have "length (filter (\<lambda>i. i = n) [0..<64]) = 1"
    using \<open>n < 64\<close> by (subst distinct_length_filter) auto
  ultimately show ?thesis by (simp add: is_power_of_two_def)
qed

lemma order_cases: "ord < 3 \<Longrightarrow> (ord = 0 \<Longrightarrow> P) \<Longrightarrow> (ord = 1 \<Longrightarrow> P) \<Longrightarrow> (ord = 2 \<Longrightarrow> P) \<Longrightarrow> P" for ord :: nat
  by arith

lemma find_bit_group_eq:
  assumes "ord < 3"
  shows "find_bit_group byte (2 ^ ord)
    = ret (map_option of_nat (find (group_at byte (probed_bits ord)) (filter (\<lambda>x. 2 ^ ord dvd x) [0..<8])))"
proof -
  let ?m = "probed_bits ord"
  have "u_shl (2 ^ ord :: usize) 1 = ret (2 ^ ?m)" "u_sub (2 ^ ?m :: usize) 1 = ret (mask ?m)"
    "ucast (mask ?m :: usize) = (mask ?m :: u8)" "ucast (2 ^ ord :: usize) = (of_nat (2 ^ ord) :: u8)"
    "(2 ^ ord :: usize) < 8"
    by (rule order_cases [OF assms]; simp add: u_shl_def probed_bits_def u_sub_def checked_sub_def
        mask_eq_exp_minus_1)+
  moreover have "find_bit_loop byte (mask ?m) (of_nat (2 ^ ord)) (of_nat 0)
    = ret (map_option of_nat (find (group_at byte ?m) (filter (\<lambda>x. 2 ^ ord dvd x) [0..<8])))"
    by (intro find_bit_loop_eq; rule order_cases [OF assms]; simp add: probed_bits_def)
  ultimately show ?thesis using is_power_of_two_pow [of ord] assms
    by (simp add: find_bit_group_def)
qed

section \<open>The bitmap as a set of frame numbers\<close>

definition free_bits :: "u8 list \<Rightarrow> nat set" where
  "free_bits bm = {n. n < 8 * length bm \<and> bit (bm ! (n div 8)) (n mod 8)}"

lemma free_bits_update:
  "i < length bm \<Longrightarrow> n \<in> free_bits (bm[i := b]) \<longleftrightarrow>
    (if n div 8 = i then bit b (n mod 8) else n \<in> free_bits bm)"
  by (auto simp: free_bits_def nth_list_update)

lemma free_bits_mem:
  "n div 8 < length bm \<Longrightarrow> n \<in> free_bits bm \<longleftrightarrow> bit (bm ! (n div 8)) (n mod 8)"
  by (auto simp: free_bits_def)

lemma bit_u8_less: "bit (b :: u8) k \<Longrightarrow> k < 8"
  using bit_imp_le_length [of b k] by simp

lemma offsets_to_frame_eq:
  assumes "8 * i + k < 2 ^ 52" "k < 8" "unat bo = k"
  shows "offsets_to_frame (of_nat i) bo = ret (frame_at (8 * i + k))"
proof -
  have c: "unat (ucast bo :: u64) = k" using assms(2,3) by (simp add: unsigned_ucast_eq take_bit_nat_eq_self_iff)
  have i: "i < 2 ^ 64" using assms(1) by simp
  have bo: "(ucast bo :: u64) = of_nat k" using c assms(2) by (intro unat_eqI) (simp add: unat_of_nat_eq)
  have "u_mul (of_nat i) 4096 = ret (of_nat (i * 4096) :: u64)"
    "u_mul (of_nat (i * 4096)) 8 = ret (of_nat (i * 4096 * 8) :: u64)"
    "u_mul (of_nat k) 4096 = ret (of_nat (k * 4096) :: u64)"
    using assms i by (intro u_mul_of_nat; simp)+
  moreover have "u_add (of_nat (i * 4096 * 8)) (of_nat (k * 4096))
      = ret (of_nat (i * 4096 * 8 + k * 4096) :: u64)"
    by (rule u_add_of_nat) (use assms in simp)
  moreover have "frame_new (Address (of_nat (i * 4096 * 8 + k * 4096))) = ret (frame_at (8 * i + k))"
  proof -
    have "a_nat (Address (of_nat (i * 4096 * 8 + k * 4096)) :: phys_address) = 4096 * (8 * i + k)"
      using assms by (simp add: a_nat_def unat_of_nat_eq del: of_nat_add of_nat_mult)
    then show ?thesis by (simp add: frame_new_eq)
  qed
  ultimately show ?thesis
    by (simp add: offsets_to_frame_def PAGE_SIZE_def bo del: of_nat_mult of_nat_add)
qed

lemma unat_numeral_8: "unat (8 :: u64) = 8"
  by simp

lemma byte_offset_eq: "unat (of_nat (fidx f div 8) :: u64) = fidx f div 8"
proof (rule unat_of_nat_eq)
  show "fidx f div 8 < 2 ^ LENGTH(64)" using fidx_less [of f] div_le_dividend [of "fidx f" 8] by simp
qed

lemma frame_to_offsets_eq:
  "frame_to_offsets f = ret (of_nat (fidx f div 8), of_nat (fidx f mod 8))"
proof -
  let ?n = "addr_raw (frame_start f) div 4096"
  have n: "unat ?n = fidx f" by (simp only: fidx_def a_nat_def unat_div) simp
  have "?n div 8 = of_nat (fidx f div 8)"
    by (rule unat_eqI) (simp only: unat_div [of ?n 8] n byte_offset_eq unat_numeral_8)
  moreover have "?n mod 8 = of_nat (fidx f mod 8)"
    by (rule unat_eqI) (simp only: unat_mod [of ?n 8] n unat_numeral_8, simp add: unat_of_nat_eq)
  moreover have "ucast (of_nat (fidx f mod 8) :: u64) = (of_nat (fidx f mod 8) :: u32)"
    by (simp add: word_unat_eq_iff unsigned_ucast_eq unat_of_nat_eq take_bit_nat_eq_self_iff)
  ultimately show ?thesis
    by (simp add: frame_to_offsets_def u_div_def u_rem_def PAGE_SIZE_def Let_def)
qed

lemma bit_offset_eq: "unat (of_nat (n mod 8) :: u32) = n mod 8"
  by (simp add: unat_of_nat_eq)

lemma and_bit_eq_0: "k < LENGTH('a) \<Longrightarrow> b AND 2 ^ k = 0 \<longleftrightarrow> \<not> bit (b :: 'a::len word) k"
  using bit_eq_iff [of "b AND 2 ^ k" 0] by (auto simp: bit_simps)

text \<open>Setting and clearing the bit of a frame.\<close>

lemma mem_single_frame: "m div 8 = n div 8 \<Longrightarrow> m = n \<longleftrightarrow> m mod 8 = n mod (8 :: nat)"
  by (metis div_mult_mod_eq)

lemma free_bits_set:
  "n div 8 < length bm \<Longrightarrow>
   free_bits (bm[n div 8 := bm ! (n div 8) OR push_bit (n mod 8) 1]) = insert n (free_bits bm)"
proof (rule set_eqI)
  fix m
  assume *: "n div 8 < length bm"
  show "m \<in> free_bits (bm[n div 8 := bm ! (n div 8) OR push_bit (n mod 8) 1])
      \<longleftrightarrow> m \<in> insert n (free_bits bm)"
  proof (cases "m div 8 = n div 8")
    case True
    then show ?thesis using * mem_single_frame [OF True] by (auto simp: free_bits_update free_bits_mem bit_simps)
  next
    case False
    then show ?thesis using * by (auto simp: free_bits_update)
  qed
qed

lemma free_bits_clear:
  "n div 8 < length bm \<Longrightarrow>
   free_bits (bm[n div 8 := bm ! (n div 8) AND NOT (push_bit (n mod 8) 1)]) = free_bits bm - {n}"
proof (rule set_eqI)
  fix m
  assume *: "n div 8 < length bm"
  show "m \<in> free_bits (bm[n div 8 := bm ! (n div 8) AND NOT (push_bit (n mod 8) 1)])
      \<longleftrightarrow> m \<in> free_bits bm - {n}"
  proof (cases "m div 8 = n div 8")
    case True
    then show ?thesis using * mem_single_frame [OF True] by (auto simp: free_bits_update free_bits_mem bit_simps)
  next
    case False
    then show ?thesis using * by (auto simp: free_bits_update)
  qed
qed

lemma free_bits_clear_group:
  assumes "i < length bm" "s + w \<le> 8"
  shows "free_bits (bm[i := bm ! i AND NOT (push_bit s (mask w))])
    = free_bits bm - {8 * i + s..<8 * i + s + w}"
proof (rule set_eqI)
  fix m
  show "m \<in> free_bits (bm[i := bm ! i AND NOT (push_bit s (mask w))])
      \<longleftrightarrow> m \<in> free_bits bm - {8 * i + s..<8 * i + s + w}"
  proof (cases "m div 8 = i")
    case True
    have "m = 8 * i + m mod 8" using True by auto
    then have "m \<in> {8 * i + s..<8 * i + s + w} \<longleftrightarrow> s \<le> m mod 8 \<and> m mod 8 < s + w" by auto
    then show ?thesis using True assms by (auto simp: free_bits_update free_bits_mem bit_simps)
  next
    case False
    have "m div 8 = i" if "m \<in> {8 * i + s..<8 * i + s + w}" using that assms(2) by auto
    then show ?thesis using False assms(1) by (auto simp: free_bits_update)
  qed
qed

section \<open>The allocation loops\<close>

lemma small_mask:
  assumes "ord < 3"
  shows "bnd (u_shl (1 :: u32) (unat (2 ^ ord :: usize))) (\<lambda>x. bnd (u_sub x 1) try_into)
    = ret (mask (2 ^ ord) :: u8)"
  by (rule order_cases [OF assms]) (simp_all add: u_shl_def u_sub_def checked_sub_def try_into_def
      mask_eq_exp_minus_1)

lemma find_Some_elem: "find P xs = Some x \<Longrightarrow> x \<in> set xs \<and> P x"
  by (auto simp: find_Some_iff)

definition small_result ::
  "nat \<Rightarrow> nat list \<Rightarrow> u8 list \<Rightarrow> frame_range option \<times> u8 list \<Rightarrow> bool" where
  "small_result ord is bm = (\<lambda>(r, bm'). case r of
     None \<Rightarrow> bm' = bm \<and> (\<forall>i \<in> set is. \<forall>s < 8. 2 ^ ord dvd s \<longrightarrow> \<not> group_at (bm ! i) (probed_bits ord) s)
   | Some fr \<Rightarrow> \<exists>i \<in> set is. \<exists>s. s + 2 ^ ord \<le> 8 \<and> 2 ^ ord dvd s
       \<and> group_at (bm ! i) (probed_bits ord) s \<and> fr = frame_range_at (8 * i + s) (2 ^ ord)
       \<and> bm' = bm[i := bm ! i AND NOT (push_bit s (mask (2 ^ ord)))])"

lemma group_fits: "ord < 3 \<Longrightarrow> 2 ^ ord dvd s \<Longrightarrow> s < 8 \<Longrightarrow> s + 2 ^ ord \<le> (8 :: nat)"
  by (erule order_cases) (auto elim!: dvdE)

lemma u_shl_u8: "s < 8 \<Longrightarrow> u_shl (x :: u8) s = ret (push_bit s x)"
  by (simp add: u_shl_def)

lemma small_result_Cons:
  assumes "small_result ord is bm x" "\<forall>s < 8. 2 ^ ord dvd s \<longrightarrow> \<not> group_at (bm ! i) (probed_bits ord) s"
  shows "small_result ord (i # is) bm x"
proof (cases "fst x")
  case None
  then show ?thesis using assms by (simp add: small_result_def case_prod_beta)
next
  case (Some fr)
  then show ?thesis using assms(1)
    unfolding small_result_def case_prod_beta Some option.case by (meson list.set_intros(2))
qed

lemma alloc_small_correct:
  assumes ord: "ord < 3" and len: "8 * length bm \<le> 2 ^ 52"
  shows "set is \<subseteq> {..<length bm} \<Longrightarrow> runs (alloc_small (2 ^ ord) is bm) (small_result ord is bm)"
proof (induction "is")
  case (Cons i "is")
  let ?g = "find (group_at (bm ! i) (probed_bits ord)) (filter (\<lambda>x. 2 ^ ord dvd x) [0..<8])"
  have skip: "runs (alloc_small (2 ^ ord) is bm) (small_result ord (i # is) bm)" if "?g = None"
  proof -
    have "runs (alloc_small (2 ^ ord) is bm) (small_result ord is bm)" using Cons by simp
    then show ?thesis
      by (rule runs_mono) (rule small_result_Cons, use that in \<open>auto simp: find_None_iff\<close>)
  qed
  show ?case
  proof (cases ?g)
    case None
    then show ?thesis using skip Cons.prems by (simp add: find_bit_group_eq [OF ord])
  next
    case (Some s)
    then have s: "s < 8" "2 ^ ord dvd s" "group_at (bm ! i) (probed_bits ord) s"
      by (auto dest!: find_Some_elem)
    have fit: "s + 2 ^ ord \<le> 8" by (rule group_fits [OF ord s(2,1)])
    have nz: "bm ! i \<noteq> 0" using s(3) by (auto simp: group_at_def probed_bits_def)
    have us: "unat (of_nat s :: u8) = s" using s by (simp add: unat_of_nat_eq)
    have i: "i < length bm" using Cons.prems by simp
    have "offsets_to_frame (of_nat i) (ucast (of_nat s :: u8)) = ret (frame_at (8 * i + s))"
      using i len s by (intro offsets_to_frame_eq)
        (auto simp: unsigned_ucast_eq us take_bit_nat_eq_self_iff)
    moreover have "frame_range_new (frame_at (8 * i + s)) (2 ^ ord) = ret (Some (frame_range_at (8 * i + s) (2 ^ ord)))"
      using frame_range_new_at [of "2 ^ ord" "8 * i + s"] i len fit by simp
    moreover have "bnd (u_shl (1 :: u32) (unat (2 ^ ord :: usize))) (\<lambda>x. bnd (u_sub x 1) (\<lambda>t. bnd (try_into t) f))
        = f (mask (2 ^ ord) :: u8)" for f :: "u8 \<Rightarrow> 'c rust"
      using small_mask [OF ord] by (metis bnd.simps(2) bnd_assoc)
    ultimately have "alloc_small (2 ^ ord) (i # is) bm = ret (Some (frame_range_at (8 * i + s) (2 ^ ord)),
        bm[i := bm ! i AND NOT (push_bit s (mask (2 ^ ord)))])"
      using nz i s Some u_shl_u8 [OF s(1)] by (simp add: find_bit_group_eq [OF ord] us)
    then show ?thesis using s fit by (auto simp: small_result_def)
  qed
qed (simp add: small_result_def)

definition overwrite :: "u8 \<Rightarrow> nat set \<Rightarrow> u8 list \<Rightarrow> u8 list" where
  "overwrite v J bm = map (\<lambda>j. if j \<in> J then v else bm ! j) [0..<length bm]"

lemma length_overwrite [simp]: "length (overwrite v J bm) = length bm"
  by (simp add: overwrite_def)

lemma overwrite_nth [simp]: "j < length bm \<Longrightarrow> overwrite v J bm ! j = (if j \<in> J then v else bm ! j)"
  by (simp add: overwrite_def)

lemma fill_bytes_eq: "set js \<subseteq> {..<length bm} \<Longrightarrow> fill_bytes v js bm = ret (overwrite v (set js) bm)"
proof (induction js arbitrary: bm)
  case (Cons j js)
  have "overwrite v (set js) (bm[j := v]) = overwrite v (set (j # js)) bm"
    by (rule nth_equalityI) auto
  then show ?case using Cons by simp
qed (simp add: overwrite_def map_nth)

lemma all_max_eq:
  "set js \<subseteq> {..<length bm} \<Longrightarrow> all_max js bm = ret (\<forall>j \<in> set js. bm ! j = u8_MAX)"
  by (induction js) auto

lemma free_bits_overwrite:
  "free_bits (overwrite 0 J bm) = {n \<in> free_bits bm. n div 8 \<notin> J}"
  "free_bits (overwrite u8_MAX J bm) = free_bits bm \<union> {n. n < 8 * length bm \<and> n div 8 \<in> J}"
  by (auto simp: free_bits_def less_mult_imp_div_less mult.commute split: if_splits)

definition all_free_bytes :: "u8 list \<Rightarrow> nat \<Rightarrow> nat \<Rightarrow> bool" where
  "all_free_bytes bm L i \<longleftrightarrow> i + L \<le> length bm \<and> (\<forall>j \<in> {i..<i + L}. bm ! j = u8_MAX)"

lemma alloc_large_eq:
  assumes "0 < L" "8 * length bm \<le> 2 ^ 52" "unat sz = 8 * L"
  shows "sorted is \<Longrightarrow> alloc_large sz L is bm = (case find (all_free_bytes bm L) is of
      Some i \<Rightarrow> ret (Some (frame_range_at (8 * i) (8 * L)), overwrite 0 {i..<i + L} bm)
    | None \<Rightarrow> if \<exists>i \<in> set is. i + L > length bm then ret (None, bm) else throw Unreachable)"
proof (induction "is")
  case (Cons i "is")
  consider "i + L > length bm" | "i + L \<le> length bm" "\<not> all_free_bytes bm L i" | "all_free_bytes bm L i"
    by (meson not_less)
  then show ?case
  proof cases
    case 1
    then have "find (all_free_bytes bm L) (i # is) = None"
      using Cons.prems by (auto simp: find_None_iff all_free_bytes_def)
    then show ?thesis using 1 by simp
  next
    case 2
    then have "all_max [i..<i + L] bm = ret False"
      by (subst all_max_eq) (auto simp: all_free_bytes_def)
    then show ?thesis using 2 Cons by auto
  next
    case 3
    then have le: "i + L \<le> length bm" by (simp add: all_free_bytes_def)
    then have sub: "set [i..<i + L] \<subseteq> {..<length bm}" by auto
    have "all_max [i..<i + L] bm = ret True" "fill_bytes 0 [i..<i + L] bm = ret (overwrite 0 {i..<i + L} bm)"
      using 3 all_max_eq [OF sub] fill_bytes_eq [OF sub] by (auto simp: all_free_bytes_def)
    moreover have "offsets_to_frame (of_nat i) 0 = ret (frame_at (8 * i))"
      using offsets_to_frame_eq [of i 0 0] assms le by simp
    moreover have "frame_range_new (frame_at (8 * i)) sz = ret (Some (frame_range_at (8 * i) (8 * L)))"
    proof -
      have "sz = of_nat (8 * L)" using assms(3) by (metis of_nat_unat ucast_id)
      then show ?thesis using frame_range_new_at [of "8 * L" "8 * i"] assms le by simp
    qed
    ultimately show ?thesis using 3 le by simp
  qed
qed simp

section \<open>The contract of a frame allocator\<close>

text \<open>
  What the unsafe trait promises its clients, over the set of free frames. \<open>orders\<close> are the orders
  for which an implementation keeps the promise. An aligned group of free frames is found if there
  is one, and only frames that were free are handed out; without such a group the answer is
  \<^verbatim>\<open>None\<close>, or the panic of \<^verbatim>\<open>unreachable!\<close>.
\<close>

definition free_group :: "nat set \<Rightarrow> nat \<Rightarrow> nat \<Rightarrow> bool" where
  "free_group F ord n \<longleftrightarrow> 2 ^ ord dvd n \<and> {n..<n + 2 ^ ord} \<subseteq> F"

locale frame_allocator =
  fixes inv :: "'s \<Rightarrow> bool"
    and free :: "'s \<Rightarrow> nat set"
    and known :: "'s \<Rightarrow> nat set"
    and orders :: "nat set"
    and alloc :: "'s \<Rightarrow> usize \<Rightarrow> (frame_range option \<times> 's) rust"
    and dealloc :: "'s \<Rightarrow> frame_range \<Rightarrow> 's rust"
    and rsv :: "'s \<Rightarrow> frame \<Rightarrow> ((frame_reserve_error + unit) \<times> 's) rust"
    and unrsv :: "'s \<Rightarrow> frame \<Rightarrow> 's rust"
  assumes free_known: "free s \<subseteq> known s"
    and alloc_some: "inv s \<Longrightarrow> ord \<in> orders \<Longrightarrow> free_group (free s) ord n \<Longrightarrow>
      \<exists>r s'. alloc s (of_nat ord) = ret (Some r, s') \<and> inv s' \<and> known s' = known s
        \<and> wf_frame_range r \<and> unat (fr_count r) = 2 ^ ord
        \<and> free_group (free s) ord (fidx (fr_first r)) \<and> free s' = free s - range_frames r"
    and alloc_none: "inv s \<Longrightarrow> ord \<in> orders \<Longrightarrow> \<nexists>n. free_group (free s) ord n \<Longrightarrow>
      alloc s (of_nat ord) = ret (None, s) \<or> alloc s (of_nat ord) = throw Unreachable"
    and dealloc_ok: "inv s \<Longrightarrow> wf_frame_range r \<Longrightarrow> range_frames r \<subseteq> known s - free s \<Longrightarrow>
      \<exists>s'. dealloc s r = ret s' \<and> inv s' \<and> known s' = known s \<and> free s' = free s \<union> range_frames r"
    and reserve_ok: "inv s \<Longrightarrow> wf_frame f \<Longrightarrow> fidx f \<in> known s \<Longrightarrow>
      \<exists>s'. rsv s f = ret (if fidx f \<in> free s then Inr () else Inl FrameInUse, s')
        \<and> inv s' \<and> known s' = known s \<and> free s' = free s - {fidx f}"
    and unreserve_ok: "inv s \<Longrightarrow> wf_frame f \<Longrightarrow> fidx f \<in> known s - free s \<Longrightarrow>
      \<exists>s'. unrsv s f = ret s' \<and> inv s' \<and> known s' = known s \<and> free s' = insert (fidx f) (free s)"
begin

text \<open>
  A client's account of the frames it owns: with the free frames they are the frames that were
  free at the start, and no frame is both.
\<close>

definition accounts :: "nat set \<Rightarrow> 's \<Rightarrow> nat set \<Rightarrow> bool" where
  "accounts F0 s owned \<longleftrightarrow> inv s \<and> owned \<inter> free s = {} \<and> owned \<union> free s = F0 \<and> F0 \<subseteq> known s"

lemma accounts_start: "inv s \<Longrightarrow> accounts (free s) s {}"
  using free_known by (simp add: accounts_def)

lemma accounts_alloc:
  assumes "accounts F0 s owned" "ord \<in> orders" "alloc s (of_nat ord) = ret (Some r, s')"
  shows "accounts F0 s' (owned \<union> range_frames r)" "range_frames r \<inter> owned = {}"
    "2 ^ ord dvd fidx (fr_first r)" "card (range_frames r) = 2 ^ ord"
proof -
  obtain n where "free_group (free s) ord n"
    using alloc_none [of s ord] assms by (auto simp: accounts_def)
  then have r: "inv s'" "known s' = known s" "unat (fr_count r) = 2 ^ ord"
      "free_group (free s) ord (fidx (fr_first r))" "free s' = free s - range_frames r"
    using alloc_some [of s ord n] assms by (auto simp: accounts_def)
  then have "range_frames r \<subseteq> free s" by (simp add: free_group_def range_frames_def)
  then show "accounts F0 s' (owned \<union> range_frames r)" "range_frames r \<inter> owned = {}"
    using assms(1) r by (auto simp: accounts_def)
  show "2 ^ ord dvd fidx (fr_first r)" "card (range_frames r) = 2 ^ ord"
    using r by (simp_all add: free_group_def range_frames_def)
qed

lemma accounts_alloc_none:
  assumes "accounts F0 s owned" "ord \<in> orders" "alloc s (of_nat ord) = ret (None, s')"
  shows "accounts F0 s' owned" "\<nexists>n. free_group (free s) ord n"
  using assms alloc_some [of s ord] alloc_none [of s ord] by (auto simp: accounts_def)

lemma accounts_dealloc:
  assumes "accounts F0 s owned" "wf_frame_range r" "range_frames r \<subseteq> owned"
  shows "runs (dealloc s r) (\<lambda>s'. accounts F0 s' (owned - range_frames r))"
proof -
  have "range_frames r \<subseteq> known s - free s" using assms by (auto simp: accounts_def)
  then show ?thesis using dealloc_ok [of s r] assms by (auto simp: accounts_def runs_iff)
qed

lemma accounts_reserve:
  assumes "accounts F0 s owned" "wf_frame f" "fidx f \<in> F0"
  shows "runs (rsv s f) (\<lambda>(res, s'). if fidx f \<in> owned then res = Inl FrameInUse \<and> accounts F0 s' owned
    else res = Inr () \<and> accounts F0 s' (insert (fidx f) owned))"
proof -
  have "inv s" "fidx f \<in> known s" using assms by (auto simp: accounts_def)
  then obtain s' where s': "rsv s f = ret (if fidx f \<in> free s then Inr () else Inl FrameInUse, s')"
    "inv s'" "known s' = known s" "free s' = free s - {fidx f}"
    using reserve_ok [of s f] assms(2) by auto
  have "fidx f \<in> free s \<longleftrightarrow> fidx f \<notin> owned" using assms(1,3) by (auto simp: accounts_def)
  then show ?thesis unfolding s'(1) using assms(1) s' by (auto simp: accounts_def)
qed

lemma accounts_unreserve:
  assumes "accounts F0 s owned" "wf_frame f" "fidx f \<in> owned"
  shows "runs (unrsv s f) (\<lambda>s'. accounts F0 s' (owned - {fidx f}))"
proof -
  have "fidx f \<in> known s - free s" using assms by (auto simp: accounts_def)
  then show ?thesis using unreserve_ok [of s f] assms by (auto simp: accounts_def runs_iff)
qed

end

section \<open>The bitmap allocator keeps the contract\<close>

definition bitmap_inv :: "bitmap_allocator \<Rightarrow> bool" where
  "bitmap_inv a \<longleftrightarrow> 8 * length (bitmap a) \<le> 2 ^ 52"

definition free_frames :: "bitmap_allocator \<Rightarrow> nat set" where
  "free_frames a = free_bits (bitmap a)"

definition known_frames :: "bitmap_allocator \<Rightarrow> nat set" where
  "known_frames a = {..<8 * length (bitmap a)}"

definition sound_orders :: "nat set" where
  "sound_orders = {0, 1} \<union> {3..24}"

lemma unat_pow2: "n < LENGTH('a) \<Longrightarrow> unat (2 ^ n :: 'a::len word) = 2 ^ n"
  by (metis of_nat_numeral of_nat_power power_strict_increasing_iff one_less_numeral_iff semiring_norm(76) unat_of_nat_eq)

lemma allocate_range_small:
  assumes "ord < 3"
  shows "allocate_range a (of_nat ord)
    = bnd (alloc_small (2 ^ ord) [0..<length (bitmap a)] (bitmap a)) (\<lambda>(r, bm). ret (r, a\<lparr>bitmap := bm\<rparr>))"
  by (rule order_cases [OF assms]) (simp_all add: allocate_range_def u_shl_def push_bit_of_1)

lemma allocate_range_large:
  assumes "m \<le> 21"
  shows "allocate_range a (of_nat (3 + m))
    = bnd (alloc_large (2 ^ (3 + m)) (2 ^ m) (filter (\<lambda>i. 2 ^ m dvd i) [0..<length (bitmap a)]) (bitmap a))
        (\<lambda>(r, bm). ret (r, a\<lparr>bitmap := bm\<rparr>))"
proof -
  have o: "unat (of_nat (3 + m) :: usize) = 3 + m" using assms by (intro unat_of_nat_eq) simp
  have sz: "unat (2 ^ (3 + m) :: usize) = 8 * 2 ^ m"
    using assms unat_pow2 [of "3 + m", where 'a = 64] by (simp add: power_add)
  have "unat (2 ^ (3 + m) div 8 :: usize) = 2 ^ m"
    by (simp only: unat_div sz unat_numeral_8)
  moreover have "(of_nat (3 + m) :: usize) \<le> 24"
    using assms by (simp only: word_le_nat_alt o) simp
  moreover have "\<not> (2 ^ (3 + m) :: usize) < 8" "(8 :: usize) \<le> 2 ^ (3 + m)"
    by (simp_all only: word_less_nat_alt word_le_nat_alt sz unat_numeral_8) auto
  ultimately show ?thesis
    using assms by (simp add: allocate_range_def u_shl_def o push_bit_of_1 u_div_def step_by_def mod_eq_0_iff_dvd
        del: of_nat_add power_Suc power_add)
qed

lemma interval_subset_iff: "{n..<n + w} \<subseteq> F \<longleftrightarrow> (\<forall>k < w. n + k \<in> F)" for n :: nat
  by (auto simp: subset_eq) (metis add_less_cancel_left nat_le_iff_add)

lemma free_group_small:
  assumes "ord < 3"
  shows "free_group (free_bits bm) ord n \<longleftrightarrow>
    n div 8 < length bm \<and> 2 ^ ord dvd n mod 8 \<and> group_at (bm ! (n div 8)) (2 ^ ord) (n mod 8)"
proof (cases "2 ^ ord dvd n mod 8")
  case True
  have fit: "n mod 8 + 2 ^ ord \<le> 8" by (rule group_fits [OF assms True]) simp
  have dvd: "2 ^ ord dvd n" using True assms le_imp_power_dvd [of ord 3 "2 :: nat"]
    by (simp add: dvd_mod_iff)
  have k: "n + k \<in> free_bits bm \<longleftrightarrow> n div 8 < length bm \<and> bit (bm ! (n div 8)) (n mod 8 + k)"
    if "k < 2 ^ ord" for k
  proof -
    have c: "n mod 8 + k < 8" using that fit by linarith
    have "n + k = 8 * (n div 8) + (n mod 8 + k)" by simp
    then have "(n + k) div 8 = n div 8" "(n + k) mod 8 = n mod 8 + k"
      using div_mult_self4 [of 8 "n div 8" "n mod 8 + k"] mod_mult_self4 [of 8 "n div 8" "n mod 8 + k"] c
      by simp_all
    then show ?thesis by (auto simp: free_bits_def)
  qed
  have "(\<forall>k < 2 ^ ord. n + k \<in> free_bits bm) \<longleftrightarrow>
      n div 8 < length bm \<and> (\<forall>k < 2 ^ ord. bit (bm ! (n div 8)) (n mod 8 + k))"
    using k by (metis zero_less_numeral zero_less_power)
  then show ?thesis using True dvd by (simp add: free_group_def interval_subset_iff group_at_def)
next
  case False
  have "2 ^ ord dvd n \<Longrightarrow> 2 ^ ord dvd n mod 8"
    using le_imp_power_dvd [of ord 3 "2 :: nat"] assms by (simp add: dvd_mod)
  then show ?thesis using False by (auto simp: free_group_def)
qed

lemma byte_eq_max_iff: "(b :: u8) = u8_MAX \<longleftrightarrow> (\<forall>k < 8. bit b k)"
  using bit_eq_iff [of b u8_MAX] by (auto simp: bit_u8_less)

lemma free_group_large:
  "free_group (free_bits bm) (3 + m) n \<longleftrightarrow>
    (\<exists>i. n = 8 * i \<and> 2 ^ m dvd i \<and> all_free_bytes bm (2 ^ m) i)"
proof -
  have bits: "{8 * i..<8 * i + 8 * L} \<subseteq> free_bits bm \<longleftrightarrow> all_free_bytes bm L i" if "0 < L" for i L
  proof
    assume *: "{8 * i..<8 * i + 8 * L} \<subseteq> free_bits bm"
    have "8 * i + 8 * L - 1 \<in> free_bits bm" using * that by auto
    then have "i + L \<le> length bm" using that by (auto simp: free_bits_def)
    moreover have "bm ! j = u8_MAX" if "j \<in> {i..<i + L}" for j
    proof -
      have "8 * j + k \<in> free_bits bm" if "k < 8" for k
        using * that \<open>j \<in> {i..<i + L}\<close> by auto
      then have "k < 8 \<Longrightarrow> bit (bm ! j) k" for k by (auto simp: free_bits_def)
      then show ?thesis by (simp add: byte_eq_max_iff)
    qed
    ultimately show "all_free_bytes bm L i" by (simp add: all_free_bytes_def)
  next
    assume *: "all_free_bytes bm L i"
    show "{8 * i..<8 * i + 8 * L} \<subseteq> free_bits bm"
    proof
      fix n assume n: "n \<in> {8 * i..<8 * i + 8 * L}"
      then have "n div 8 \<in> {i..<i + L}" by auto
      then have "bm ! (n div 8) = u8_MAX" "n div 8 < length bm" using * by (auto simp: all_free_bytes_def)
      then show "n \<in> free_bits bm" by (simp add: free_bits_mem)
    qed
  qed
  have pow: "(2 :: nat) ^ (3 + m) = 8 * 2 ^ m" by (simp add: power_add)
  have "free_group (free_bits bm) (3 + m) n \<longleftrightarrow> (\<exists>i. n = 8 * i \<and> 2 ^ m dvd i \<and> {n..<n + 8 * 2 ^ m} \<subseteq> free_bits bm)"
    unfolding free_group_def pow by (auto elim!: dvdE)
  then show ?thesis using bits [of "2 ^ m"] by auto
qed

lemma probed_bits_sound: "ord < 2 \<Longrightarrow> probed_bits ord = 2 ^ ord"
  by (auto simp: probed_bits_def less_2_cases_iff)

lemma sound_orders_cases:
  assumes "ord \<in> sound_orders"
  obtains "ord < 2" | m where "ord = 3 + m" "m \<le> 21"
proof (cases "ord < 2")
  case False
  then have "ord = 3 + (ord - 3)" "ord - 3 \<le> 21" using assms by (auto simp: sound_orders_def)
  then show ?thesis by (rule that(2))
qed (rule that(1))

text \<open>An allocation of a small order that succeeds. For order 2 only three of the frames are known to be free.\<close>

lemma alloc_small_free:
  assumes "ord < 3" "bitmap_inv a" "small_result ord [0..<length (bitmap a)] (bitmap a) (Some r, bm)"
  shows "\<exists>n. r = frame_range_at n (2 ^ ord) \<and> n + 2 ^ ord \<le> 8 * length (bitmap a) \<and> 2 ^ ord dvd n
    \<and> {n..<n + probed_bits ord} \<subseteq> free_frames a \<and> length bm = length (bitmap a)
    \<and> free_bits bm = free_frames a - {n..<n + 2 ^ ord}"
proof -
  obtain i s where i: "i < length (bitmap a)" and s: "s + 2 ^ ord \<le> 8" "2 ^ ord dvd s"
    and g: "group_at (bitmap a ! i) (probed_bits ord) s" and r: "r = frame_range_at (8 * i + s) (2 ^ ord)"
    and bm: "bm = (bitmap a)[i := bitmap a ! i AND NOT (push_bit s (mask (2 ^ ord)))]"
    using assms(3) by (auto simp: small_result_def)
  have "2 ^ ord dvd (8 :: nat)" using le_imp_power_dvd [of ord 3 "2 :: nat"] assms(1) by simp
  then have "2 ^ ord dvd 8 * i + s" using s(2) by simp
  moreover have "8 * i + s + k \<in> free_bits (bitmap a)" if "k < probed_bits ord" for k
  proof -
    have b: "bit (bitmap a ! i) (s + k)" using g that by (simp add: group_at_def)
    then have "s + k < 8" by (rule bit_u8_less)
    then have "(8 * i + s + k) div 8 = i" "(8 * i + s + k) mod 8 = s + k" by (simp_all add: add.assoc)
    then show ?thesis using b i by (simp add: free_bits_mem)
  qed
  ultimately show ?thesis using i s r bm free_bits_clear_group [OF i s(1)]
    by (intro exI [of _ "8 * i + s"]) (auto simp: free_frames_def interval_subset_iff)
qed

text \<open>What a successful allocation of order \<open>ord\<close> means for the set of free frames.\<close>

definition took_group :: "bitmap_allocator \<Rightarrow> nat \<Rightarrow> frame_range \<Rightarrow> bitmap_allocator \<Rightarrow> bool" where
  "took_group a ord r a' \<longleftrightarrow> bitmap_inv a' \<and> known_frames a' = known_frames a \<and> wf_frame_range r
    \<and> unat (fr_count r) = 2 ^ ord \<and> free_group (free_frames a) ord (fidx (fr_first r))
    \<and> free_frames a' = free_frames a - range_frames r"

lemma took_groupI:
  assumes "bitmap_inv a" "free_group (free_frames a) ord n" "n + 2 ^ ord \<le> 8 * length (bitmap a)"
    "length bm = length (bitmap a)" "free_bits bm = free_frames a - {n..<n + 2 ^ ord}"
  shows "took_group a ord (frame_range_at n (2 ^ ord)) (a\<lparr>bitmap := bm\<rparr>)"
proof -
  have b: "n + 2 ^ ord \<le> 2 ^ 52" using assms(1,3) by (simp add: bitmap_inv_def)
  have "n < 2 ^ 52" by (rule less_le_trans [OF _ b]) simp
  moreover have "(2 :: nat) ^ ord \<le> 2 ^ 52" by (rule order_trans [OF _ b]) simp
  then have "ord \<le> 52" by (rule power_le_imp_le_exp [rotated]) simp
  then have "unat (2 ^ ord :: u64) = 2 ^ ord" by (simp add: unat_pow2)
  ultimately show ?thesis using assms b
    by (simp add: took_group_def bitmap_inv_def known_frames_def free_frames_def wf_frame_range_at
        range_frames_at) (simp add: frame_range_at_def)
qed

definition allocation_outcome :: "bitmap_allocator \<Rightarrow> nat \<Rightarrow> bool" where
  "allocation_outcome a ord \<longleftrightarrow>
    (\<exists>r a'. allocate_range a (of_nat ord) = ret (Some r, a') \<and> took_group a ord r a')
    \<or> (\<nexists>n. free_group (free_frames a) ord n) \<and>
      allocate_range a (of_nat ord) =
        (if 3 \<le> ord \<and> 2 ^ (ord - 3) dvd length (bitmap a) then throw Unreachable else ret (None, a))"

lemma allocate_small_outcome:
  assumes inv: "bitmap_inv a" and ord: "ord < 2"
  shows "allocation_outcome a ord"
proof -
  have o: "ord < 3" using ord by simp
  have "runs (alloc_small (2 ^ ord) [0..<length (bitmap a)] (bitmap a))
      (small_result ord [0..<length (bitmap a)] (bitmap a))"
    using inv by (intro alloc_small_correct [OF o]) (auto simp: bitmap_inv_def)
  then obtain r bm where r: "alloc_small (2 ^ ord) [0..<length (bitmap a)] (bitmap a) = ret (r, bm)"
    "small_result ord [0..<length (bitmap a)] (bitmap a) (r, bm)"
    by (auto simp: runs_iff)
  show ?thesis
  proof (cases r)
    case None
    then have "\<not> free_group (free_frames a) ord n" for n
      using r(2) ord by (auto simp: free_frames_def free_group_small [OF o] small_result_def probed_bits_sound)
    moreover have "bm = bitmap a" using r(2) None by (simp add: small_result_def)
    ultimately show ?thesis using r(1) None o by (simp add: allocate_range_small [OF o] allocation_outcome_def)
  next
    case (Some fr)
    then obtain n where n: "fr = frame_range_at n (2 ^ ord)" "n + 2 ^ ord \<le> 8 * length (bitmap a)" "2 ^ ord dvd n"
      "{n..<n + probed_bits ord} \<subseteq> free_frames a" "length bm = length (bitmap a)"
      "free_bits bm = free_frames a - {n..<n + 2 ^ ord}"
      using alloc_small_free [OF o inv, of fr bm] r(2) by auto
    then have "took_group a ord fr (a\<lparr>bitmap := bm\<rparr>)"
      unfolding n(1) by (intro took_groupI [OF inv]) (auto simp: free_group_def probed_bits_sound [OF ord])
    then show ?thesis using r(1) Some by (simp add: allocate_range_small [OF o] allocation_outcome_def)
  qed
qed

text \<open>Every group start has room only when the group length divides the length of the bitmap.\<close>

lemma all_fit_dvd:
  assumes "0 < L"
  shows "(\<exists>i \<in> set (filter (\<lambda>i. L dvd i) [0..<n]). n < i + L) \<longleftrightarrow> \<not> L dvd (n :: nat)"
proof
  assume "\<exists>i \<in> set (filter (\<lambda>i. L dvd i) [0..<n]). n < i + L"
  then show "\<not> L dvd n" using dvd_gap [of L n] by fastforce
next
  assume "\<not> L dvd n"
  then have "round_down L n < n" by (metis le_neq_implies_less round_down_dvd round_down_le)
  then show "\<exists>i \<in> set (filter (\<lambda>i. L dvd i) [0..<n]). n < i + L"
    using round_down_gt [OF assms, of n] by (intro bexI [of _ "round_down L n"]) auto
qed

lemma allocate_large_outcome:
  assumes inv: "bitmap_inv a" and m: "m \<le> 21"
  shows "allocation_outcome a (3 + m)"
proof -
  let ?bm = "bitmap a" and ?is = "filter (\<lambda>i. 2 ^ m dvd i) [0..<length (bitmap a)]"
  have pow: "(2 :: nat) ^ (3 + m) = 8 * 2 ^ m" by (simp add: power_add)
  have "sorted ?is" using sorted_filter [of id "[0..<length ?bm]"] by simp
  then have eq: "alloc_large (2 ^ (3 + m)) (2 ^ m) ?is ?bm = (case find (all_free_bytes ?bm (2 ^ m)) ?is of
      Some i \<Rightarrow> ret (Some (frame_range_at (8 * i) (8 * 2 ^ m)), overwrite 0 {i..<i + 2 ^ m} ?bm)
    | None \<Rightarrow> if \<exists>i \<in> set ?is. i + 2 ^ m > length ?bm then ret (None, ?bm) else throw Unreachable)"
    using inv m unat_pow2 [of "3 + m", where 'a = 64] pow
    by (intro alloc_large_eq) (auto simp: bitmap_inv_def)
  show ?thesis
  proof (cases "find (all_free_bytes ?bm (2 ^ m)) ?is")
    case None
    have none: "\<not> free_group (free_frames a) (3 + m) n" for n
    proof
      assume "free_group (free_frames a) (3 + m) n"
      then obtain i where i: "2 ^ m dvd i" "all_free_bytes ?bm (2 ^ m) i"
        using free_group_large [of ?bm m n] by (auto simp: free_frames_def)
      have "0 < (2 :: nat) ^ m" by simp
      then have "i < length ?bm" using i(2) unfolding all_free_bytes_def by linarith
      then show False using None i by (auto simp: find_None_iff)
    qed
    have "(\<exists>i \<in> set ?is. i + 2 ^ m > length ?bm) \<longleftrightarrow> \<not> 2 ^ m dvd length ?bm" by (rule all_fit_dvd) simp
    then show ?thesis using eq None none
      by (simp add: allocation_outcome_def allocate_range_large [OF m] del: of_nat_add set_filter)
  next
    case (Some i)
    then have i: "2 ^ m dvd i" "all_free_bytes ?bm (2 ^ m) i" by (auto dest!: find_Some_elem)
    then have "free_group (free_frames a) (3 + m) (8 * i)"
      using free_group_large [of ?bm m] by (auto simp: free_frames_def)
    moreover have "free_bits (overwrite 0 {i..<i + 2 ^ m} ?bm) = free_frames a - {8 * i..<8 * i + 2 ^ (3 + m)}"
      unfolding free_bits_overwrite pow free_frames_def by auto
    ultimately have "took_group a (3 + m) (frame_range_at (8 * i) (2 ^ (3 + m)))
        (a\<lparr>bitmap := overwrite 0 {i..<i + 2 ^ m} ?bm\<rparr>)"
      using i(2) by (intro took_groupI [OF inv]) (auto simp: all_free_bytes_def pow)
    then show ?thesis using eq Some
      by (simp add: allocation_outcome_def allocate_range_large [OF m] pow del: of_nat_add)
  qed
qed

lemma allocate_range_outcome:
  assumes "bitmap_inv a" "ord \<in> sound_orders"
  shows "allocation_outcome a ord"
  using assms(2) by (cases rule: sound_orders_cases)
    (auto simp: allocate_small_outcome [OF assms(1)] allocate_large_outcome [OF assms(1)])

text \<open>Returning and reserving frames.\<close>

lemma unreserve_impl_eq: "unreserve_impl = deallocate_impl"
  by (simp add: fun_eq_iff unreserve_impl_def deallocate_impl_def)

lemma deallocate_impl_eq:
  "deallocate_impl a f =
    (if fidx f \<in> known_frames a
     then if fidx f \<in> free_frames a then throw AssertFailed
          else ret (a\<lparr>bitmap := (bitmap a)[fidx f div 8 := bitmap a ! (fidx f div 8) OR push_bit (fidx f mod 8) 1]\<rparr>)
     else throw OutOfBounds)"
proof -
  have k: "fidx f \<in> known_frames a \<longleftrightarrow> fidx f div 8 < length (bitmap a)"
    by (auto simp: known_frames_def)
  show ?thesis
    by (auto simp: deallocate_impl_def frame_to_offsets_eq byte_offset_eq bit_offset_eq u_shl_u8 k index_def
        store_def free_frames_def free_bits_mem and_bit_eq_0 rassert_def)
qed

lemma deallocate_impl_ok:
  assumes "bitmap_inv a" "fidx f \<in> known_frames a - free_frames a"
  shows "\<exists>a'. deallocate_impl a f = ret a' \<and> bitmap_inv a' \<and> known_frames a' = known_frames a
    \<and> free_frames a' = insert (fidx f) (free_frames a)"
proof -
  have "fidx f div 8 < length (bitmap a)" using assms(2) by (auto simp: known_frames_def)
  then show ?thesis using assms free_bits_set [of "fidx f" "bitmap a"]
    by (auto simp: deallocate_impl_eq bitmap_inv_def known_frames_def free_frames_def)
qed

lemma deallocate_all_ok:
  "bitmap_inv a \<Longrightarrow> distinct fs \<Longrightarrow> \<forall>f \<in> set fs. wf_frame f \<Longrightarrow> fidx ` set fs \<subseteq> known_frames a - free_frames a \<Longrightarrow>
   \<exists>a'. deallocate_all a fs = ret a' \<and> bitmap_inv a' \<and> known_frames a' = known_frames a
    \<and> free_frames a' = free_frames a \<union> fidx ` set fs"
proof (induction fs arbitrary: a)
  case (Cons f fs)
  then obtain a1 where a1: "deallocate_impl a f = ret a1" "bitmap_inv a1" "known_frames a1 = known_frames a"
    "free_frames a1 = insert (fidx f) (free_frames a)"
    using deallocate_impl_ok [of a f] by auto
  have "fidx f \<notin> fidx ` set fs"
    using Cons.prems(2,3) by (auto) (metis frame_at_fidx)
  then have "fidx ` set fs \<subseteq> known_frames a1 - free_frames a1"
    using Cons.prems(4) unfolding a1(3,4) list.set image_insert insert_subset by (elim conjE) (intro subset_Diff_insert [THEN iffD2] conjI)
  then show ?case using Cons.IH [of a1] Cons.prems a1 by (auto simp: deallocate_def)
qed simp

lemma deallocate_range_ok:
  assumes "bitmap_inv a" "wf_frame_range r" "range_frames r \<subseteq> known_frames a - free_frames a"
  shows "\<exists>a'. deallocate_range a r = ret a' \<and> bitmap_inv a' \<and> known_frames a' = known_frames a
    \<and> free_frames a' = free_frames a \<union> range_frames r"
proof -
  let ?i = "fidx (fr_first r)" and ?n = "unat (fr_count r)"
  have le: "?i + ?n \<le> 2 ^ 52" using assms(2) by (simp add: wf_frame_range_def)
  have "distinct (map frame_at [?i..<?i + ?n])"
    unfolding distinct_map using le by (auto intro!: inj_onI dest!: arg_cong [of _ _ fidx])
  moreover have "fidx ` set (map frame_at [?i..<?i + ?n]) = range_frames r"
    using le by (force simp: range_frames_def)
  ultimately show ?thesis
    using deallocate_all_ok [of a "map frame_at [?i..<?i + ?n]"] assms le
    by (auto simp: deallocate_range_def frame_range_iter_wf)
qed

lemma reserve_eq:
  "reserve a f =
    (if fidx f \<in> known_frames a
     then if fidx f \<in> free_frames a
          then ret (Inr (), a\<lparr>bitmap := (bitmap a)[fidx f div 8 := bitmap a ! (fidx f div 8) AND NOT (push_bit (fidx f mod 8) 1)]\<rparr>)
          else ret (Inl FrameInUse, a)
     else throw Explicit)"
proof -
  have k: "fidx f \<in> known_frames a \<longleftrightarrow> fidx f div 8 < length (bitmap a)"
    by (auto simp: known_frames_def)
  show ?thesis
    by (auto simp: reserve_def frame_to_offsets_eq byte_offset_eq bit_offset_eq u_shl_u8 k Let_def
        free_frames_def free_bits_mem and_bit_eq_0 word_gt_0)
qed

lemma reserve_frame_ok:
  assumes "bitmap_inv a" "fidx f \<in> known_frames a"
  shows "\<exists>a'. reserve a f = ret (if fidx f \<in> free_frames a then Inr () else Inl FrameInUse, a')
    \<and> bitmap_inv a' \<and> known_frames a' = known_frames a \<and> free_frames a' = free_frames a - {fidx f}"
proof -
  have "fidx f div 8 < length (bitmap a)" using assms(2) by (auto simp: known_frames_def)
  then show ?thesis using assms free_bits_clear [of "fidx f" "bitmap a"]
    by (auto simp: reserve_eq bitmap_inv_def known_frames_def free_frames_def)
qed

interpretation ba: frame_allocator bitmap_inv free_frames known_frames sound_orders
  allocate_range deallocate_range reserve unreserve
proof
  fix a :: bitmap_allocator
  show "free_frames a \<subseteq> known_frames a"
    by (auto simp: free_frames_def known_frames_def free_bits_def)
next
  fix a ord n
  assume "bitmap_inv a" "ord \<in> sound_orders" "free_group (free_frames a) ord n"
  then show "\<exists>r s'. allocate_range a (of_nat ord) = ret (Some r, s') \<and> bitmap_inv s' \<and> known_frames s' = known_frames a
        \<and> wf_frame_range r \<and> unat (fr_count r) = 2 ^ ord
        \<and> free_group (free_frames a) ord (fidx (fr_first r)) \<and> free_frames s' = free_frames a - range_frames r"
    using allocate_range_outcome [of a ord] by (auto simp: allocation_outcome_def took_group_def)
next
  fix a ord
  assume "bitmap_inv a" "ord \<in> sound_orders" "\<nexists>n. free_group (free_frames a) ord n"
  then show "allocate_range a (of_nat ord) = ret (None, a) \<or> allocate_range a (of_nat ord) = throw Unreachable"
    using allocate_range_outcome [of a ord] by (auto simp: allocation_outcome_def took_group_def split: if_splits)
qed (auto simp: deallocate_range_ok reserve_frame_ok unreserve_def unreserve_impl_eq intro!: deallocate_impl_ok)

subsection \<open>Sessions\<close>

text \<open>
  A client that keeps the trait's rules: it returns only what it owns. The last argument is the set
  of frames it owns.
\<close>

inductive session :: "bitmap_allocator \<Rightarrow> bitmap_allocator \<Rightarrow> nat set \<Rightarrow> bool" for a0 where
  start: "session a0 a0 {}"
| alloc: "session a0 a owned \<Longrightarrow> ord \<in> sound_orders \<Longrightarrow>
    allocate_range a (of_nat ord) = ret (Some r, a') \<Longrightarrow> session a0 a' (owned \<union> range_frames r)"
| no_alloc: "session a0 a owned \<Longrightarrow> ord \<in> sound_orders \<Longrightarrow>
    allocate_range a (of_nat ord) = ret (None, a') \<Longrightarrow> session a0 a' owned"
| dealloc: "session a0 a owned \<Longrightarrow> wf_frame_range r \<Longrightarrow> range_frames r \<subseteq> owned \<Longrightarrow>
    deallocate_range a r = ret a' \<Longrightarrow> session a0 a' (owned - range_frames r)"
| reserved: "session a0 a owned \<Longrightarrow> wf_frame f \<Longrightarrow> fidx f \<in> free_frames a0 \<Longrightarrow>
    reserve a f = ret (Inr (), a') \<Longrightarrow> session a0 a' (insert (fidx f) owned)"
| refused: "session a0 a owned \<Longrightarrow> wf_frame f \<Longrightarrow> fidx f \<in> free_frames a0 \<Longrightarrow>
    reserve a f = ret (Inl e, a') \<Longrightarrow> session a0 a' owned"
| unreserved: "session a0 a owned \<Longrightarrow> wf_frame f \<Longrightarrow> fidx f \<in> owned \<Longrightarrow>
    unreserve a f = ret a' \<Longrightarrow> session a0 a' (owned - {fidx f})"

inductive_cases session_startE: "session a0 a {}"

lemma session_accounts:
  "session a0 a owned \<Longrightarrow> bitmap_inv a0 \<Longrightarrow> ba.accounts (free_frames a0) a owned"
proof (induction rule: session.induct)
  case start
  then show ?case by (rule ba.accounts_start)
next
  case (alloc a owned ord r a')
  then show ?case using ba.accounts_alloc(1) by simp
next
  case (no_alloc a owned ord a')
  then show ?case using ba.accounts_alloc_none(1) by simp
next
  case (dealloc a owned r a')
  then show ?case using ba.accounts_dealloc [of "free_frames a0" a owned r] by simp
next
  case (reserved a owned f a')
  then show ?case using ba.accounts_reserve [of "free_frames a0" a owned f] by (simp split: if_splits)
next
  case (refused a owned f e a')
  then show ?case using ba.accounts_reserve [of "free_frames a0" a owned f] by (simp split: if_splits)
next
  case (unreserved a owned f a')
  then show ?case using ba.accounts_unreserve [of "free_frames a0" a owned f] by simp
qed

lemma free_bits_inj:
  assumes "length bm = length bm'" "free_bits bm = free_bits bm'"
  shows "bm = bm'"
proof (rule nth_equalityI)
  fix i
  assume i: "i < length bm"
  have "bit (bm ! i) k \<longleftrightarrow> bit (bm' ! i) k" if "k < 8" for k
  proof -
    have "8 * i + k \<in> free_bits bm \<longleftrightarrow> 8 * i + k \<in> free_bits bm'" using assms(2) by simp
    then show ?thesis using i that assms(1) by (simp add: free_bits_def)
  qed
  then show "bm ! i = bm' ! i" by (intro bit_word_eqI) simp
qed (rule assms)

lemma allocator_eqI:
  fixes a a' :: bitmap_allocator
  assumes "known_frames a = known_frames a'" "free_frames a = free_frames a'"
  shows "a = a'"
proof -
  have "8 * length (bitmap a) = 8 * length (bitmap a')" using assms(1) by (simp add: known_frames_def lessThan_eq_iff)
  then have "bitmap a = bitmap a'" using assms(2) by (intro free_bits_inj) (simp_all add: free_frames_def)
  then show ?thesis by simp
qed

subsection \<open>The bump allocator\<close>

definition bump_frames :: "bump_frame_allocator \<Rightarrow> nat set" where
  "bump_frames b = (case remain b of None \<Rightarrow> {} | Some r \<Rightarrow> range_frames r)"

definition bump_inv :: "bump_frame_allocator \<Rightarrow> bool" where
  "bump_inv b \<longleftrightarrow> (case remain b of None \<Rightarrow> True | Some r \<Rightarrow> wf_frame_range r)"

lemma Min_interval: "i < n \<Longrightarrow> Min {i..<n} = (i :: nat)"
  by (intro Min_eqI) auto

section \<open>Properties\<close>

text \<open>
  C2. \<^verbatim>\<open>BitmapFrameAllocator::allocate_range\<close> for every order up to 24 but 2: if there is an aligned group
  of \<open>2 ^ order\<close> free frames, such a group is returned, as a well-formed range of free frames that are
  free no longer, and nothing else changes. Without such a group the answer is \<^verbatim>\<open>None\<close> and the bitmap
  is unchanged, except that for order 3 and more the \<^verbatim>\<open>unreachable!()\<close> at the end of the loop is reached
  when the group length in bytes divides the length of the bitmap.
\<close>

theorem allocate_range_correct:
  assumes "bitmap_inv a" "ord \<in> sound_orders"
  shows "if \<exists>n. free_group (free_frames a) ord n
    then runs (allocate_range a (of_nat ord)) (\<lambda>(r, a'). \<exists>fr. r = Some fr \<and> wf_frame_range fr
      \<and> unat (fr_count fr) = 2 ^ ord \<and> free_group (free_frames a) ord (fidx (fr_first fr))
      \<and> free_frames a' = free_frames a - range_frames fr \<and> known_frames a' = known_frames a)
    else allocate_range a (of_nat ord) =
      (if 3 \<le> ord \<and> 2 ^ (ord - 3) dvd length (bitmap a) then throw Unreachable else ret (None, a))"
  using allocate_range_outcome [OF assms] by (auto simp: allocation_outcome_def took_group_def)

theorem allocate_range_correct_witness:
  "if \<exists>n. free_group (free_frames \<lparr>bitmap = [0x36, 0xFF]\<rparr>) 3 n
    then runs (allocate_range \<lparr>bitmap = [0x36, 0xFF]\<rparr> (of_nat 3)) (\<lambda>(r, a'). \<exists>fr. r = Some fr \<and> wf_frame_range fr
      \<and> unat (fr_count fr) = 2 ^ 3 \<and> free_group (free_frames \<lparr>bitmap = [0x36, 0xFF]\<rparr>) 3 (fidx (fr_first fr))
      \<and> free_frames a' = free_frames \<lparr>bitmap = [0x36, 0xFF]\<rparr> - range_frames fr
      \<and> known_frames a' = known_frames \<lparr>bitmap = [0x36, 0xFF]\<rparr>)
    else allocate_range \<lparr>bitmap = [0x36, 0xFF]\<rparr> (of_nat 3) =
      (if 3 \<le> (3 :: nat) \<and> 2 ^ (3 - 3) dvd length (bitmap \<lparr>bitmap = [0x36, 0xFF :: u8]\<rparr>)
       then throw Unreachable else ret (None, \<lparr>bitmap = [0x36, 0xFF]\<rparr>))"
  by (rule allocate_range_correct) (simp_all add: bitmap_inv_def sound_orders_def)

text \<open>
  C29. Order 2 is unsound. \<^verbatim>\<open>find_bit_group\<close> builds its mask as \<^verbatim>\<open>(len << 1) - 1\<close>, three bits for a length
  of four. So \<^verbatim>\<open>allocate_range(2)\<close> on the bitmap \<^verbatim>\<open>0b01110111\<close> hands out the frames 0 to 3 although frame 3
  is in use.
\<close>

theorem allocate_range_2_unsound:
  "allocate_range \<lparr>bitmap = [0b01110111]\<rparr> 2 = ret (Some (frame_range_at 0 4), \<lparr>bitmap = [0b01110000]\<rparr>)
    \<and> 3 \<in> range_frames (frame_range_at 0 4) \<and> 3 \<notin> free_frames \<lparr>bitmap = [0b01110111]\<rparr>"
proof -
  have "find_bit_group 0b01110111 4 = ret (Some 0)"
    using is_power_of_two_pow [of 2]
    by (simp add: find_bit_group_def u_shl_def u_sub_def checked_sub_def find_bit_loop.simps u_shr_def)
  moreover have "frame_range_new (frame_at 0) 4 = ret (Some (frame_range_at 0 4))"
    using frame_range_new_at [of 4 0] by simp
  moreover have "offsets_to_frame 0 0 = ret (frame_at 0)" using offsets_to_frame_eq [of 0 0 0] by simp
  ultimately have "allocate_range \<lparr>bitmap = [0b01110111]\<rparr> 2
      = ret (Some (frame_range_at 0 4), \<lparr>bitmap = [0b01110000]\<rparr>)"
    using allocate_range_small [of 2 "\<lparr>bitmap = [0b01110111]\<rparr>"]
    by (simp add: u_shl_def u_sub_def checked_sub_def try_into_def)
  then show ?thesis by (simp add: range_frames_at free_frames_def free_bits_def)
qed



lemma deallocate_allocated:
  assumes "bitmap_inv a" "ord \<in> sound_orders" "allocate_range a (of_nat ord) = ret (Some r, a')"
  shows "deallocate_range a' r = ret a"
proof -
  have t: "took_group a ord r a'"
    using allocate_range_outcome [OF assms(1,2)] assms(3) by (auto simp: allocation_outcome_def split: if_splits)
  then have sub: "range_frames r \<subseteq> free_frames a" by (simp add: took_group_def free_group_def range_frames_def)
  then have "range_frames r \<subseteq> known_frames a' - free_frames a'"
    using t ba.free_known [of a] by (auto simp: took_group_def)
  then obtain a'' where a'': "deallocate_range a' r = ret a''" "known_frames a'' = known_frames a'"
    "free_frames a'' = free_frames a' \<union> range_frames r"
    using deallocate_range_ok [of a' r] t by (auto simp: took_group_def)
  have "a'' = a"
  proof (rule allocator_eqI)
    show "known_frames a'' = known_frames a" using a'' t by (simp add: took_group_def)
    show "free_frames a'' = free_frames a" using a'' t sub by (auto simp: took_group_def)
  qed
  then show ?thesis using a'' by simp
qed

text \<open>
  C30. The other operations of the bitmap allocator on every branch, for any frame: \<^verbatim>\<open>deallocate\<close>,
  \<^verbatim>\<open>unreserve\<close> and \<^verbatim>\<open>add_new_frame\<close> free a used frame and nothing else, fail their assertion on a free
  frame and the index check on one beyond the bitmap; \<^verbatim>\<open>reserve\<close> takes a free frame and nothing else,
  refuses a used one without any change, and panics beyond the bitmap.
\<close>

theorem frame_operations_branches:
  assumes "wf_frame f" "bitmap_inv a"
  shows "deallocate a f = unreserve a f \<and> unreserve a f = add_new_frame a f
    \<and> (if fidx f \<notin> known_frames a then deallocate a f = throw OutOfBounds \<and> reserve a f = throw Explicit
       else if fidx f \<in> free_frames a
         then deallocate a f = throw AssertFailed
           \<and> runs (reserve a f) (\<lambda>(res, a'). res = Inr () \<and> free_frames a' = free_frames a - {fidx f}
               \<and> known_frames a' = known_frames a \<and> unreserve a' f = ret a)
         else reserve a f = ret (Inl FrameInUse, a)
           \<and> runs (deallocate a f) (\<lambda>a'. free_frames a' = insert (fidx f) (free_frames a)
               \<and> known_frames a' = known_frames a))"
proof -
  have same: "deallocate a f = unreserve a f" "unreserve a f = add_new_frame a f"
    by (simp_all add: deallocate_def unreserve_def add_new_frame_def unreserve_impl_eq)
  have undo: "runs (reserve a f) (\<lambda>(res, a'). res = Inr () \<and> free_frames a' = free_frames a - {fidx f}
      \<and> known_frames a' = known_frames a \<and> unreserve a' f = ret a)"
    if was: "fidx f \<in> known_frames a" "fidx f \<in> free_frames a"
  proof -
    obtain a' where a': "reserve a f = ret (Inr (), a')" "bitmap_inv a'" "known_frames a' = known_frames a"
      "free_frames a' = free_frames a - {fidx f}"
      using ba.reserve_ok [OF assms(2,1)] was by auto
    then obtain a'' where a'': "unreserve a' f = ret a''" "known_frames a'' = known_frames a'"
      "free_frames a'' = insert (fidx f) (free_frames a')"
      using ba.unreserve_ok [OF a'(2) assms(1)] was by auto
    have "a'' = a" by (rule allocator_eqI) (use a' a'' was in auto)
    then show ?thesis using a' a'' by simp
  qed
  have freed: "runs (deallocate a f) (\<lambda>a'. free_frames a' = insert (fidx f) (free_frames a) \<and> known_frames a' = known_frames a)"
    if "fidx f \<in> known_frames a" "fidx f \<notin> free_frames a"
    using deallocate_impl_ok [OF assms(2), of f] that by (auto simp: deallocate_def runs_iff)
  have errors: "fidx f \<notin> known_frames a \<Longrightarrow> deallocate a f = throw OutOfBounds"
    "fidx f \<notin> known_frames a \<Longrightarrow> reserve a f = throw Explicit"
    "fidx f \<in> known_frames a \<Longrightarrow> fidx f \<in> free_frames a \<Longrightarrow> deallocate a f = throw AssertFailed"
    "fidx f \<in> known_frames a \<Longrightarrow> fidx f \<notin> free_frames a \<Longrightarrow> reserve a f = ret (Inl FrameInUse, a)"
    by (simp_all add: deallocate_def deallocate_impl_eq reserve_eq)
  show ?thesis using same undo freed errors by presburger
qed

theorem frame_operations_branches_witness:
  "deallocate \<lparr>bitmap = [32]\<rparr> (frame_at 5) = unreserve \<lparr>bitmap = [32]\<rparr> (frame_at 5)
    \<and> unreserve \<lparr>bitmap = [32]\<rparr> (frame_at 5) = add_new_frame \<lparr>bitmap = [32]\<rparr> (frame_at 5)
    \<and> (if fidx (frame_at 5) \<notin> known_frames \<lparr>bitmap = [32]\<rparr>
       then deallocate \<lparr>bitmap = [32]\<rparr> (frame_at 5) = throw OutOfBounds \<and> reserve \<lparr>bitmap = [32]\<rparr> (frame_at 5) = throw Explicit
       else if fidx (frame_at 5) \<in> free_frames \<lparr>bitmap = [32]\<rparr>
         then deallocate \<lparr>bitmap = [32]\<rparr> (frame_at 5) = throw AssertFailed
           \<and> runs (reserve \<lparr>bitmap = [32]\<rparr> (frame_at 5)) (\<lambda>(res, a'). res = Inr ()
               \<and> free_frames a' = free_frames \<lparr>bitmap = [32]\<rparr> - {fidx (frame_at 5)}
               \<and> known_frames a' = known_frames \<lparr>bitmap = [32]\<rparr> \<and> unreserve a' (frame_at 5) = ret \<lparr>bitmap = [32]\<rparr>)
         else reserve \<lparr>bitmap = [32]\<rparr> (frame_at 5) = ret (Inl FrameInUse, \<lparr>bitmap = [32]\<rparr>)
           \<and> runs (deallocate \<lparr>bitmap = [32]\<rparr> (frame_at 5)) (\<lambda>a'.
               free_frames a' = insert (fidx (frame_at 5)) (free_frames \<lparr>bitmap = [32]\<rparr>)
               \<and> known_frames a' = known_frames \<lparr>bitmap = [32]\<rparr>))"
  by (rule frame_operations_branches) (simp_all add: bitmap_inv_def)

lemma bump_allocate_runs:
  assumes "bump_inv b"
  shows "runs (bump_allocate b) (\<lambda>(f, b'). bump_inv b' \<and>
    (if bump_frames b = {} \<or> bump_frames b = {2 ^ 52 - 1} then f = None \<and> b' = b
     else \<exists>g. f = Some g \<and> wf_frame g \<and> fidx g = Min (bump_frames b)
       \<and> bump_frames b' = bump_frames b - {fidx g}))"
proof (cases "remain b")
  case None
  then show ?thesis by (simp add: bump_allocate_def bump_frames_def bump_inv_def)
next
  case (Some r)
  let ?i = "fidx (fr_first r)" and ?n = "unat (fr_count r)"
  have r: "wf_frame_range r" "wf_frame (fr_first r)" "0 < ?n" "?i + ?n \<le> 2 ^ 52"
    using assms Some by (auto simp: bump_inv_def wf_frame_range_def)
  have fr: "bump_frames b = {?i..<?i + ?n}" by (simp add: bump_frames_def Some range_frames_def)
  have c: "fr_count r \<noteq> 0" using r(3) by auto
  show ?thesis
  proof (cases "?i + 1 < 2 ^ 52")
    case True
    have u: "unat (fr_count r - 1) = ?n - 1" using c by (simp add: unat_minus_one)
    have "frame_next (fr_first r) 1 = ret (Some (frame_at (?i + 1)))" using True by (simp add: frame_next_wf [OF r(2)])
    moreover obtain r' where r': "frame_range_new (frame_at (?i + 1)) (fr_count r - 1) = ret r'"
      "case r' of None \<Rightarrow> ?n = 1 | Some q \<Rightarrow> wf_frame_range q \<and> range_frames q = {?i + 1..<?i + ?n}"
    proof (cases "?n = 1")
      case True
      then have "fr_count r - 1 = 0" using u by (metis diff_self_eq_0 unat_eq_zero)
      then show ?thesis using that [of None] True by (simp add: frame_range_new_def)
    next
      case False
      have "of_nat (?n - 1) = fr_count r - 1" using u by (metis of_nat_unat ucast_id)
      then have "frame_range_new (frame_at (?i + 1)) (fr_count r - 1) = ret (Some (frame_range_at (?i + 1) (?n - 1)))"
        using frame_range_new_at [of "?n - 1" "?i + 1"] r False by simp
      then show ?thesis using that [of "Some (frame_range_at (?i + 1) (?n - 1))"] r False
        by (simp add: wf_frame_range_at range_frames_at)
    qed
    ultimately have "bump_allocate b = ret (Some (fr_first r), b\<lparr>remain := r'\<rparr>)"
      using Some c by (simp add: bump_allocate_def u_sub_1)
    moreover have "bump_frames (b\<lparr>remain := r'\<rparr>) = {?i + 1..<?i + ?n}" "bump_inv (b\<lparr>remain := r'\<rparr>)"
      using r'(2) by (auto simp: bump_frames_def bump_inv_def split: option.splits)
    moreover have "{?i + 1..<?i + ?n} = bump_frames b - {?i}" unfolding fr by auto
    moreover have "bump_frames b \<noteq> {}" "bump_frames b \<noteq> {2 ^ 52 - 1}" "Min (bump_frames b) = ?i"
    proof -
      have "?i \<in> bump_frames b" using r(3) by (simp add: fr)
      then show "bump_frames b \<noteq> {}" "bump_frames b \<noteq> {2 ^ 52 - 1}" using True by auto
      show "Min (bump_frames b) = ?i" using r(3) by (simp add: fr Min_interval)
    qed
    ultimately show ?thesis using r(2) by simp
  next
    case False
    then have i: "?i = 2 ^ 52 - 1" and n: "?n = 1" using r(3,4) by auto
    have "bump_frames b = {?i}" unfolding fr n by auto
    then have "bump_frames b = {2 ^ 52 - 1}" by (simp only: i)
    moreover have "bump_allocate b = ret (None, b)"
      using False Some by (simp add: bump_allocate_def frame_next_wf [OF r(2)])
    ultimately show ?thesis using assms by simp
  qed
qed

end
