(* ===== verification/Bitmap_Fill.thy ===== *)
theory Bitmap_Fill
  imports Frame_Alloc
begin

text \<open>
  \<^verbatim>\<open>shared/src/memory/alloc/phys.rs\<close>: the function that fills the allocator's bitmap from the memory
  map, and its helpers.
\<close>

section \<open>Model\<close>

definition set_most_significant_bits :: "u8 \<Rightarrow> u8 rust" where
  "set_most_significant_bits num_bits =
     (if num_bits = 0 then ret 0
      else if num_bits < 8 then bnd (u_sub 8 num_bits) (\<lambda>n. u_shl u8_MAX (unat n))
      else ret u8_MAX)"

definition set_least_significant_bits :: "u8 \<Rightarrow> u8 rust" where
  "set_least_significant_bits num_bits =
     (if num_bits = 0 then ret 0
      else if num_bits < 8 then bnd (u_sub 8 num_bits) (\<lambda>n. u_shr u8_MAX (unat n))
      else ret u8_MAX)"

definition ceil_divide :: "u64 \<Rightarrow> u64 \<Rightarrow> u64 rust" where
  "ceil_divide x divisor =
     bnd (u_add x divisor) (\<lambda>s. bnd (u_sub s 1) (\<lambda>t. u_div t divisor))"

text \<open>\<^verbatim>\<open>u64::next_multiple_of\<close>.\<close>

definition next_multiple_of :: "u64 \<Rightarrow> u64 \<Rightarrow> u64 rust" where
  "next_multiple_of x m =
     bnd (u_rem x m) (\<lambda>r. if r = 0 then ret x else bnd (u_sub m r) (u_add x))"

abbreviation FRAMES_PER_ENTRY :: u64 where
  "FRAMES_PER_ENTRY \<equiv> 8"

definition BYTES_PER_ENTRY :: "u64 rust" where
  "BYTES_PER_ENTRY = u_mul (len_raw PAGE_SIZE) FRAMES_PER_ENTRY"

definition or_byte :: "u8 list \<Rightarrow> nat \<Rightarrow> u8 \<Rightarrow> u8 list rust" where
  "or_byte bm i v = bnd (index bm i) (\<lambda>b. store bm i (b OR v))"

text \<open>The body of the loop over the available frame ranges.\<close>

definition fill_leading :: "u8 list \<Rightarrow> u64 \<Rightarrow> u64 \<Rightarrow> u8 list rust" where
  "fill_leading bm first first_aligned =
     (if first \<noteq> first_aligned then
        bnd (u_div first FRAMES_PER_ENTRY) (\<lambda>first_byte.
        bnd (u_div first_aligned FRAMES_PER_ENTRY) (\<lambda>q.
        bnd (u_sub q 1) (\<lambda>q1.
        bnd (rassert (first_byte = q1)) (\<lambda>_.
        bnd (u_sub first_aligned first) (\<lambda>d.
        bnd (try_into d) (\<lambda>n.
        bnd (set_most_significant_bits n) (\<lambda>v.
        or_byte bm (unat first_byte) v)))))))
      else ret bm)"

definition fill_trailing :: "u8 list \<Rightarrow> u64 \<Rightarrow> u64 \<Rightarrow> u8 list rust" where
  "fill_trailing bm end' end_aligned =
     (if end' \<noteq> end_aligned then
        bnd (u_div end' FRAMES_PER_ENTRY) (\<lambda>last_byte.
        bnd (u_sub end_aligned 1) (\<lambda>e.
        bnd (u_div e FRAMES_PER_ENTRY) (\<lambda>q.
        bnd (u_add q 1) (\<lambda>q1.
        bnd (rassert (last_byte = q1)) (\<lambda>_.
        bnd (u_sub end' end_aligned) (\<lambda>d.
        bnd (try_into d) (\<lambda>n.
        bnd (set_least_significant_bits n) (\<lambda>v.
        or_byte bm (unat last_byte) v))))))))
      else ret bm)"

definition fill_range :: "u8 list \<Rightarrow> frame_range \<Rightarrow> u8 list rust" where
  "fill_range bm avail_frames =
     bnd (u_div (fr_count avail_frames) FRAMES_PER_ENTRY) (\<lambda>c.
     bnd (rassert (length bm \<ge> unat c)) (\<lambda>_.
     bnd (frame_index (fr_first avail_frames)) (\<lambda>first.
     bnd (frame_range_last avail_frames) (\<lambda>l.
     bnd (frame_index l) (\<lambda>li.
     bnd (u_add li 1) (\<lambda>end'.
     bnd (next_multiple_of first FRAMES_PER_ENTRY) (\<lambda>first_aligned.
     bnd (u_div end' FRAMES_PER_ENTRY) (\<lambda>eq.
     bnd (u_mul eq FRAMES_PER_ENTRY) (\<lambda>end_aligned.
     bnd (step_by (unat first_aligned) (unat end_aligned) (unat FRAMES_PER_ENTRY)) (\<lambda>is.
     bnd (fill_bytes u8_MAX (map (\<lambda>i. i div unat FRAMES_PER_ENTRY) is) bm) (\<lambda>bm1.
     bnd (fill_leading bm1 first first_aligned) (\<lambda>bm2.
     fill_trailing bm2 end' end_aligned))))))))))))"

fun fill_ranges :: "u8 list \<Rightarrow> frame_range list \<Rightarrow> u8 list rust" where
  "fill_ranges bm [] = ret bm"
| "fill_ranges bm (r # rs) = bnd (fill_range bm r) (\<lambda>bm'. fill_ranges bm' rs)"

text \<open>The iterator is lazy: the ranges of an entry are computed when the loop reaches it.\<close>

fun fill_available :: "u8 list \<Rightarrow> map_entry list \<Rightarrow> u8 list rust" where
  "fill_available bm [] = ret bm"
| "fill_available bm (e # es) =
     bnd (iter_map_frames [e]) (\<lambda>rs.
     bnd (fill_ranges bm rs) (\<lambda>bm'.
     fill_available bm' es))"

definition fill_bitmap_from_map :: "u8 list \<Rightarrow> memory_map \<Rightarrow> u8 list rust" where
  "fill_bitmap_from_map bm m =
     bnd (map_entries m) (\<lambda>es.
     bnd (unwrap (if es = [] then None else Some (last es))) (\<lambda>e.
     bnd (end_address (me_extent e)) (\<lambda>a.
     bnd BYTES_PER_ENTRY (\<lambda>n.
     bnd (ceil_divide (addr_raw a) n) (\<lambda>need.
     bnd (rassert (length bm \<ge> unat need)) (\<lambda>_.
     fill_available (replicate (length bm) 0) (iter_type m Available)))))))"

section \<open>What filling does to the set of free frames\<close>

lemma most_significant: "n \<le> 8 \<Longrightarrow> runs (set_most_significant_bits (of_nat n)) (\<lambda>v. \<forall>k < 8. bit v k \<longleftrightarrow> 8 - n \<le> k)"
  and least_significant: "n \<le> 8 \<Longrightarrow> runs (set_least_significant_bits (of_nat n)) (\<lambda>v. \<forall>k < 8. bit v k \<longleftrightarrow> k < n)"
proof -
  assume n: "n \<le> 8"
  have u: "unat (of_nat n :: u8) = n" using n by (simp add: unat_of_nat_eq)
  have s: "u_sub 8 (of_nat n :: u8) = ret (of_nat (8 - n))" using u_sub_of_nat [of n 8, where 'a = 8] n by simp
  have u8: "unat (of_nat (8 - n) :: u8) = 8 - n" by (simp add: unat_of_nat_eq)
  have c: "(of_nat n :: u8) = 0 \<longleftrightarrow> n = 0" "(of_nat n :: u8) < 8 \<longleftrightarrow> n < 8"
    by (simp_all add: word_unat_eq_iff word_less_nat_alt u)
  show "runs (set_most_significant_bits (of_nat n)) (\<lambda>v. \<forall>k < 8. bit v k \<longleftrightarrow> 8 - n \<le> k)"
    "runs (set_least_significant_bits (of_nat n)) (\<lambda>v. \<forall>k < 8. bit v k \<longleftrightarrow> k < n)"
    using n by (auto simp: set_most_significant_bits_def set_least_significant_bits_def c s u8 wp bit_simps
      simp del: of_nat_diff)
qed

lemma or_byte_ok:
  assumes "i < length bm" "\<forall>k < 8. bit v k \<longleftrightarrow> s \<le> k \<and> k < t" "t \<le> 8"
  shows "\<exists>bm'. or_byte bm i v = ret bm' \<and> length bm' = length bm
    \<and> free_bits bm' = free_bits bm \<union> {8 * i + s..<8 * i + t}"
proof -
  have "m \<in> free_bits (bm[i := bm ! i OR v]) \<longleftrightarrow> m \<in> free_bits bm \<union> {8 * i + s..<8 * i + t}" for m
  proof (cases "m div 8 = i")
    case True
    have "m = 8 * i + m mod 8" using True by auto
    then have "m \<in> {8 * i + s..<8 * i + t} \<longleftrightarrow> s \<le> m mod 8 \<and> m mod 8 < t" by auto
    then show ?thesis using True assms by (auto simp: free_bits_update free_bits_mem bit_simps)
  next
    case False
    have "m div 8 = i" if "m \<in> {8 * i + s..<8 * i + t}" using that assms(3) by auto
    then show ?thesis using False assms(1) by (auto simp: free_bits_update)
  qed
  then have "free_bits (bm[i := bm ! i OR v]) = free_bits bm \<union> {8 * i + s..<8 * i + t}" by (rule set_eqI)
  then show ?thesis using assms(1) by (simp add: or_byte_def)
qed

text \<open>The multiples of eight around a number.\<close>

lemma round_down_8: "round_down 8 e = 8 * (e div 8)"
  by (simp add: round_down_def)

lemma mod_8_cases:
  fixes i :: nat
  obtains q r where "i = 8 * q + r" "i div 8 = q" "i mod 8 = r" "r < 8"
  using that [of "i div 8" "i mod 8"] by simp

lemma round_up_8: "\<not> 8 dvd i \<Longrightarrow> round_up 8 i = 8 * (i div 8) + 8"
proof -
  assume i: "\<not> 8 dvd i"
  obtain q r where q: "i = 8 * q + r" "i div 8 = q" "i mod 8 = r" "r < 8" by (rule mod_8_cases)
  then have "0 < r" using i by (simp add: dvd_eq_mod_eq_0)
  then have "(i + 7) div 8 = q + 1" using q(1,4) by simp
  then show ?thesis using q(2) by (simp add: round_up_def round_down_8)
qed

lemma fill_leading_ok:
  assumes "i div 8 < length bm" "i < 2 ^ 53"
  shows "\<exists>bm'. fill_leading bm (of_nat i) (of_nat (round_up 8 i)) = ret bm' \<and> length bm' = length bm
    \<and> free_bits bm' = free_bits bm \<union> {i..<round_up 8 i}"
proof (cases "8 dvd i")
  case True
  then show ?thesis by (simp add: fill_leading_def round_up_id)
next
  case False
  obtain q r where q: "i = 8 * q + r" "i div 8 = q" "i mod 8 = r" "r < 8" by (rule mod_8_cases)
  have r: "0 < r" using False q(3) by (simp add: dvd_eq_mod_eq_0)
  have b: "8 * q + r < 9007199254740992" using assms(2) q(1) by simp
  have up: "round_up 8 i = 8 * q + 8" using round_up_8 [OF False] q(2) by simp
  have ne: "(of_nat (8 * q + r) :: u64) \<noteq> of_nat (8 * q + 8)"
    using r b q(4) by (subst of_nat_word_eq_iff) auto
  have d: "of_nat (8 * q + r) div (8 :: u64) = of_nat q" "of_nat (8 * q + 8) div (8 :: u64) = of_nat (q + 1)"
    using b q(4) by (subst of_nat_div_word [where m = 8]; simp)+
  have s: "u_sub (of_nat (q + 1)) 1 = ret (of_nat q :: u64)"
    using u_sub_of_nat [of 1 "q + 1", where 'a = 64] b by simp
  have s2: "u_sub (of_nat (8 * q + 8)) (of_nat (8 * q + r)) = ret (of_nat (8 - r) :: u64)"
    using u_sub_of_nat [of "8 * q + r" "8 * q + 8", where 'a = 64] b q(4)
    by (simp del: of_nat_add of_nat_mult of_nat_diff)
  have t: "try_into (of_nat (8 - r) :: u64) = ret (of_nat (8 - r) :: u8)"
    by (rule try_into_of_nat) simp_all
  obtain v where v: "set_most_significant_bits (of_nat (8 - r)) = ret v" "\<forall>k < 8. bit v k \<longleftrightarrow> r \<le> k"
    using most_significant [of "8 - r"] q(4) by (auto simp: runs_iff)
  have u: "unat (of_nat q :: u64) = q" using b by (intro unat_of_nat_eq) simp
  obtain bm' where "or_byte bm q v = ret bm'" "length bm' = length bm"
    "free_bits bm' = free_bits bm \<union> {8 * q + r..<8 * q + 8}"
    using or_byte_ok [of q bm v r 8] assms(1) v(2) q(2) by auto
  then show ?thesis using ne d s s2 t v u unfolding up unfolding q(1)
    by (simp add: fill_leading_def u_div_def del: of_nat_add of_nat_mult of_nat_diff of_nat_Suc)
qed

lemma fill_trailing_ok:
  assumes "e \<le> 8 * length bm" "e < 2 ^ 53" "8 dvd e \<or> 8 \<le> e"
  shows "\<exists>bm'. fill_trailing bm (of_nat e) (of_nat (round_down 8 e)) = ret bm' \<and> length bm' = length bm
    \<and> free_bits bm' = free_bits bm \<union> {round_down 8 e..<e}"
proof (cases "8 dvd e")
  case True
  then show ?thesis by (simp add: fill_trailing_def round_down_id)
next
  case False
  obtain q r where q: "e = 8 * q + r" "e div 8 = q" "e mod 8 = r" "r < 8" by (rule mod_8_cases)
  have r: "0 < r" "0 < q" using False q assms(3) by (auto simp: dvd_eq_mod_eq_0)
  have b: "8 * q + r < 9007199254740992" using assms(2) q(1) by simp
  have down: "round_down 8 e = 8 * q" by (simp add: round_down_8 q(2))
  have ne: "(of_nat (8 * q + r) :: u64) \<noteq> of_nat (8 * q)"
    using r b by (subst of_nat_word_eq_iff) auto
  have s: "u_sub (of_nat (8 * q)) 1 = ret (of_nat (8 * q - 1) :: u64)"
    using u_sub_of_nat [of 1 "8 * q", where 'a = 64] b r(2) by (simp del: of_nat_mult of_nat_diff)
  have d: "of_nat (8 * q + r) div (8 :: u64) = of_nat q" "of_nat (8 * q - 1) div (8 :: u64) = of_nat (q - 1)"
  proof -
    have "(8 * q - 1) div 8 = q - 1" using r(2) by (cases q) auto
    then show "of_nat (8 * q + r) div (8 :: u64) = of_nat q" "of_nat (8 * q - 1) div (8 :: u64) = of_nat (q - 1)"
      using b q(4) by (subst of_nat_div_word [where m = 8]; simp del: of_nat_diff)+
  qed
  have a: "u_add (of_nat (q - 1)) 1 = ret (of_nat q :: u64)"
    using u_add_Suc [of "q - 1", where 'a = 64] b r(2) by (simp del: of_nat_Suc of_nat_diff)
  have s2: "u_sub (of_nat (8 * q + r)) (of_nat (8 * q)) = ret (of_nat r :: u64)"
    using u_sub_of_nat [of "8 * q" "8 * q + r", where 'a = 64] b by (simp del: of_nat_add of_nat_mult)
  have t: "try_into (of_nat r :: u64) = ret (of_nat r :: u8)"
    by (rule try_into_of_nat) (use q(4) in simp_all)
  obtain v where v: "set_least_significant_bits (of_nat r) = ret v" "\<forall>k < 8. bit v k \<longleftrightarrow> k < r"
    using least_significant [of r] q(4) by (auto simp: runs_iff)
  have u: "unat (of_nat q :: u64) = q" using b by (intro unat_of_nat_eq) simp
  obtain bm' where "or_byte bm q v = ret bm'" "length bm' = length bm"
    "free_bits bm' = free_bits bm \<union> {8 * q..<8 * q + r}"
    using or_byte_ok [of q bm v 0 r] assms(1) v(2) q r by auto
  then show ?thesis using ne d s s2 t v u a unfolding down unfolding q(1)
    by (simp add: fill_trailing_def u_div_def del: of_nat_add of_nat_mult of_nat_diff of_nat_Suc)
qed

text \<open>
  The frames one range marks. When the range crosses no byte border, neither end is aligned and the
  two partial bytes are the same byte, the whole byte is marked.
\<close>

definition marked_frames :: "nat \<Rightarrow> nat \<Rightarrow> nat set" where
  "marked_frames i e = (if round_up 8 i \<le> round_down 8 e then {i..<e} else {round_down 8 e..<round_up 8 i})"

lemma fill_whole_bytes:
  assumes "e \<le> 8 * length bm"
  shows "bnd (step_by (round_up 8 i) (round_down 8 e) 8) (\<lambda>is. fill_bytes u8_MAX (map (\<lambda>j. j div 8) is) bm)
    = ret (overwrite u8_MAX {round_up 8 i div 8..<e div 8} bm)"
proof -
  let ?u = "round_up 8 i" and ?d = "round_down 8 e"
  let ?is = "filter (\<lambda>j. (j - ?u) mod 8 = 0) [?u..<?d]"
  obtain q where q: "?u = 8 * q" using round_up_dvd [of 8 i] dvdE by blast
  have "(\<lambda>j. j div 8) ` {j \<in> {8 * q..<8 * (e div 8)}. (j - 8 * q) mod 8 = 0} = {q..<e div 8}"
  proof (intro set_eqI iffI)
    fix k assume "k \<in> {q..<e div 8}"
    then show "k \<in> (\<lambda>j. j div 8) ` {j \<in> {8 * q..<8 * (e div 8)}. (j - 8 * q) mod 8 = 0}"
      by (intro image_eqI [of _ _ "8 * k"]) (auto simp flip: right_diff_distrib')
  qed auto
  then have set: "set (map (\<lambda>j. j div 8) ?is) = {?u div 8..<e div 8}"
    by (simp add: q round_down_8)
  moreover have "e div 8 \<le> length bm" using assms by simp
  ultimately have "fill_bytes u8_MAX (map (\<lambda>j. j div 8) ?is) bm = ret (overwrite u8_MAX {?u div 8..<e div 8} bm)"
    by (subst fill_bytes_eq) (simp_all add: subset_eq)
  then show ?thesis by (simp add: step_by_def)
qed

lemma next_multiple_of_8:
  assumes "i < 2 ^ 53"
  shows "next_multiple_of (of_nat i) 8 = ret (of_nat (round_up 8 i))"
proof -
  have m: "of_nat i mod (8 :: u64) = of_nat (i mod 8)" using assms by (intro of_nat_mod_word) simp_all
  have z: "(of_nat (i mod 8) :: u64) = 0 \<longleftrightarrow> 8 dvd i"
    using of_nat_word_eq_iff [of "i mod 8" 0, where 'a = 64] by (simp add: dvd_eq_mod_eq_0)
  show ?thesis
  proof (cases "8 dvd i")
    case True
    then show ?thesis using m z by (simp add: next_multiple_of_def u_rem_def round_up_id)
  next
    case False
    have "u_sub 8 (of_nat (i mod 8)) = ret (of_nat (8 - i mod 8) :: u64)"
      using u_sub_of_nat [of "i mod 8" 8, where 'a = 64] by (simp del: of_nat_diff)
    moreover have "i + (8 - i mod 8) = round_up 8 i"
      using round_up_8 [OF False] mult_div_mod_eq [of 8 i] mod_less_divisor [of 8 i] by linarith
    then have "u_add (of_nat i) (of_nat (8 - i mod 8)) = ret (of_nat (round_up 8 i) :: u64)"
      using u_add_of_nat [of i "8 - i mod 8", where 'a = 64] assms by (simp del: of_nat_diff)
    ultimately show ?thesis using m z False by (simp add: next_multiple_of_def u_rem_def del: of_nat_diff)
  qed
qed

lemma frame_index_eq: "frame_index f = ret (of_nat (fidx f))"
proof -
  have "unat (addr_raw (frame_start f) div 4096) = fidx f"
    by (simp only: fidx_def a_nat_def unat_div) simp
  then have "addr_raw (frame_start f) div 4096 = of_nat (fidx f)" by (metis of_nat_unat ucast_id)
  then show ?thesis by (simp add: frame_index_def u_div_def PAGE_SIZE_def)
qed

lemma whole_bytes_set:
  assumes "e \<le> 8 * n"
  shows "{m. m < 8 * n \<and> m div 8 \<in> {round_up 8 i div 8..<e div 8}} = {round_up 8 i..<round_down 8 e}"
proof -
  obtain q where q: "round_up 8 i = 8 * q" using round_up_dvd [of 8 i] dvdE by blast
  show ?thesis unfolding q round_down_8 using assms by auto
qed

lemma interval_parts:
  "i \<le> u \<Longrightarrow> u \<le> d \<Longrightarrow> d \<le> e \<Longrightarrow> {u..<d} \<union> {i..<u} \<union> {d..<e} = {i..<e :: nat}"
  by auto

lemma marked_frames_parts:
  assumes "i < e"
  shows "{round_up 8 i..<round_down 8 e} \<union> {i..<round_up 8 i} \<union> {round_down 8 e..<e} = marked_frames i e"
proof (cases "round_up 8 i \<le> round_down 8 e")
  case True
  then show ?thesis using interval_parts [OF round_up_ge True round_down_le] by (simp add: marked_frames_def)
next
  case False
  then have "\<not> round_up 8 i < round_down 8 e + 8" using dvd_gap [of 8 "round_up 8 i" "round_down 8 e"] by auto
  then show ?thesis using False round_up_lt [of 8 i] round_down_gt [of 8 e] round_down_le [of 8 e] assms
    by (auto simp: marked_frames_def)
qed

lemma fill_range_ok:
  assumes wf: "wf_frame_range r" and i: "i = fidx (fr_first r)" and e: "e = i + unat (fr_count r)"
    and len: "e \<le> 8 * length bm"
  shows "if \<not> 8 dvd e \<and> e < 8 then fill_range bm r = throw Overflow
    else \<exists>bm'. fill_range bm r = ret bm' \<and> length bm' = length bm
      \<and> free_bits bm' = free_bits bm \<union> marked_frames i e"
proof -
  let ?u = "round_up 8 i" and ?d = "round_down 8 e"
  have b: "i < e" "e \<le> 2 ^ 52" using wf i e by (auto simp: wf_frame_range_def)
  have ul: "?u < i + 8" "i \<le> ?u" "?d \<le> e" using round_up_lt [of 8 i] round_up_ge [of 8 i] by auto
  have "unat (fr_count r div 8) \<le> length bm" using len e by (simp add: unat_div)
  moreover have "frame_index (frame_at (e - 1)) = ret (of_nat (e - 1))" using b by (simp add: frame_index_eq del: of_nat_diff)
  moreover have "u_add (of_nat (e - 1)) 1 = ret (of_nat e :: u64)"
    using u_add_Suc [of "e - 1", where 'a = 64] b by (simp del: of_nat_Suc of_nat_diff)
  moreover have "next_multiple_of (of_nat i) 8 = ret (of_nat ?u)" using b by (intro next_multiple_of_8) simp
  moreover have "of_nat e div (8 :: u64) = of_nat (e div 8)" using b by (intro of_nat_div_word) simp_all
  moreover have "u_mul (of_nat (e div 8)) 8 = ret (of_nat ?d :: u64)"
    using u_mul_of_nat [of "8 :: u64" 8 "e div 8"] b by (simp add: round_down_def del: of_nat_mult)
  moreover have "unat (of_nat ?u :: u64) = ?u" "unat (of_nat ?d :: u64) = ?d"
    using b ul by (simp_all add: unat_of_nat_eq)
  ultimately have eq: "fill_range bm r = bnd (step_by ?u ?d 8) (\<lambda>is.
      bnd (fill_bytes u8_MAX (map (\<lambda>j. j div 8) is) bm) (\<lambda>bm1.
      bnd (fill_leading bm1 (of_nat i) (of_nat ?u)) (\<lambda>bm2.
      fill_trailing bm2 (of_nat e) (of_nat ?d))))"
    using wf i e by (simp add: fill_range_def u_div_def frame_index_eq frame_range_last_wf del: of_nat_diff)
  let ?bm1 = "overwrite u8_MAX {?u div 8..<e div 8} bm"
  have eq1: "fill_range bm r = bnd (fill_leading ?bm1 (of_nat i) (of_nat ?u)) (\<lambda>bm2.
      fill_trailing bm2 (of_nat e) (of_nat ?d))"
    unfolding eq using fill_whole_bytes [OF len, of i] by (metis bnd.simps(2) bnd_assoc)
  have "i div 8 < length bm" using b(1) len by (simp add: less_mult_imp_div_less mult.commute)
  then obtain bm2 where bm2: "fill_leading ?bm1 (of_nat i) (of_nat ?u) = ret bm2" "length bm2 = length bm"
    "free_bits bm2 = free_bits ?bm1 \<union> {i..<?u}"
    using fill_leading_ok [of i ?bm1] b by auto
  show ?thesis
  proof (cases "\<not> 8 dvd e \<and> e < 8")
    case True
    then have "?d = 0" "(of_nat e :: u64) \<noteq> 0"
      using of_nat_word_eq_iff [of e 0, where 'a = 64] by (auto simp: round_down_8)
    then have "fill_trailing bm2 (of_nat e) (of_nat ?d) = throw Overflow"
      by (simp add: fill_trailing_def u_div_def u_sub_def checked_sub_def)
    then show ?thesis using True eq1 bm2 by simp
  next
    case False
    then obtain bm' where bm': "fill_trailing bm2 (of_nat e) (of_nat ?d) = ret bm'" "length bm' = length bm2"
      "free_bits bm' = free_bits bm2 \<union> {?d..<e}"
      using fill_trailing_ok [of e bm2] bm2 len b by auto
    have "free_bits bm' = free_bits bm \<union> ({?u..<?d} \<union> {i..<?u} \<union> {?d..<e})"
      unfolding bm'(3) bm2(3) free_bits_overwrite whole_bytes_set [OF len] by (simp only: Un_ac)
    then show ?thesis unfolding marked_frames_parts [OF b(1)] using False eq1 bm2 bm' by simp
  qed
qed

text \<open>The ranges whose marking is exact: they do not overflow, and if they lie inside one byte an end is aligned.\<close>

definition exact_range :: "nat \<Rightarrow> nat \<Rightarrow> bool" where
  "exact_range i e \<longleftrightarrow> (8 dvd e \<or> 8 \<le> e) \<and> round_up 8 i \<le> round_down 8 e"

lemma fill_range_exact:
  assumes "wf_frame_range r" "range_frames r \<subseteq> {..<8 * length bm}"
    "exact_range (fidx (fr_first r)) (fidx (fr_first r) + unat (fr_count r))"
  shows "\<exists>bm'. fill_range bm r = ret bm' \<and> length bm' = length bm \<and> free_bits bm' = free_bits bm \<union> range_frames r"
proof -
  let ?i = "fidx (fr_first r)" and ?n = "unat (fr_count r)"
  have n: "0 < ?n" using assms(1) by (simp add: wf_frame_range_def)
  then have "?i + (?n - 1) \<in> range_frames r" by (simp add: range_frames_def)
  then have "?i + (?n - 1) < 8 * length bm" using assms(2) by blast
  then have "?i + ?n \<le> 8 * length bm" using n by linarith
  then show ?thesis using fill_range_ok [OF assms(1) refl refl, of bm] assms(3)
    by (auto simp: exact_range_def marked_frames_def range_frames_def)
qed

definition first_frame :: "map_entry \<Rightarrow> nat" where
  "first_frame e = round_up 4096 (r_lo e) div 4096"

definition end_frame :: "map_entry \<Rightarrow> nat" where
  "end_frame e = r_hi e div 4096"

definition exact_entry :: "map_entry \<Rightarrow> bool" where
  "exact_entry e \<longleftrightarrow> (first_frame e < end_frame e \<longrightarrow> exact_range (first_frame e) (end_frame e))"

lemma whole_frames_eq: "whole_frames e = {first_frame e..<end_frame e}"
  by (simp add: whole_frames_def frames_inside first_frame_def end_frame_def r_lo_def r_hi_def)

lemma range_frames_interval:
  assumes "wf_frame_range r" "range_frames r = {i..<e}"
  shows "fidx (fr_first r) = i" "fidx (fr_first r) + unat (fr_count r) = e" "i < e"
proof -
  let ?i = "fidx (fr_first r)" and ?e = "fidx (fr_first r) + unat (fr_count r)"
  have n: "?i < ?e" using assms(1) by (simp add: wf_frame_range_def)
  have eq: "{?i..<?e} = {i..<e}" using assms(2) by (simp add: range_frames_def)
  then have ie: "i < e" using n by (metis atLeastLessThan_empty_iff)
  then have "i \<le> ?i \<and> ?e \<le> e" "?i \<le> i \<and> e \<le> ?e"
    using ivl_subset [of ?i ?e i e] ivl_subset [of i e ?i ?e] eq n by auto
  then show "?i = i" "?e = e" "i < e" using ie by auto
qed

lemma fill_entry_exact:
  assumes "valid_extent (me_extent e)" "r_lo e + 4095 < 2 ^ 64" "exact_entry e" "end_frame e \<le> 8 * length bm"
  shows "\<exists>bm'. bnd (iter_map_frames [e]) (fill_ranges bm) = ret bm' \<and> length bm' = length bm
    \<and> free_bits bm' = free_bits bm \<union> whole_frames e"
proof -
  obtain s where s: "shrink_to_alignment (me_extent e) (len_raw PAGE_SIZE) = ret s"
    "case s of None \<Rightarrow> whole_frames e = {}
     | Some x \<Rightarrow> runs (frame_containing_extent x) (\<lambda>r. wf_frame_range r \<and> range_frames r = whole_frames e
         \<and> whole_frames e \<noteq> {})"
    using iter_map_frames_entry [OF assms(1,2)] by blast
  show ?thesis
  proof (cases s)
    case None
    then show ?thesis using s by simp
  next
    case (Some x)
    then obtain r where r: "frame_containing_extent x = ret r" "wf_frame_range r" "range_frames r = whole_frames e"
      using s(2) by (auto simp: runs_iff)
    note ends = range_frames_interval [OF r(2) r(3) [unfolded whole_frames_eq]]
    have "exact_range (fidx (fr_first r)) (fidx (fr_first r) + unat (fr_count r))"
      using assms(3) ends by (simp add: exact_entry_def)
    moreover have "range_frames r \<subseteq> {..<8 * length bm}" using assms(4) by (auto simp: r(3) whole_frames_eq)
    ultimately obtain bm' where "fill_range bm r = ret bm'" "length bm' = length bm"
      "free_bits bm' = free_bits bm \<union> range_frames r"
      using fill_range_exact [OF r(2), of bm] by blast
    then show ?thesis using s(1) Some r by simp
  qed
qed

lemma fill_available_exact:
  "\<forall>e \<in> set es. valid_extent (me_extent e) \<and> r_lo e + 4095 < 2 ^ 64 \<and> exact_entry e \<and> end_frame e \<le> 8 * length bm \<Longrightarrow>
   \<exists>bm'. fill_available bm es = ret bm' \<and> length bm' = length bm
    \<and> free_bits bm' = free_bits bm \<union> \<Union> (whole_frames ` set es)"
proof (induction es arbitrary: bm)
  case (Cons e es)
  then obtain bm1 where bm1: "bnd (iter_map_frames [e]) (fill_ranges bm) = ret bm1" "length bm1 = length bm"
    "free_bits bm1 = free_bits bm \<union> whole_frames e"
    using fill_entry_exact [of e bm] by auto
  obtain bm' where "fill_available bm1 es = ret bm'" "length bm' = length bm1"
    "free_bits bm' = free_bits bm1 \<union> \<Union> (whole_frames ` set es)"
    using Cons.IH [of bm1] Cons.prems bm1(2) by auto
  moreover have "fill_available bm (e # es) = bnd (bnd (iter_map_frames [e]) (fill_ranges bm)) (\<lambda>bm'. fill_available bm' es)"
    by (simp only: fill_available.simps bnd_assoc)
  ultimately show ?case using bm1 by (auto simp del: fill_available.simps iter_map_frames.simps)
qed simp

lemma ceil_divide_32768:
  assumes "x + 32768 < 2 ^ 64"
  shows "ceil_divide (of_nat x) 32768 = ret (of_nat ((x + 32767) div 32768))"
proof -
  have "u_add (of_nat x) 32768 = ret (of_nat (x + 32768) :: u64)"
    using u_add_of_nat [of x 32768, where 'a = 64] assms by (simp del: of_nat_add)
  moreover have "u_sub (of_nat (x + 32768)) 1 = ret (of_nat (x + 32767) :: u64)"
  proof -
    have "u_sub (of_nat (x + 32768)) (of_nat 1) = ret (of_nat (x + 32768 - 1) :: u64)"
      by (rule u_sub_of_nat) (use assms in simp_all)
    moreover have "x + 32768 - 1 = x + 32767" by simp
    ultimately show ?thesis by (simp only: of_nat_1)
  qed
  moreover have "of_nat (x + 32767) div (32768 :: u64) = of_nat ((x + 32767) div 32768)"
    using assms by (intro of_nat_div_word) simp_all
  ultimately show ?thesis by (simp add: ceil_divide_def u_div_def del: of_nat_add)
qed

lemma BYTES_PER_ENTRY_eq: "BYTES_PER_ENTRY = ret 32768"
  by (simp add: BYTES_PER_ENTRY_def u_mul_def checked_mul_def PAGE_SIZE_def)

lemma free_bits_zero: "free_bits (replicate n 0) = {}"
  by (auto simp: free_bits_def)

lemma regions_ok_last:
  "regions_ok rs \<Longrightarrow> r \<in> set rs \<Longrightarrow> r_hi r \<le> r_hi (last rs)"
proof (induction rs)
  case (Cons a rs)
  show ?case
  proof (cases "r = a \<and> rs \<noteq> []")
    case True
    then have "last rs \<in> set rs" by simp
    then have "r_hi a \<le> r_lo (last rs)" "r_lo (last rs) < r_hi (last rs)"
      using Cons.prems(1) regions_ok_valid [of rs "last rs"] by auto
    then show ?thesis using True by simp
  qed (use Cons in auto)
qed simp

section \<open>The length of the bitmap\<close>

lemma fill_bytes_length: "fill_bytes v is bm = ret bm' \<Longrightarrow> length bm' = length bm"
  by (induction "is" arbitrary: bm) (auto simp: rust_iff store_def split: if_splits)

lemma or_byte_length: "or_byte bm i v = ret bm' \<Longrightarrow> length bm' = length bm"
  by (auto simp: or_byte_def rust_iff store_def split: if_splits)

lemma fill_range_length: "fill_range bm r = ret bm' \<Longrightarrow> length bm' = length bm"
  by (auto simp: fill_range_def fill_leading_def fill_trailing_def bnd_Inr_iff
      dest!: fill_bytes_length or_byte_length split: if_splits)

lemma fill_ranges_length: "fill_ranges bm rs = ret bm' \<Longrightarrow> length bm' = length bm"
  by (induction rs arbitrary: bm) (auto simp: bnd_Inr_iff dest!: fill_range_length)

lemma fill_available_length: "fill_available bm es = ret bm' \<Longrightarrow> length bm' = length bm"
  by (induction es arbitrary: bm) (auto simp: bnd_Inr_iff simp del: iter_map_frames.simps dest!: fill_ranges_length)

lemma fill_bitmap_length: "fill_bitmap_from_map bm m = ret bm' \<Longrightarrow> length bm' = length bm"
  by (auto simp: fill_bitmap_from_map_def bnd_Inr_iff dest!: fill_available_length)

lemma fill_bitmap_exact:
  assumes "from_entries src = ret m" "regions_ok src" "src \<noteq> []" "length src \<le> 128"
    and "r_hi (last src) + 32768 < 2 ^ 64" "(r_hi (last src) + 32767) div 32768 \<le> length bm"
    and "\<forall>e \<in> set src. me_type e = Available \<longrightarrow> exact_entry e"
  shows "runs (fill_bitmap_from_map bm m) (\<lambda>bm'. length bm' = length bm
    \<and> free_bits bm' = \<Union> (whole_frames ` {e \<in> set src. me_type e = Available}))"
proof -
  let ?z = "replicate (length bm) 0 :: u8 list" and ?es = "filter (\<lambda>e. me_type e = Available) src"
  have m: "map_entries m = ret src" "iter_type m Available = ?es"
    using assms(1,4) by (auto simp: from_entries_eq map_entries_def iter_type_def unat_of_nat_eq)
  have last: "last src \<in> set src" using assms(3) by simp
  then have "valid_extent (me_extent (last src))" using assms(2) by (auto simp: regions_ok_def areas_ok_def list_all_iff)
  then have "end_address (me_extent (last src)) = ret (addr_of (r_hi (last src)))" by (simp add: end_address_eq r_hi_def)
  moreover have "ceil_divide (of_nat (r_hi (last src))) 32768 = ret (of_nat ((r_hi (last src) + 32767) div 32768))"
    using assms(5) by (rule ceil_divide_32768)
  moreover have "\<exists>bm'. fill_available ?z ?es = ret bm' \<and> length bm' = length ?z
    \<and> free_bits bm' = free_bits ?z \<union> \<Union> (whole_frames ` set ?es)"
  proof (rule fill_available_exact, intro ballI conjI)
    fix e assume e: "e \<in> set ?es"
    show "valid_extent (me_extent e)" using e assms(2) by (auto simp: regions_ok_def areas_ok_def list_all_iff)
    show "exact_entry e" using e assms(7) by simp
    have "r_hi e \<le> r_hi (last src)" "r_lo e < r_hi e" using e assms(2) regions_ok_last regions_ok_valid by auto
    then show "r_lo e + 4095 < 2 ^ 64" "end_frame e \<le> 8 * length ?z" using assms(5,6) by (auto simp: end_frame_def)
  qed
  moreover have "unat (of_nat ((r_hi (last src) + 32767) div 32768) :: u64) = (r_hi (last src) + 32767) div 32768"
    by (rule unat_of_nat_eq) (rule le_less_trans [OF div_le_dividend], use assms(5) in simp)
  ultimately show ?thesis
    using assms(3,6) m by (auto simp: fill_bitmap_from_map_def BYTES_PER_ENTRY_eq addr_of_def free_bits_zero)
qed

section \<open>Properties\<close>

text \<open>
  C11. \<^verbatim>\<open>fill_bitmap_from_map\<close> on a map made by \<^verbatim>\<open>from_entries\<close> from sorted, non-overlapping entries,
  with a bitmap of the documented length: it returns, keeps the length, and the free frames are
  exactly the whole frames of the available entries, provided that every available entry with a
  whole frame reaches from one byte of the bitmap into the next or has an end on a byte border.
\<close>

theorem fill_bitmap_correct:
  assumes "from_entries src = ret m" "regions_ok src" "src \<noteq> []" "length src \<le> 128"
    and "r_hi (last src) + 32768 < 2 ^ 64" "(r_hi (last src) + 32767) div 32768 \<le> length bm"
    and "\<forall>e \<in> set src. me_type e = Available \<longrightarrow> exact_entry e"
  shows "runs (fill_bitmap_from_map bm m) (\<lambda>bm'. length bm' = length bm
    \<and> free_bits bm' = \<Union> (whole_frames ` {e \<in> set src. me_type e = Available}))"
  using assms by (rule fill_bitmap_exact)

theorem fill_bitmap_correct_witness:
  "runs (fill_bitmap_from_map (replicate 3 0)
      \<lparr>mm_entries = [\<lparr>me_extent = extent_of 28672 40960, me_type = Available\<rparr>] @ replicate 127 dummy_entry,
        mm_num_entries = 1\<rparr>) (\<lambda>bm'. length bm' = length (replicate 3 (0 :: u8))
    \<and> free_bits bm' = \<Union> (whole_frames `
        {e \<in> set [\<lparr>me_extent = extent_of 28672 40960, me_type = Available\<rparr>]. me_type e = Available}))"
  by (rule fill_bitmap_correct)
    (simp_all add: from_entries_eq valid_extent_def r_hi_def r_lo_def exact_entry_def exact_range_def
      first_frame_def end_frame_def round_up_def round_down_def)

text \<open>
  C31. Without that proviso \<^verbatim>\<open>fill_bitmap_from_map\<close> is wrong: for a range of available frames from \<open>i\<close> up
  to \<open>e\<close> inside one byte of the bitmap with neither end on a byte border, all eight frames of the byte
  become free, also those that are not available; and in the first byte the subtraction
  \<^verbatim>\<open>end_aligned - 1\<close> overflows.
\<close>

theorem fill_range_inside_byte:
  assumes "wf_frame_range r" "range_frames r = {i..<e}" "e \<le> 8 * length bm"
    and "\<not> 8 dvd i" "\<not> 8 dvd e" "i div 8 = e div 8"
  shows "if e < 8 then fill_range bm r = throw Overflow
    else runs (fill_range bm r) (\<lambda>bm'. free_bits bm' = free_bits bm \<union> {8 * (i div 8)..<8 * (i div 8) + 8})"
proof -
  note ends = range_frames_interval [OF assms(1,2)]
  have "marked_frames i e = {8 * (i div 8)..<8 * (i div 8) + 8}"
    using round_up_8 [OF assms(4)] assms(6) by (simp add: marked_frames_def round_down_8)
  then show ?thesis using fill_range_ok [OF assms(1) refl refl, of bm] assms(3,5) ends by (auto simp: runs_iff)
qed

theorem fill_range_inside_byte_witness:
  "if (10 :: nat) < 8 then fill_range [0, 0] (frame_range_at 9 1) = throw Overflow
    else runs (fill_range [0, 0] (frame_range_at 9 1)) (\<lambda>bm'. free_bits bm' = free_bits [0, 0] \<union> {8 * (9 div 8)..<8 * (9 div 8) + 8})"
  by (rule fill_range_inside_byte) (simp_all add: wf_frame_range_at range_frames_at)

end
