(* ===== verification/Paging.thy ===== *)
theory Paging
  imports Frame_Alloc
begin

text \<open>
  \<^verbatim>\<open>src/mm/paging.rs\<close>: page table entries, and the \<^verbatim>\<open>Mapper\<close> that enters a page into a four-level page
  table, allocating the tables of the lower levels as it goes.

  The tables below the top one live in memory and are reached through pointers, so the state holds a
  memory of page tables by virtual address, and an entry is a reference into the state. The type
  \<^verbatim>\<open>PageTableFlags\<close> comes from the \<^verbatim>\<open>bitflags!\<close> macro: its operations are a parameter \<open>flag_ops\<close>, and
  \<open>flags_law\<close> states their documented behaviour on the bits. The \<^verbatim>\<open>translator\<close> and \<^verbatim>\<open>frame_allocator\<close>
  closures are parameters too, as in the code.
\<close>

section \<open>Model\<close>

subsection \<open>Entries\<close>

definition MAX_PHYS_ADDR_BITS :: nat where
  "MAX_PHYS_ADDR_BITS = 52"

definition MAX_PHYS_ADDR :: phys_address where
  "MAX_PHYS_ADDR = Address (push_bit MAX_PHYS_ADDR_BITS 2)"

definition PAGE_TABLE_ENTRY_ADDR_BITS :: u64 where
  "PAGE_TABLE_ENTRY_ADDR_BITS = push_bit 12 (push_bit 36 1 - 1)"

record page_table_entry =
  pte_raw :: u64

definition entry_zero :: page_table_entry where
  "entry_zero = \<lparr>pte_raw = 0\<rparr>"

definition set_addr :: "page_table_entry \<Rightarrow> phys_address \<Rightarrow> page_table_entry rust" where
  "set_addr self addr =
     bnd (is_aligned_to_length addr PAGE_SIZE) (\<lambda>b.
     bnd (rassert b) (\<lambda>_.
     bnd (rassert (addr < MAX_PHYS_ADDR)) (\<lambda>_.
     ret (self\<lparr>pte_raw := pte_raw self OR addr_raw addr\<rparr>))))"

definition get_addr :: "page_table_entry \<Rightarrow> phys_address" where
  "get_addr self = Address (pte_raw self AND PAGE_TABLE_ENTRY_ADDR_BITS)"

subsection \<open>Flags\<close>

text \<open>The bits the macro is given.\<close>

definition FLAG_PRESENT :: u64 where "FLAG_PRESENT = 1"
definition FLAG_WRITABLE :: u64 where "FLAG_WRITABLE = 2"
definition FLAG_USER :: u64 where "FLAG_USER = 4"
definition FLAG_WRITE_THROUGH :: u64 where "FLAG_WRITE_THROUGH = 8"
definition FLAG_NO_CACHE :: u64 where "FLAG_NO_CACHE = 16"
definition FLAG_ACCESSED :: u64 where "FLAG_ACCESSED = 32"
definition FLAG_DIRTY :: u64 where "FLAG_DIRTY = 64"
definition FLAG_PAGE_SIZE :: u64 where "FLAG_PAGE_SIZE = 128"
definition FLAG_GLOBAL :: u64 where "FLAG_GLOBAL = 256"
definition FLAG_EXECUTE_DISABLE :: u64 where "FLAG_EXECUTE_DISABLE = push_bit 63 1"
definition FLAG_APP_PARENT_FROZEN :: u64 where "FLAG_APP_PARENT_FROZEN = push_bit 62 1"

definition ALL_FLAG_BITS :: u64 where
  "ALL_FLAG_BITS = FLAG_PRESENT OR FLAG_WRITABLE OR FLAG_USER OR FLAG_WRITE_THROUGH OR FLAG_NO_CACHE
     OR FLAG_ACCESSED OR FLAG_DIRTY OR FLAG_PAGE_SIZE OR FLAG_GLOBAL OR FLAG_EXECUTE_DISABLE
     OR FLAG_APP_PARENT_FROZEN OR (FLAG_PRESENT OR FLAG_WRITABLE)"

text \<open>
  The operations of the generated type: the bits of a value, the value of some bits if all of them are
  declared, the constants by their bits, \<^verbatim>\<open>contains\<close>, \<^verbatim>\<open>&\<close>, \<^verbatim>\<open>|\<close> (which is \<^verbatim>\<open>union\<close>) and \<^verbatim>\<open>all\<close>.
\<close>

record 'fl flag_ops =
  fl_bits :: "'fl \<Rightarrow> u64"
  fl_from_bits :: "u64 \<Rightarrow> 'fl option"
  fl_const :: "u64 \<Rightarrow> 'fl"
  fl_contains :: "'fl \<Rightarrow> 'fl \<Rightarrow> bool"
  fl_and :: "'fl \<Rightarrow> 'fl \<Rightarrow> 'fl"
  fl_or :: "'fl \<Rightarrow> 'fl \<Rightarrow> 'fl"
  fl_all :: 'fl

definition set_flags :: "'fl flag_ops \<Rightarrow> page_table_entry \<Rightarrow> 'fl \<Rightarrow> page_table_entry" where
  "set_flags FL self flags = self\<lparr>pte_raw := pte_raw self OR fl_bits FL flags\<rparr>"

definition get_flags :: "'fl flag_ops \<Rightarrow> page_table_entry \<Rightarrow> 'fl rust" where
  "get_flags FL self = unwrap (fl_from_bits FL (pte_raw self AND fl_bits FL (fl_all FL)))"

subsection \<open>Tables and the mapper\<close>

record page_table =
  pt_entries :: "page_table_entry list"

definition page_table_zero :: page_table where
  "page_table_zero = \<lparr>pt_entries = replicate 512 entry_zero\<rparr>"

datatype map_error = FrameAllocationFailed | TranslationFailed

record 'fa mapper =
  mp_level_4 :: page_table
  mp_memory :: "virt_address \<Rightarrow> page_table"
  mp_frames :: 'fa

text \<open>A table is the top one or lies in memory; a mutable reference to an entry is a table and an index.\<close>

datatype table_ref = Level4 | InMemory virt_address

definition table :: "'fa mapper \<Rightarrow> table_ref \<Rightarrow> page_table" where
  "table st t = (case t of Level4 \<Rightarrow> mp_level_4 st | InMemory v \<Rightarrow> mp_memory st v)"

definition put_table :: "'fa mapper \<Rightarrow> table_ref \<Rightarrow> page_table \<Rightarrow> 'fa mapper" where
  "put_table st t pt = (case t of
     Level4 \<Rightarrow> st\<lparr>mp_level_4 := pt\<rparr>
   | InMemory v \<Rightarrow> st\<lparr>mp_memory := (mp_memory st)(v := pt)\<rparr>)"

definition read_entry :: "'fa mapper \<Rightarrow> table_ref \<Rightarrow> nat \<Rightarrow> page_table_entry rust" where
  "read_entry st t i = index (pt_entries (table st t)) i"

definition write_entry :: "'fa mapper \<Rightarrow> table_ref \<Rightarrow> nat \<Rightarrow> page_table_entry \<Rightarrow> 'fa mapper rust" where
  "write_entry st t i e =
     bnd (store (pt_entries (table st t)) i e) (\<lambda>es.
     ret (put_table st t ((table st t)\<lparr>pt_entries := es\<rparr>)))"

type_synonym translator = "phys_address \<Rightarrow> virt_address option rust"

type_synonym 'fa frame_source = "'fa \<Rightarrow> (frame option \<times> 'fa) rust"

text \<open>The closure \<^verbatim>\<open>translate\<close> of \<^verbatim>\<open>next_level_alloc\<close>.\<close>

definition translate :: "translator \<Rightarrow> phys_address \<Rightarrow> (map_error + virt_address) rust" where
  "translate tr phys =
     bnd (tr phys) (\<lambda>v.
     case v of
       None \<Rightarrow> ret (Inl TranslationFailed)
     | Some virt \<Rightarrow>
         bnd (rassert (\<not> is_zero virt)) (\<lambda>_.
         bnd (address_is_aligned_to virt 4096) (\<lambda>b.
         bnd (rassert b) (\<lambda>_.
         ret (Inr virt)))))"

definition next_level_alloc ::
  "'fl flag_ops \<Rightarrow> translator \<Rightarrow> 'fa frame_source \<Rightarrow> 'fa mapper \<Rightarrow> table_ref \<Rightarrow> nat \<Rightarrow> 'fl \<Rightarrow> 'fl
    \<Rightarrow> ((map_error + virt_address) \<times> 'fa mapper) rust" where
  "next_level_alloc FL tr fa st t i set_fl mask_fl =
     bnd (read_entry st t i) (\<lambda>e.
     bnd (get_flags FL e) (\<lambda>fl.
     if fl_contains FL fl (fl_const FL FLAG_PRESENT) then
       let e' = set_flags FL e (fl_or FL (fl_and FL fl mask_fl) set_fl) in
       bnd (write_entry st t i e') (\<lambda>st.
       bnd (translate tr (get_addr e')) (\<lambda>r.
       ret (r, st)))
     else
       bnd (fa (mp_frames st)) (\<lambda>(fr, frames).
       let st = st\<lparr>mp_frames := frames\<rparr> in
       case fr of
         None \<Rightarrow> ret (Inl FrameAllocationFailed, st)
       | Some new_frame \<Rightarrow>
           bnd (translate tr (frame_start new_frame)) (\<lambda>r.
           case r of
             Inl err \<Rightarrow> ret (Inl err, st)
           | Inr p \<Rightarrow>
               let st = put_table st (InMemory p) page_table_zero in
               bnd (read_entry st t i) (\<lambda>e.
               bnd (set_addr e (frame_start new_frame)) (\<lambda>e.
               bnd (write_entry st t i
                 (set_flags FL e (fl_or FL set_fl (fl_const FL FLAG_PRESENT)))) (\<lambda>st.
               ret (Inr p, st))))))))"

definition map_page ::
  "'fl flag_ops \<Rightarrow> translator \<Rightarrow> 'fa frame_source \<Rightarrow> 'fa mapper \<Rightarrow> page \<Rightarrow> frame \<Rightarrow> 'fl \<Rightarrow> 'fl \<Rightarrow> 'fl
    \<Rightarrow> ((map_error + unit) \<times> 'fa mapper) rust" where
  "map_page FL tr fa st p f leaf_flags set_fl mask_fl =
     bnd (next_level_alloc FL tr fa st Level4 (unat (l4_index p)) set_fl mask_fl) (\<lambda>(r, st).
     case r of Inl err \<Rightarrow> ret (Inl err, st)
     | Inr l3 \<Rightarrow>
     bnd (next_level_alloc FL tr fa st (InMemory l3) (unat (l3_index p)) set_fl mask_fl) (\<lambda>(r, st).
     case r of Inl err \<Rightarrow> ret (Inl err, st)
     | Inr l2 \<Rightarrow>
     bnd (next_level_alloc FL tr fa st (InMemory l2) (unat (l2_index p)) set_fl mask_fl) (\<lambda>(r, st).
     case r of Inl err \<Rightarrow> ret (Inl err, st)
     | Inr l1 \<Rightarrow>
     bnd (set_addr entry_zero (frame_start f)) (\<lambda>l1e.
     bnd (write_entry st (InMemory l1) (unat (l1_index p)) (set_flags FL l1e leaf_flags)) (\<lambda>st.
     ret (Inr (), st))))))"

section \<open>The bits of an entry\<close>

definition flags_law :: "'fl flag_ops \<Rightarrow> bool" where
  "flags_law FL \<longleftrightarrow>
     (\<forall>x. x AND NOT ALL_FLAG_BITS = 0 \<longrightarrow> (\<exists>f. fl_from_bits FL x = Some f \<and> fl_bits FL f = x))
   \<and> (\<forall>f. fl_bits FL f AND NOT ALL_FLAG_BITS = 0)
   \<and> (\<forall>x. x AND NOT ALL_FLAG_BITS = 0 \<longrightarrow> fl_bits FL (fl_const FL x) = x)
   \<and> (\<forall>f g. fl_contains FL f g \<longleftrightarrow> fl_bits FL f AND fl_bits FL g = fl_bits FL g)
   \<and> (\<forall>f g. fl_bits FL (fl_and FL f g) = fl_bits FL f AND fl_bits FL g)
   \<and> (\<forall>f g. fl_bits FL (fl_or FL f g) = fl_bits FL f OR fl_bits FL g)
   \<and> fl_bits FL (fl_all FL) = ALL_FLAG_BITS"

definition present :: "page_table_entry \<Rightarrow> bool" where
  "present e \<longleftrightarrow> bit (pte_raw e) 0"

lemma flag_bits_numeral: "ALL_FLAG_BITS = 0xC0000000000001FF" "PAGE_TABLE_ENTRY_ADDR_BITS = 0xFFFFFFFFF000"
  by (simp_all add: ALL_FLAG_BITS_def FLAG_PRESENT_def FLAG_WRITABLE_def FLAG_USER_def FLAG_WRITE_THROUGH_def
      FLAG_NO_CACHE_def FLAG_ACCESSED_def FLAG_DIRTY_def FLAG_PAGE_SIZE_def FLAG_GLOBAL_def
      FLAG_EXECUTE_DISABLE_def FLAG_APP_PARENT_FROZEN_def PAGE_TABLE_ENTRY_ADDR_BITS_def)

lemma addr_flag_disjoint: "ALL_FLAG_BITS AND PAGE_TABLE_ENTRY_ADDR_BITS = 0"
  by (simp add: flag_bits_numeral)

lemma and_not_zero_iff: "x AND NOT m = 0 \<longleftrightarrow> x AND m = (x :: 'a::len word)"
  by (auto simp: bit_eq_iff bit_simps)

lemma and_zero_sub: "f AND NOT m = 0 \<Longrightarrow> m AND a = 0 \<Longrightarrow> f AND a = (0 :: 'a::len word)"
  by (auto simp: bit_eq_iff bit_simps)

lemma flags_no_addr: "flags_law FL \<Longrightarrow> fl_bits FL f AND PAGE_TABLE_ENTRY_ADDR_BITS = 0"
  using and_zero_sub [OF _ addr_flag_disjoint] by (simp add: flags_law_def)

lemma get_addr_set_flags [simp]: "flags_law FL \<Longrightarrow> get_addr (set_flags FL e f) = get_addr e"
  by (simp add: get_addr_def set_flags_def bit.conj_disj_distrib2 flags_no_addr)

lemma present_set_flags: "present (set_flags FL e f) \<longleftrightarrow> present e \<or> bit (fl_bits FL f) 0"
  by (simp add: present_def set_flags_def bit_or_iff)

lemma and_one_bit0: "x AND 1 = (1 :: u64) \<longleftrightarrow> bit x 0"
  by (simp add: and_one_eq bit_0 odd_iff_mod_2_eq_one)

lemma fl_present_bits: "flags_law FL \<Longrightarrow> fl_bits FL (fl_const FL FLAG_PRESENT) = 1"
  by (simp add: flags_law_def flag_bits_numeral FLAG_PRESENT_def)

lemma get_flags_ok:
  assumes "flags_law FL"
  obtains f where "get_flags FL e = ret f" "fl_bits FL f = pte_raw e AND ALL_FLAG_BITS"
    "fl_contains FL f (fl_const FL FLAG_PRESENT) \<longleftrightarrow> present e"
proof -
  let ?x = "pte_raw e AND ALL_FLAG_BITS"
  have "?x AND NOT ALL_FLAG_BITS = 0" by (simp add: and.assoc)
  then obtain f where f: "fl_from_bits FL ?x = Some f" "fl_bits FL f = ?x"
    using assms by (auto simp: flags_law_def)
  have "fl_contains FL f (fl_const FL FLAG_PRESENT) \<longleftrightarrow> ?x AND 1 = 1"
    using assms f by (simp add: fl_present_bits flags_law_def)
  also have "\<dots> \<longleftrightarrow> present e" by (simp add: and_one_bit0 present_def bit_and_iff flag_bits_numeral)
  finally show ?thesis using that [of f] f assms by (simp add: get_flags_def flags_law_def)
qed

text \<open>The address of a frame below \<open>2 ^ 48\<close> fits into the address bits.\<close>

lemma frame_start_nat: "wf_frame f \<Longrightarrow> a_nat (frame_start f) = 4096 * fidx f"
  unfolding wf_frame_def fidx_def by (metis dvd_mult_div_cancel)

lemma set_addr_ok:
  assumes "wf_frame f" "fidx f < 2 ^ 41"
  shows "set_addr e (frame_start f) = ret (e\<lparr>pte_raw := pte_raw e OR addr_raw (frame_start f)\<rparr>)"
proof -
  have "a_nat MAX_PHYS_ADDR = 2 ^ 53" by (simp add: MAX_PHYS_ADDR_def MAX_PHYS_ADDR_BITS_def a_nat_def)
  then have "frame_start f < MAX_PHYS_ADDR"
    unfolding nat_view frame_start_nat [OF assms(1)] using assms(2) by simp
  moreover have "address_is_aligned_to (frame_start f) 4096 = ret True"
    using address_is_aligned_to_eq [of 4096 12 "frame_start f"] by (simp add: frame_start_nat [OF assms(1)])
  ultimately show ?thesis by (simp add: set_addr_def is_aligned_to_length_def PAGE_SIZE_def)
qed

lemma set_addr_panics:
  assumes "wf_frame f" "\<not> fidx f < 2 ^ 41"
  shows "set_addr e (frame_start f) = throw AssertFailed"
proof -
  have "a_nat MAX_PHYS_ADDR = 2 ^ 53" by (simp add: MAX_PHYS_ADDR_def MAX_PHYS_ADDR_BITS_def a_nat_def)
  then have "\<not> frame_start f < MAX_PHYS_ADDR"
    unfolding nat_view frame_start_nat [OF assms(1)] using assms(2) by simp
  moreover have "address_is_aligned_to (frame_start f) 4096 = ret True"
    using address_is_aligned_to_eq [of 4096 12 "frame_start f"] by (simp add: frame_start_nat [OF assms(1)])
  ultimately show ?thesis by (simp add: set_addr_def is_aligned_to_length_def PAGE_SIZE_def)
qed

lemma frame_addr_mask:
  assumes "wf_frame f" "fidx f < 2 ^ k"
  shows "addr_raw (frame_start f) AND (mask (12 + k) AND NOT (mask 12)) = addr_raw (frame_start f)"
proof -
  let ?x = "addr_raw (frame_start f)"
  have x: "unat ?x = 4096 * fidx f" using frame_start_nat [OF assms(1)] by (simp only: a_nat_def)
  have "?x AND NOT (mask 12) = ?x"
    by (rule unat_eqI) (simp only: unat_and_not_mask x, rule round_down_id, simp)
  moreover have "?x AND mask (12 + k) = ?x"
  proof (rule unat_eqI)
    have "unat (take_bit (12 + k) ?x) = take_bit (12 + k) (unat ?x)" by (simp add: unsigned_take_bit_eq)
    also have "\<dots> = unat ?x" using assms(2) by (simp only: x take_bit_nat_eq_self_iff power_add) simp
    finally show "unat (?x AND mask (12 + k)) = unat ?x" by (simp only: take_bit_eq_mask)
  qed
  ultimately show ?thesis by (metis and.assoc)
qed

lemma addr_bits_mask: "PAGE_TABLE_ENTRY_ADDR_BITS = mask 48 AND NOT (mask 12)"
  by (simp add: flag_bits_numeral mask_eq_exp_minus_1)

lemma frame_addr_bits:
  assumes "wf_frame f" "fidx f < 2 ^ 36"
  shows "addr_raw (frame_start f) AND PAGE_TABLE_ENTRY_ADDR_BITS = addr_raw (frame_start f)"
  using frame_addr_mask [OF assms] by (simp add: addr_bits_mask)

lemma frame_addr_mod:
  assumes "wf_frame f"
  shows "unat (addr_raw (frame_start f) AND PAGE_TABLE_ENTRY_ADDR_BITS) = 4096 * (fidx f mod 2 ^ 36)"
proof -
  let ?x = "addr_raw (frame_start f)"
  have x: "unat ?x = 4096 * fidx f" using frame_start_nat [OF assms] by (simp only: a_nat_def)
  have "unat (take_bit 48 ?x) = take_bit 48 (4096 * fidx f)" by (simp only: unsigned_take_bit_eq x)
  also have "\<dots> = 4096 * (fidx f mod 2 ^ 36)"
    using mult_mod_right [of 4096 "fidx f" "2 ^ 36"] by (simp add: take_bit_eq_mod)
  finally have "unat ((?x AND mask 48) AND NOT (mask 12)) = 4096 * (fidx f mod 2 ^ 36)"
    unfolding unat_and_not_mask take_bit_eq_mask [symmetric] by (simp only:) (rule round_down_id, simp)
  then show ?thesis by (simp only: addr_bits_mask and.assoc)
qed

lemma frame_addr_no_flags:
  assumes "wf_frame f" "fidx f < 2 ^ 41"
  shows "addr_raw (frame_start f) AND ALL_FLAG_BITS = 0"
proof -
  let ?m = "mask (12 + 41) AND NOT (mask 12) :: u64"
  have "addr_raw (frame_start f) AND ALL_FLAG_BITS = addr_raw (frame_start f) AND (?m AND ALL_FLAG_BITS)"
    by (simp only: and.assoc [symmetric]) (simp only: and.assoc frame_addr_mask [OF assms])
  also have "?m AND ALL_FLAG_BITS = 0" by (simp add: flag_bits_numeral mask_eq_exp_minus_1)
  finally show ?thesis by simp
qed

lemma get_addr_set_addr:
  assumes "flags_law FL" "wf_frame f" "fidx f < 2 ^ 36" "pte_raw e AND PAGE_TABLE_ENTRY_ADDR_BITS = 0"
  shows "get_addr (set_flags FL (e\<lparr>pte_raw := pte_raw e OR addr_raw (frame_start f)\<rparr>) fl) = frame_start f"
  by (simp add: assms(1)) (simp add: get_addr_def bit.conj_disj_distrib2 assms(4) frame_addr_bits [OF assms(2,3)])

section \<open>The walk\<close>

text \<open>The entry at an index, the table an entry points to, and the table at the end of a path of indices.\<close>

definition ent :: "'fa mapper \<Rightarrow> table_ref \<Rightarrow> nat \<Rightarrow> page_table_entry" where
  "ent st t i = pt_entries (table st t) ! i"

definition next_table :: "translator \<Rightarrow> page_table_entry \<Rightarrow> table_ref option" where
  "next_table tr e = (if present e then case tr (get_addr e) of Inr (Some v) \<Rightarrow> Some (InMemory v) | _ \<Rightarrow> None
     else None)"

fun table_of :: "translator \<Rightarrow> 'fa mapper \<Rightarrow> table_ref \<Rightarrow> nat list \<Rightarrow> table_ref option" where
  "table_of tr st t [] = Some t"
| "table_of tr st t (i # is) = (case next_table tr (ent st t i) of
     None \<Rightarrow> None | Some t' \<Rightarrow> table_of tr st t' is)"

text \<open>What the processor finds for a page: the leaf entry at the end of the four indices, if it is present.\<close>

definition walk :: "translator \<Rightarrow> 'fa mapper \<Rightarrow> nat list \<Rightarrow> nat \<Rightarrow> page_table_entry option" where
  "walk tr st is j = (case table_of tr st Level4 is of
     None \<Rightarrow> None
   | Some t \<Rightarrow> if present (ent st t j) then Some (ent st t j) else None)"

definition dir_path :: "page \<Rightarrow> nat list" where
  "dir_path p = [unat (l4_index p), unat (l3_index p), unat (l2_index p)]"

definition lookup_page :: "translator \<Rightarrow> 'fa mapper \<Rightarrow> page \<Rightarrow> page_table_entry option" where
  "lookup_page tr st p = walk tr st (dir_path p) (unat (l1_index p))"

text \<open>Pages the tables cannot tell apart: the four indices leave out bits 48 to 63 of the address.\<close>

definition same_page :: "page \<Rightarrow> page \<Rightarrow> bool" where
  "same_page p q \<longleftrightarrow> dir_path p = dir_path q \<and> l1_index p = l1_index q"

lemma table_of_snoc:
  "table_of tr st t (is @ [i]) = (case table_of tr st t is of
     None \<Rightarrow> None | Some t' \<Rightarrow> next_table tr (ent st t' i))"
  by (induction "is" arbitrary: t) (auto split: option.splits)

lemma table_of_cong:
  "(\<And>t i. next_table tr (ent st' t i) = next_table tr (ent st t i)) \<Longrightarrow> table_of tr st' t p = table_of tr st t p"
  by (induction p arbitrary: t) (auto split: option.splits)

text \<open>Paths of at most three indices.\<close>

definition path_ok :: "nat list \<Rightarrow> bool" where
  "path_ok p \<longleftrightarrow> length p \<le> 3 \<and> (\<forall>i \<in> set p. i < 512)"

lemma path_ok_simps [simp]: "path_ok []" "path_ok (p @ [i]) \<longleftrightarrow> path_ok p \<and> length p < 3 \<and> i < 512"
  by (auto simp: path_ok_def)

lemma index_less [simp]: "unat (l4_index p) < 512" "unat (l3_index p) < 512" "unat (l2_index p) < 512" "unat (l1_index p) < 512"
  unfolding l1_index_def l2_index_def l3_index_def l4_index_def nine_bits by simp_all

lemma path_ok_dir_path [simp]: "path_ok (dir_path p)" and length_dir_path [simp]: "length (dir_path p) = 3"
  by (simp_all add: path_ok_def dir_path_def)

section \<open>The invariant of the tables\<close>

text \<open>
  What the comments of \<^verbatim>\<open>Mapper::new\<close> and \<^verbatim>\<open>next_level_alloc\<close> demand: a table has 512 entries; no two paths lead
  to the same table; an absent entry holds no address; the translator answers for a present entry
  without panic; and the frames \<open>F\<close> still to be handed out are addressable, are translated to
  distinct aligned addresses, and hold no table in use.
\<close>

definition tr_answers :: "translator \<Rightarrow> phys_address \<Rightarrow> bool" where
  "tr_answers tr a \<longleftrightarrow> (\<exists>v. tr a = ret v \<and> (\<forall>x. v = Some x \<longrightarrow> 0 < a_nat x \<and> 4096 dvd a_nat x))"

definition frames_ok :: "translator \<Rightarrow> nat set \<Rightarrow> bool" where
  "frames_ok tr F \<longleftrightarrow> (\<forall>n \<in> F. n < 2 ^ 36 \<and> tr_answers tr (frame_start (frame_at n)))
    \<and> (\<forall>n \<in> F. \<forall>m \<in> F. \<forall>v. tr (frame_start (frame_at n)) = ret (Some v)
        \<and> tr (frame_start (frame_at m)) = ret (Some v) \<longrightarrow> n = m)"

definition tables_ok :: "translator \<Rightarrow> 'fa mapper \<Rightarrow> bool" where
  "tables_ok tr st \<longleftrightarrow> (\<forall>t. length (pt_entries (table st t)) = 512)
    \<and> (\<forall>p q t. path_ok p \<and> path_ok q \<and> table_of tr st Level4 p = Some t \<and> table_of tr st Level4 q = Some t
        \<longrightarrow> p = q)
    \<and> (\<forall>p t i. path_ok (p @ [i]) \<and> table_of tr st Level4 p = Some t \<longrightarrow>
        (if present (ent st t i) then tr_answers tr (get_addr (ent st t i))
         else pte_raw (ent st t i) AND PAGE_TABLE_ENTRY_ADDR_BITS = 0))"

definition unused :: "translator \<Rightarrow> 'fa mapper \<Rightarrow> nat set \<Rightarrow> bool" where
  "unused tr st F \<longleftrightarrow> (\<forall>n \<in> F. \<forall>v p. tr (frame_start (frame_at n)) = ret (Some v) \<and> path_ok p
     \<longrightarrow> table_of tr st Level4 p \<noteq> Some (InMemory v))"

lemma tables_okD:
  assumes "tables_ok tr st"
  shows "length (pt_entries (table st t)) = 512"
    "path_ok p \<Longrightarrow> path_ok q \<Longrightarrow> table_of tr st Level4 p = Some t \<Longrightarrow> table_of tr st Level4 q = Some t \<Longrightarrow> p = q"
    "path_ok (p @ [i]) \<Longrightarrow> table_of tr st Level4 p = Some t \<Longrightarrow> present (ent st t i) \<Longrightarrow> tr_answers tr (get_addr (ent st t i))"
    "path_ok (p @ [i]) \<Longrightarrow> table_of tr st Level4 p = Some t \<Longrightarrow> \<not> present (ent st t i) \<Longrightarrow>
      pte_raw (ent st t i) AND PAGE_TABLE_ENTRY_ADDR_BITS = 0"
  using assms unfolding tables_ok_def by (blast, blast, metis, metis)

lemma tables_okI:
  assumes "\<And>t. length (pt_entries (table st t)) = 512"
    "\<And>p q t. path_ok p \<Longrightarrow> path_ok q \<Longrightarrow> table_of tr st Level4 p = Some t \<Longrightarrow> table_of tr st Level4 q = Some t \<Longrightarrow> p = q"
    "\<And>p t i. path_ok (p @ [i]) \<Longrightarrow> table_of tr st Level4 p = Some t \<Longrightarrow> present (ent st t i) \<Longrightarrow>
      tr_answers tr (get_addr (ent st t i))"
    "\<And>p t i. path_ok (p @ [i]) \<Longrightarrow> table_of tr st Level4 p = Some t \<Longrightarrow> \<not> present (ent st t i) \<Longrightarrow>
      pte_raw (ent st t i) AND PAGE_TABLE_ENTRY_ADDR_BITS = 0"
  shows "tables_ok tr st"
  using assms unfolding tables_ok_def by metis

lemma translate_answers:
  assumes "tr_answers tr a"
  shows "translate tr a = ret (case tr a of Inr (Some v) \<Rightarrow> Inr v | _ \<Rightarrow> Inl TranslationFailed)"
proof -
  obtain v where v: "tr a = ret v" "\<And>x. v = Some x \<Longrightarrow> 0 < a_nat x \<and> 4096 dvd a_nat x"
    using assms by (auto simp: tr_answers_def)
  show ?thesis
  proof (cases v)
    case None
    then show ?thesis using v by (simp add: translate_def)
  next
    case (Some x)
    then have x: "0 < a_nat x" "4096 dvd a_nat x" using v(2) by auto
    have "address_is_aligned_to x 4096 = ret True"
      using address_is_aligned_to_eq [of 4096 12 x] x(2) by simp
    moreover have "\<not> is_zero x" using x(1) by (auto simp only: is_zero_def a_nat_def unat_0)
    ultimately show ?thesis using v(1) Some by (simp add: translate_def)
  qed
qed

lemma table_put_table:
  "table (put_table st t pt) t' = (if t' = t then pt else table st t')"
  "mp_frames (put_table st t pt) = mp_frames st"
  by (auto simp: table_def put_table_def split: table_ref.splits)

lemma write_entry_ok:
  assumes "\<And>t. length (pt_entries (table st t)) = 512" "i < 512"
  shows "\<exists>st'. write_entry st t i e = ret st'
    \<and> (\<forall>t' j. ent st' t' j = (if t' = t \<and> j = i then e else ent st t' j))
    \<and> (\<forall>t'. length (pt_entries (table st' t')) = 512) \<and> mp_frames st' = mp_frames st"
  using assms by (simp add: write_entry_def ent_def table_put_table)

lemma read_entry_ok:
  "(\<And>t. length (pt_entries (table st t)) = 512) \<Longrightarrow> i < 512 \<Longrightarrow> read_entry st t i = ret (ent st t i)"
  by (simp add: read_entry_def ent_def)

text \<open>Only flags of an entry change.\<close>

lemma flag_update_keeps:
  assumes ok: "tables_ok tr st" and st': "\<And>t' j. ent st' t' j = (if t' = t \<and> j = i then e else ent st t' j)"
    "\<And>t'. length (pt_entries (table st' t')) = 512"
    and e: "present e = present (ent st t i)" "get_addr e = get_addr (ent st t i)"
  shows "table_of tr st' t0 p = table_of tr st t0 p"
    "present (ent st t i) \<Longrightarrow> tables_ok tr st'"
proof -
  have same: "table_of tr st' t0 p = table_of tr st t0 p" for t0 p
    by (rule table_of_cong) (simp add: st' next_table_def e)
  then show "table_of tr st' t0 p = table_of tr st t0 p" .
  assume "present (ent st t i)"
  then show "tables_ok tr st'"
    using tables_okD [OF ok] e st' by (intro tables_okI) (auto simp: same split: if_splits)
qed

lemma walk_other_table:
  assumes "tables_ok tr st" "\<And>p. path_ok p \<Longrightarrow> table_of tr st' Level4 p = table_of tr st Level4 p"
    and "\<And>t' j. t' \<noteq> t \<Longrightarrow> ent st' t' j = ent st t' j"
    and "path_ok q" "length q < 3" "table_of tr st Level4 q = Some t"
    and "path_ok is" "length is = 3"
  shows "walk tr st' is j = walk tr st is j"
proof -
  have "table_of tr st Level4 is \<noteq> Some t" using tables_okD(2) [OF assms(1), of q "is" t] assms(4-8) by auto
  then show ?thesis using assms(2,3,7) by (auto simp: walk_def split: option.splits)
qed

text \<open>A new, empty table is linked into an entry that was absent.\<close>

lemma new_table_path:
  assumes ok: "tables_ok tr st"
    and q: "path_ok (q @ [i])" "table_of tr st Level4 q = Some t"
    and abs: "\<not> present (ent st t i)" and e: "next_table tr e = Some (InMemory v)"
    and new: "\<And>p. path_ok p \<Longrightarrow> table_of tr st Level4 p \<noteq> Some (InMemory v)"
    and st': "\<And>t' j. j < 512 \<Longrightarrow> ent st' t' j = (if t' = t \<and> j = i then e
      else if t' = InMemory v then entry_zero else ent st t' j)"
  shows "path_ok p \<Longrightarrow> table_of tr st' Level4 p = (if p = q @ [i] then Some (InMemory v) else table_of tr st Level4 p)"
proof (induction p rule: rev_induct)
  case (snoc j p)
  then have p: "path_ok p" "length p < 3" "j < 512" by auto
  show ?case
  proof (cases "p = q @ [i]")
    case True
    have "InMemory v \<noteq> t" using new [of q] q by auto
    then have "next_table tr (ent st' (InMemory v) j) = None"
      using p(3) by (simp add: st' next_table_def present_def entry_zero_def)
    moreover have "table_of tr st' Level4 p = Some (InMemory v)" using snoc.IH [OF p(1)] True by presburger
    moreover have "table_of tr st Level4 p = None"
      unfolding True table_of_snoc q(2) using abs by (simp add: next_table_def)
    moreover have "p @ [j] \<noteq> q @ [i]" using True by simp
    ultimately show ?thesis by (simp only: table_of_snoc option.case if_False)
  next
    case False
    then have IH: "table_of tr st' Level4 p = table_of tr st Level4 p" using snoc.IH p by simp
    show ?thesis
    proof (cases "table_of tr st Level4 p")
      case None
      then show ?thesis using IH q(2) by (auto simp: table_of_snoc)
    next
      case (Some t')
      have nv: "t' \<noteq> InMemory v" using new [OF p(1)] Some by auto
      have "t' = t \<Longrightarrow> p = q" using tables_okD(2) [OF ok p(1), of q t] Some q by auto
      then show ?thesis using IH Some nv p(3) e q(2) by (auto simp: table_of_snoc st')
    qed
  qed
qed simp

lemma new_table_keeps:
  assumes ok: "tables_ok tr st" and fr: "frames_ok tr F" and un: "unused tr st F"
    and q: "path_ok (q @ [i])" "table_of tr st Level4 q = Some t"
    and abs: "\<not> present (ent st t i)"
    and n: "n \<in> F" "tr (frame_start (frame_at n)) = ret (Some v)"
    and e: "present e" "get_addr e = frame_start (frame_at n)"
    and st0: "\<forall>t' j. j < 512 \<longrightarrow> ent st' t' j = (if t' = t \<and> j = i then e
      else if t' = InMemory v then entry_zero else ent st t' j)"
      "\<And>t'. length (pt_entries (table st' t')) = 512"
  shows "tables_ok tr st'" "unused tr st' (F - {n})"
    "path_ok p \<Longrightarrow> table_of tr st' Level4 p = (if p = q @ [i] then Some (InMemory v) else table_of tr st Level4 p)"
    "path_ok is \<Longrightarrow> length is = 3 \<Longrightarrow> j < 512 \<Longrightarrow> walk tr st' is j = walk tr st is j"
proof -
  note st' = st0(1) [rule_format] st0(2)
  have new: "table_of tr st Level4 p \<noteq> Some (InMemory v)" if "path_ok p" for p
    using un n that by (auto simp: unused_def)
  have nt: "next_table tr e = Some (InMemory v)" using e n(2) by (simp add: next_table_def)
  have tab: "table_of tr st' Level4 p = (if p = q @ [i] then Some (InMemory v) else table_of tr st Level4 p)"
    if "path_ok p" for p
    by (rule new_table_path [OF ok q abs nt new st'(1) that])
  then show "path_ok p \<Longrightarrow> table_of tr st' Level4 p = (if p = q @ [i] then Some (InMemory v) else table_of tr st Level4 p)" .
  have tv: "t \<noteq> InMemory v" using new [of q] q by auto
  show "tables_ok tr st'"
  proof (rule tables_okI)
    fix p p' t' assume "path_ok p" "path_ok p'" "table_of tr st' Level4 p = Some t'" "table_of tr st' Level4 p' = Some t'"
    then show "p = p'" using tab new tables_okD(2) [OF ok] by (metis option.inject)
  next
    fix p t' j assume p: "path_ok (p @ [j])" "table_of tr st' Level4 p = Some t'" "present (ent st' t' j)"
    then have j: "path_ok p" "j < 512" by auto
    show "tr_answers tr (get_addr (ent st' t' j))"
    proof (cases "t' = t \<and> j = i \<or> t' = InMemory v")
      case True
      then show ?thesis using p(3) j tv e(2) fr n(1) by (auto simp: st' frames_ok_def present_def entry_zero_def)
    next
      case False
      then have "table_of tr st Level4 p = Some t'" using tab [OF j(1)] p(2) by (auto split: if_splits)
      then show ?thesis using tables_okD(3) [OF ok p(1)] False p(3) j by (auto simp: st')
    qed
  next
    fix p t' j assume p: "path_ok (p @ [j])" "table_of tr st' Level4 p = Some t'" "\<not> present (ent st' t' j)"
    then have j: "path_ok p" "j < 512" by auto
    show "pte_raw (ent st' t' j) AND PAGE_TABLE_ENTRY_ADDR_BITS = 0"
    proof (cases "t' = t \<and> j = i \<or> t' = InMemory v")
      case True
      then show ?thesis using p(3) j tv e(1) by (auto simp: st' entry_zero_def)
    next
      case False
      then have "table_of tr st Level4 p = Some t'" using tab [OF j(1)] p(2) by (auto split: if_splits)
      then show ?thesis using tables_okD(4) [OF ok p(1)] False p(3) j by (auto simp: st')
    qed
  qed (rule st')
  show "unused tr st' (F - {n})"
    unfolding unused_def
  proof (intro ballI allI impI, elim conjE)
    fix m w p assume m: "m \<in> F - {n}" "tr (frame_start (frame_at m)) = ret (Some w)" "path_ok p"
    have "w \<noteq> v" using fr m n unfolding frames_ok_def by (metis DiffE insertI1)
    moreover have "table_of tr st Level4 p \<noteq> Some (InMemory w)" using un m by (auto simp: unused_def)
    ultimately show "table_of tr st' Level4 p \<noteq> Some (InMemory w)" using tab [OF m(3)] by auto
  qed
  show "walk tr st' is j = walk tr st is j" if "path_ok is" "length is = 3" "j < 512" for "is" j
  proof (cases "is = q @ [i]")
    case True
    have "table_of tr st Level4 is = None" using True q(2) abs by (simp add: table_of_snoc next_table_def)
    moreover have "\<not> present (ent st' (InMemory v) j)" using tv that(3) by (simp add: st' present_def entry_zero_def)
    ultimately show ?thesis using tab [OF that(1)] True by (simp add: walk_def)
  next
    case False
    have "length q < 3" "path_ok q" using q(1) by auto
    then have "table_of tr st Level4 is \<noteq> Some t" using tables_okD(2) [OF ok, of q "is" t] q(2) that by auto
    then show ?thesis using tab [OF that(1)] new [OF that(1)] False that(3)
      by (auto simp: walk_def st' split: option.splits)
  qed
qed

lemma leaf_write_keeps:
  assumes ok: "tables_ok tr st" and is3: "path_ok is" "length is = 3" "table_of tr st Level4 is = Some t"
    and st': "\<And>t' j. ent st' t' j = (if t' = t \<and> j = i then e else ent st t' j)"
      "\<And>t'. length (pt_entries (table st' t')) = 512"
    and e: "present e"
  shows "path_ok p \<Longrightarrow> table_of tr st' Level4 p = table_of tr st Level4 p" "tables_ok tr st'"
    "unused tr st F \<Longrightarrow> unused tr st' F"
    "path_ok js \<Longrightarrow> length js = 3 \<Longrightarrow>
      walk tr st' js j = (if js = is \<and> j = i then Some e else walk tr st js j)"
proof -
  have inner: "t' \<noteq> t" if "path_ok p" "length p < 3" "table_of tr st Level4 p = Some t'" for p t'
    using tables_okD(2) [OF ok that(1) is3(1)] that is3 by auto
  have tab: "path_ok p \<Longrightarrow> table_of tr st' Level4 p = table_of tr st Level4 p" for p
  proof (induction p rule: rev_induct)
    case (snoc j p)
    then show ?case using inner [of p] by (auto simp: table_of_snoc st' split: option.splits)
  qed simp
  then show "path_ok p \<Longrightarrow> table_of tr st' Level4 p = table_of tr st Level4 p" .
  have same: "table_of tr st Level4 p = Some t' \<and> ent st' t' j = ent st t' j"
    if "path_ok (p @ [j])" "table_of tr st' Level4 p = Some t'" for p t' j
    using that tab [of p] inner [of p t'] by (auto simp: st'(1))
  show "tables_ok tr st'"
  proof (rule tables_okI)
    fix p q t' assume "path_ok p" "path_ok q" "table_of tr st' Level4 p = Some t'" "table_of tr st' Level4 q = Some t'"
    then show "p = q" using tab tables_okD(2) [OF ok] by metis
  qed (use same tables_okD(3,4) [OF ok] st'(2) in \<open>metis+\<close>)
  show "unused tr st F \<Longrightarrow> unused tr st' F" using tab by (simp add: unused_def)
  show "walk tr st' js j = (if js = is \<and> j = i then Some e else walk tr st js j)"
    if "path_ok js" "length js = 3"
  proof (cases "table_of tr st Level4 js")
    case None
    then show ?thesis using tab [OF that(1)] is3(3) by (auto simp: walk_def)
  next
    case (Some t')
    then have "t' = t \<longleftrightarrow> js = is" using is3 tables_okD(2) [OF ok that(1) is3(1)] by auto
    then show ?thesis using Some e by (simp add: walk_def st'(1) tab [OF that(1)])
  qed
qed

section \<open>Sources of frames\<close>

text \<open>
  The invariant of a mapper: of its tables, its frames and its translator together. \<open>avail\<close> are the
  frames the source of frames can still hand out, \<open>finv\<close> is its own invariant.
\<close>

definition mapper_inv :: "('fa \<Rightarrow> nat set) \<Rightarrow> ('fa \<Rightarrow> bool) \<Rightarrow> translator \<Rightarrow> 'fa mapper \<Rightarrow> bool" where
  "mapper_inv avail finv tr st \<longleftrightarrow> tables_ok tr st \<and> finv (mp_frames st)
    \<and> frames_ok tr (avail (mp_frames st)) \<and> unused tr st (avail (mp_frames st))"

text \<open>The paths that lead to a table, and the three that a page needs.\<close>

definition paths :: "translator \<Rightarrow> 'fa mapper \<Rightarrow> nat list set" where
  "paths tr st = {p. path_ok p \<and> table_of tr st Level4 p \<noteq> None}"

definition dir_prefixes :: "page \<Rightarrow> nat list set" where
  "dir_prefixes p = {[unat (l4_index p)], [unat (l4_index p), unat (l3_index p)], [unat (l4_index p), unat (l3_index p), unat (l2_index p)]}"

lemma finite_paths [simp]: "finite (paths tr st)" "finite (dir_prefixes p)"
proof -
  have "paths tr st \<subseteq> {p. set p \<subseteq> {..<512} \<and> length p \<le> 3}" by (auto simp: paths_def path_ok_def)
  then show "finite (paths tr st)" by (rule finite_subset) (simp add: finite_lists_length_le)
qed (simp add: dir_prefixes_def)

text \<open>
  A step that affects no page; and one that in addition makes tables for the paths \<open>Q\<close>, each that is new from one
  frame.
\<close>

definition harmless :: "('fa \<Rightarrow> nat set) \<Rightarrow> ('fa \<Rightarrow> bool) \<Rightarrow> translator \<Rightarrow> 'fa mapper \<Rightarrow> 'fa mapper \<Rightarrow> bool" where
  "harmless avail finv tr st st' \<longleftrightarrow> mapper_inv avail finv tr st'
    \<and> (\<forall>is j. path_ok is \<and> length is = 3 \<and> j < 512 \<longrightarrow> walk tr st' is j = walk tr st is j)"

definition makes_tables :: "('fa \<Rightarrow> nat set) \<Rightarrow> translator \<Rightarrow> nat list set \<Rightarrow> 'fa mapper \<Rightarrow> 'fa mapper \<Rightarrow> bool" where
  "makes_tables avail tr Q st st' \<longleftrightarrow> paths tr st' = paths tr st \<union> Q
    \<and> card (avail (mp_frames st)) = card (avail (mp_frames st')) + card (Q - paths tr st)"

definition level_step :: "('fa \<Rightarrow> nat set) \<Rightarrow> ('fa \<Rightarrow> bool) \<Rightarrow> translator \<Rightarrow> nat list set \<Rightarrow> 'fa mapper \<Rightarrow> 'fa mapper \<Rightarrow> bool" where
  "level_step avail finv tr Q st st' \<longleftrightarrow> harmless avail finv tr st st' \<and> makes_tables avail tr Q st st'"

text \<open>The error names its cause.\<close>

definition map_blame :: "('fa \<Rightarrow> nat set) \<Rightarrow> translator \<Rightarrow> 'fa mapper \<Rightarrow> nat list \<Rightarrow> map_error \<Rightarrow> bool" where
  "map_blame avail tr st p err = (case err of
     FrameAllocationFailed \<Rightarrow> avail (mp_frames st) = {} \<and> p \<notin> paths tr st | TranslationFailed \<Rightarrow> \<exists>a. tr a = ret None)"

definition reached :: "('fa \<Rightarrow> nat set) \<Rightarrow> ('fa \<Rightarrow> bool) \<Rightarrow> translator \<Rightarrow> 'fa mapper \<Rightarrow> nat list
    \<Rightarrow> (map_error + virt_address) \<times> 'fa mapper \<Rightarrow> bool" where
  "reached avail finv tr st p = (\<lambda>(r, st'). harmless avail finv tr st st' \<and> (case r of
     Inl err \<Rightarrow> map_blame avail tr st p err
   | Inr v \<Rightarrow> makes_tables avail tr {p} st st' \<and> table_of tr st' Level4 p = Some (InMemory v)))"

text \<open>
  The result of \<^verbatim>\<open>map\<close> for \<open>p\<close> and \<open>f\<close>: on success the page has the entry with the frame's address and the
  leaf flags, and one frame was used for each table that was missing; on failure it has what it had; and every
  other page has what it had in either case.
\<close>

definition mapped :: "('fa \<Rightarrow> nat set) \<Rightarrow> ('fa \<Rightarrow> bool) \<Rightarrow> translator \<Rightarrow> 'fa mapper \<Rightarrow> page \<Rightarrow> frame \<Rightarrow> u64
    \<Rightarrow> (map_error + unit) \<times> 'fa mapper \<Rightarrow> bool" where
  "mapped avail finv tr st p f bits = (\<lambda>(r, st'). mapper_inv avail finv tr st'
     \<and> (\<forall>q. lookup_page tr st' q =
         (if r = Inr () \<and> same_page q p then Some \<lparr>pte_raw = addr_raw (frame_start f) OR bits\<rparr>
          else lookup_page tr st q))
     \<and> (r = Inl TranslationFailed \<longrightarrow> (\<exists>a. tr a = ret None))
     \<and> (r = Inl FrameAllocationFailed \<longrightarrow> card (avail (mp_frames st)) < card (dir_prefixes p - paths tr st))
     \<and> (r = Inr () \<longrightarrow> makes_tables avail tr (dir_prefixes p) st st'))"

lemma harmless_refl: "mapper_inv avail finv tr st \<Longrightarrow> harmless avail finv tr st st"
  by (simp add: harmless_def)

lemma level_step_refl: "mapper_inv avail finv tr st \<Longrightarrow> level_step avail finv tr {} st st"
  by (simp add: level_step_def harmless_refl makes_tables_def)

lemma makes_tables_trans:
  assumes "makes_tables avail tr Q st st1" "makes_tables avail tr R st1 st2" "finite Q" "finite R"
  shows "makes_tables avail tr (R \<union> Q) st st2"
proof -
  have "(R \<union> Q) - paths tr st = (Q - paths tr st) \<union> (R - (paths tr st \<union> Q))" by auto
  moreover have "card ((Q - paths tr st) \<union> (R - (paths tr st \<union> Q))) = card (Q - paths tr st) + card (R - (paths tr st \<union> Q))"
    using assms(3,4) by (intro card_Un_disjoint) auto
  ultimately show ?thesis using assms(1,2) by (auto simp: makes_tables_def)
qed

lemma level_step_trans:
  assumes "level_step avail finv tr Q st st1" "harmless avail finv tr st1 st2" "makes_tables avail tr {p} st1 st2" "finite Q"
  shows "level_step avail finv tr (insert p Q) st st2"
  using makes_tables_trans [of avail tr Q st st1 "{p}" st2] assms by (auto simp: level_step_def harmless_def)

lemma harmless_lookup: "harmless avail finv tr st st' \<Longrightarrow> lookup_page tr st' q = lookup_page tr st q"
  by (simp add: harmless_def lookup_page_def path_ok_dir_path index_less)

lemma level_step_failed:
  assumes "level_step avail finv tr Q st st1" "harmless avail finv tr st1 st2" "map_blame avail tr st1 x err"
    and "Q \<subseteq> dir_prefixes p" "x \<in> dir_prefixes p"
  shows "mapped avail finv tr st p f bits (Inl err, st2)"
proof -
  have "card (avail (mp_frames st)) < card (dir_prefixes p - paths tr st)" if "avail (mp_frames st1) = {}" "x \<notin> paths tr st1"
  proof -
    have "card (avail (mp_frames st)) = card (Q - paths tr st)" "x \<notin> Q" "x \<notin> paths tr st"
      using assms(1) that by (auto simp: level_step_def makes_tables_def)
    moreover have "Q - paths tr st \<subset> dir_prefixes p - paths tr st" using assms(4,5) calculation(2,3) by blast
    then have "card (Q - paths tr st) < card (dir_prefixes p - paths tr st)" by (intro psubset_card_mono) auto
    ultimately show ?thesis by simp
  qed
  moreover have "lookup_page tr st2 q = lookup_page tr st q" for q
    using assms(1,2) harmless_lookup by (metis level_step_def)
  ultimately show ?thesis using assms(2,3)
    unfolding mapped_def map_blame_def by (auto simp: harmless_def split: map_error.splits)
qed

text \<open>What \<^verbatim>\<open>Mapper\<close> demands of its \<^verbatim>\<open>frame_allocator\<close>: it hands out each of its frames at most once.\<close>

locale frame_source =
  fixes take :: "'fa \<Rightarrow> (frame option \<times> 'fa) rust"
    and avail :: "'fa \<Rightarrow> nat set"
    and finv :: "'fa \<Rightarrow> bool"
  assumes take_ok: "finv s \<Longrightarrow> \<exists>r s'. take s = ret (r, s') \<and> finv s' \<and> (case r of
      None \<Rightarrow> avail s' = avail s \<and> avail s \<subseteq> {2 ^ 52 - 1}
    | Some f \<Rightarrow> wf_frame f \<and> fidx f \<in> avail s \<and> avail s' = avail s - {fidx f})"
    and finite_avail: "finv s \<Longrightarrow> finite (avail s)"
begin

lemma next_level_present:
  assumes FL: "flags_law FL" and inv: "mapper_inv avail finv tr st"
    and q: "path_ok (q @ [i])" "table_of tr st Level4 q = Some t" and pr: "present (ent st t i)"
  shows "runs (next_level_alloc FL tr take st t i set_fl mask_fl) (reached avail finv tr st (q @ [i]))"
proof -
  let ?e = "ent st t i"
  have ok: "tables_ok tr st" using inv by (auto simp: mapper_inv_def)
  have i: "i < 512" and q3: "path_ok q" "length q < 3" using q(1) by auto
  obtain fl where fl: "get_flags FL ?e = ret fl" "fl_contains FL fl (fl_const FL FLAG_PRESENT) \<longleftrightarrow> present ?e"
    by (rule get_flags_ok [OF FL])
  let ?e' = "set_flags FL ?e (fl_or FL (fl_and FL fl mask_fl) set_fl)"
  obtain st' where w: "write_entry st t i ?e' = ret st'"
    "\<And>t' j. ent st' t' j = (if t' = t \<and> j = i then ?e' else ent st t' j)"
    "\<And>t'. length (pt_entries (table st' t')) = 512" "mp_frames st' = mp_frames st"
    using write_entry_ok [OF tables_okD(1) [OF ok] i, of t ?e'] by blast
  have e': "present ?e' = present ?e" "get_addr ?e' = get_addr ?e"
    using pr FL by (simp_all add: present_set_flags)
  note keep = flag_update_keeps [OF ok w(2,3) e']
  have inv': "mapper_inv avail finv tr st'" using keep pr inv w(4) by (simp add: mapper_inv_def unused_def)
  have "walk tr st' is j = walk tr st is j" if "path_ok is" "length is = 3" for "is" j
    by (rule walk_other_table [OF ok keep(1) _ q3 q(2) that]) (simp add: w(2))
  then have step: "harmless avail finv tr st st'" using inv' by (simp add: harmless_def)
  have "tr_answers tr (get_addr ?e)" by (rule tables_okD(3) [OF ok q pr])
  then have "translate tr (get_addr ?e') = ret (case tr (get_addr ?e) of Inr (Some v) \<Rightarrow> Inr v | _ \<Rightarrow> Inl TranslationFailed)"
    using e'(2) by (simp add: translate_answers)
  then have "next_level_alloc FL tr take st t i set_fl mask_fl
      = ret (case tr (get_addr ?e) of Inr (Some v) \<Rightarrow> Inr v | _ \<Rightarrow> Inl TranslationFailed, st')"
    using fl pr w(1) i by (simp add: next_level_alloc_def read_entry_ok [OF tables_okD(1) [OF ok]] Let_def)
  moreover have "table_of tr st' Level4 (q @ [i]) = Some (InMemory v)" if "tr (get_addr ?e) = ret (Some v)" for v
    unfolding keep(1) unfolding table_of_snoc using that pr q(2) by (simp add: next_table_def)
  moreover have "\<exists>v. tr (get_addr ?e) = ret v" using tables_okD(3) [OF ok q pr] by (auto simp: tr_answers_def)
  moreover have "makes_tables avail tr {q @ [i]} st st'" if "tr (get_addr ?e) = ret (Some v)" for v
  proof -
    have "q @ [i] \<in> paths tr st" using that pr q by (simp add: paths_def table_of_snoc next_table_def)
    then show ?thesis using keep(1) w(4) by (auto simp: makes_tables_def paths_def)
  qed
  ultimately show ?thesis using step by (auto simp: reached_def map_blame_def split: sum.splits option.splits)
qed

text \<open>Taking a frame changes nothing but the frames.\<close>

lemma table_frames: "table (st\<lparr>mp_frames := s\<rparr>) t = table st t"
  by (simp add: table_def split: table_ref.splits)

lemma table_of_frames: "table_of tr (st\<lparr>mp_frames := s\<rparr>) t p = table_of tr st t p"
  by (rule table_of_cong) (simp add: ent_def table_def split: table_ref.splits)

lemma frames_update_step:
  assumes inv: "mapper_inv avail finv tr st" and s: "finv s" "avail s \<subseteq> avail (mp_frames st)"
  shows "harmless avail finv tr st (st\<lparr>mp_frames := s\<rparr>)"
proof -
  have e: "ent (st\<lparr>mp_frames := s\<rparr>) = ent st" "table (st\<lparr>mp_frames := s\<rparr>) = table st"
    by (simp_all add: fun_eq_iff ent_def table_def split: table_ref.splits)
  have "frames_ok tr (avail s)" using inv s(2) unfolding mapper_inv_def frames_ok_def by blast
  moreover have "unused tr st (avail s)" using inv s(2) unfolding mapper_inv_def unused_def by blast
  moreover have "tables_ok tr (st\<lparr>mp_frames := s\<rparr>) = tables_ok tr st"
    by (simp only: tables_ok_def table_of_frames e)
  ultimately have "mapper_inv avail finv tr (st\<lparr>mp_frames := s\<rparr>)" using inv s(1)
    by (simp add: mapper_inv_def unused_def table_of_frames)
  then show ?thesis unfolding harmless_def by (simp only: walk_def table_of_frames e) simp
qed

lemma next_level_absent:
  assumes FL: "flags_law FL" and inv: "mapper_inv avail finv tr st"
    and q: "path_ok (q @ [i])" "table_of tr st Level4 q = Some t" and abs: "\<not> present (ent st t i)"
  shows "runs (next_level_alloc FL tr take st t i set_fl mask_fl) (reached avail finv tr st (q @ [i]))"
proof -
  let ?e = "ent st t i" and ?F = "avail (mp_frames st)"
  have ok: "tables_ok tr st" and fr: "frames_ok tr ?F" and un: "unused tr st ?F"
    using inv by (auto simp: mapper_inv_def)
  have i: "i < 512" using q(1) by auto
  obtain fl where fl: "get_flags FL ?e = ret fl" "fl_contains FL fl (fl_const FL FLAG_PRESENT) \<longleftrightarrow> present ?e"
    by (rule get_flags_ok [OF FL])
  obtain r s where r: "take (mp_frames st) = ret (r, s)" "finv s"
    "case r of None \<Rightarrow> avail s = ?F \<and> ?F \<subseteq> {2 ^ 52 - 1} | Some f \<Rightarrow> wf_frame f \<and> fidx f \<in> ?F \<and> avail s = ?F - {fidx f}"
    using take_ok [of "mp_frames st"] inv unfolding mapper_inv_def by blast
  let ?st = "st\<lparr>mp_frames := s\<rparr>"
  have step: "harmless avail finv tr st ?st" using r by (intro frames_update_step [OF inv]) (auto split: option.splits)
  have out: "q @ [i] \<notin> paths tr st" using q(2) abs by (simp add: paths_def table_of_snoc next_table_def)
  show ?thesis
  proof (cases r)
    case None
    then have "?F = {}" using r(3) fr by (auto simp: frames_ok_def subset_singleton_iff)
    then show ?thesis using None fl abs r(1) step i out
      by (simp add: map_blame_def next_level_alloc_def read_entry_ok [OF tables_okD(1) [OF ok]] Let_def reached_def)
  next
    case (Some f)
    then have f: "wf_frame f" "fidx f \<in> ?F" "avail s = ?F - {fidx f}" using r(3) by auto
    have fa: "frame_at (fidx f) = f" by (rule frame_at_fidx [OF f(1)])
    have lt: "fidx f < 2 ^ 36" and ans: "tr_answers tr (frame_start f)"
      using fr f(2) fa unfolding frames_ok_def by fastforce+
    show ?thesis
    proof (cases "\<exists>v. tr (frame_start f) = ret (Some v)")
      case False
      then have none: "tr (frame_start f) = ret None" using ans by (auto simp: tr_answers_def)
      then have "translate tr (frame_start f) = ret (Inl TranslationFailed)"
        using translate_answers [OF ans] by simp
      then show ?thesis using none fl abs r(1) Some step i
        by (auto simp: map_blame_def next_level_alloc_def read_entry_ok [OF tables_okD(1) [OF ok]] Let_def reached_def)
    next
      case True
      then obtain v where v: "tr (frame_start f) = ret (Some v)" by blast
      then have tl: "translate tr (frame_start f) = ret (Inr v)" using translate_answers [OF ans] by simp
      let ?st0 = "put_table ?st (InMemory v) page_table_zero"
      have tv: "t \<noteq> InMemory v" using un f(2) v fa q by (auto simp: unused_def)
      have tab0: "table ?st0 t' = (if t' = InMemory v then page_table_zero else table st t')" for t'
        by (simp add: table_put_table table_frames)
      have len0: "length (pt_entries (table ?st0 t')) = 512" for t'
        unfolding tab0 using tables_okD(1) [OF ok, of t'] by (simp add: page_table_zero_def)
      have ent0: "ent ?st0 t' j = (if t' = InMemory v then entry_zero else ent st t' j)" if "j < 512" for t' j
        unfolding ent_def tab0 using that by (simp add: page_table_zero_def)
      let ?e' = "set_flags FL (?e\<lparr>pte_raw := pte_raw ?e OR addr_raw (frame_start f)\<rparr>) (fl_or FL set_fl (fl_const FL FLAG_PRESENT))"
      obtain st' where w: "write_entry ?st0 t i ?e' = ret st'"
        "\<And>t' j. ent st' t' j = (if t' = t \<and> j = i then ?e' else ent ?st0 t' j)"
        "\<And>t'. length (pt_entries (table st' t')) = 512" "mp_frames st' = mp_frames ?st0"
        using write_entry_ok [OF len0 i, of t ?e'] by blast
      have e': "present ?e'" "get_addr ?e' = frame_start (frame_at (fidx f))"
        using FL get_addr_set_addr [OF FL f(1) lt tables_okD(4) [OF ok q abs]] fa
        by (simp_all add: present_set_flags fl_present_bits flags_law_def bit_or_iff)
      have "next_level_alloc FL tr take st t i set_fl mask_fl = ret (Inr v, st')"
        using fl abs r(1) Some i tl w(1) tv set_addr_ok [OF f(1)] lt
        by (simp add: next_level_alloc_def read_entry_ok [OF tables_okD(1) [OF ok]] read_entry_ok [OF len0] ent0 Let_def)
      moreover have ent': "\<forall>t' j. j < 512 \<longrightarrow> ent st' t' j
          = (if t' = t \<and> j = i then ?e' else if t' = InMemory v then entry_zero else ent st t' j)"
        by (simp add: w(2) ent0)
      note keep = new_table_keeps [OF ok fr un q abs f(2) _ e' ent' w(3), unfolded fa, OF v]
      have "mapper_inv avail finv tr st'"
        using keep(1,2) r(2) fr f(3) w(4) by (auto simp: mapper_inv_def table_put_table frames_ok_def)
      then have "harmless avail finv tr st st'" using keep(4) by (simp add: harmless_def)
      moreover have "paths tr st' = insert (q @ [i]) (paths tr st)" using keep(3) q(1) by (auto simp: paths_def split: if_splits)
      moreover have "card ?F = card (avail (mp_frames st')) + 1"
        using f(2,3) w(4) finite_avail [of "mp_frames st"] inv card_Suc_Diff1 [of ?F "fidx f"] by (simp add: mapper_inv_def table_put_table)
      moreover have "table_of tr st' Level4 (q @ [i]) = Some (InMemory v)" using keep(3) [OF q(1)] by simp
      moreover have "{q @ [i]} - paths tr st = {q @ [i]}" using out by auto
      ultimately show ?thesis by (simp add: reached_def makes_tables_def)
    qed
  qed
qed

lemma next_level_ok:
  assumes "flags_law FL" "mapper_inv avail finv tr st" "path_ok (q @ [i])" "table_of tr st Level4 q = Some t"
  shows "runs (next_level_alloc FL tr take st t i set_fl mask_fl) (reached avail finv tr st (q @ [i]))"
  using next_level_present [OF assms] next_level_absent [OF assms] by blast

text \<open>One level of \<^verbatim>\<open>map\<close>: the error of the level is returned, or the rest goes on in the table reached.\<close>

lemma next_level_bnd:
  assumes FL: "flags_law FL" and st: "level_step avail finv tr Q st0 st" "Q \<subseteq> dir_prefixes p"
    and q: "path_ok (q @ [i])" "table_of tr st Level4 q = Some t" "q @ [i] \<in> dir_prefixes p"
    and cont: "\<And>v st'. level_step avail finv tr (insert (q @ [i]) Q) st0 st' \<Longrightarrow>
      table_of tr st' Level4 (q @ [i]) = Some (InMemory v) \<Longrightarrow> runs (cont v st') (mapped avail finv tr st0 p f bits)"
  shows "runs (bnd (next_level_alloc FL tr take st t i set_fl mask_fl)
      (\<lambda>(r, st'). case r of Inl err \<Rightarrow> ret (Inl err, st') | Inr v \<Rightarrow> cont v st')) (mapped avail finv tr st0 p f bits)"
proof -
  have "mapper_inv avail finv tr st" using st(1) by (simp add: level_step_def harmless_def)
  then obtain r st' where r: "next_level_alloc FL tr take st t i set_fl mask_fl = ret (r, st')"
    "reached avail finv tr st (q @ [i]) (r, st')"
    using next_level_ok [OF FL _ q(1,2), of set_fl mask_fl] by (auto simp: runs_iff)
  show ?thesis
  proof (cases r)
    case (Inl err)
    then show ?thesis using r level_step_failed [OF st(1) _ _ st(2) q(3)] by (simp add: reached_def)
  next
    case (Inr v)
    have "finite Q" using st(2) by (rule finite_subset) simp
    then have "level_step avail finv tr (insert (q @ [i]) Q) st0 st'" "table_of tr st' Level4 (q @ [i]) = Some (InMemory v)"
      using r(2) level_step_trans [OF st(1)] Inr by (auto simp: reached_def)
    then show ?thesis using cont r(1) Inr by simp
  qed
qed

lemma map_page_runs:
  assumes FL: "flags_law FL" and inv: "mapper_inv avail finv tr st" and f: "wf_frame f" "fidx f < 2 ^ 36"
    and leaf: "bit (fl_bits FL leaf) 0"
  shows "runs (map_page FL tr take st p f leaf set_fl mask_fl) (mapped avail finv tr st p f (fl_bits FL leaf))"
  unfolding map_page_def
proof (intro next_level_bnd [OF FL, where q = "[]" and i = "unat (l4_index p)" and Q = "{}"]
    next_level_bnd [OF FL, where q = "[unat (l4_index p)]" and i = "unat (l3_index p)" and Q = "{[unat (l4_index p)]}"]
    next_level_bnd [OF FL, where q = "[unat (l4_index p), unat (l3_index p)]" and i = "unat (l2_index p)"
      and Q = "{[unat (l4_index p), unat (l3_index p)], [unat (l4_index p)]}"])
  fix v1 st3
  assume st3: "level_step avail finv tr (insert ([unat (l4_index p), unat (l3_index p)] @ [unat (l2_index p)])
      {[unat (l4_index p), unat (l3_index p)], [unat (l4_index p)]}) st st3"
    "table_of tr st3 Level4 ([unat (l4_index p), unat (l3_index p)] @ [unat (l2_index p)]) = Some (InMemory v1)"
  let ?e = "set_flags FL (entry_zero\<lparr>pte_raw := pte_raw entry_zero OR addr_raw (frame_start f)\<rparr>) leaf"
  have sa: "set_addr entry_zero (frame_start f) = ret (entry_zero\<lparr>pte_raw := pte_raw entry_zero OR addr_raw (frame_start f)\<rparr>)"
    using f by (intro set_addr_ok) auto
  have e: "present ?e" "?e = \<lparr>pte_raw = addr_raw (frame_start f) OR fl_bits FL leaf\<rparr>"
    using leaf by (simp_all add: present_set_flags) (simp add: set_flags_def entry_zero_def)
  have st3h: "harmless avail finv tr st st3" using st3(1) by (simp add: level_step_def)
  then have ok: "tables_ok tr st3" by (simp add: harmless_def mapper_inv_def)
  obtain st4 where w: "write_entry st3 (InMemory v1) (unat (l1_index p)) ?e = ret st4"
    "\<And>t' j. ent st4 t' j = (if t' = InMemory v1 \<and> j = unat (l1_index p) then ?e else ent st3 t' j)"
    "\<And>t'. length (pt_entries (table st4 t')) = 512" "mp_frames st4 = mp_frames st3"
    using write_entry_ok [OF tables_okD(1) [OF ok] index_less(4), of "InMemory v1" p ?e] by blast
  have d: "dir_path p = [unat (l4_index p), unat (l3_index p)] @ [unat (l2_index p)]" by (simp add: dir_path_def)
  note keep = leaf_write_keeps [OF ok path_ok_dir_path length_dir_path st3(2) [folded d] w(2,3) e(1)]
  have "mapper_inv avail finv tr st4" using keep(2,3) w(4) st3h by (simp add: mapper_inv_def harmless_def)
  moreover have "makes_tables avail tr (dir_prefixes p) st st4"
  proof -
    have "paths tr st4 = paths tr st3" using keep(1) by (auto simp: paths_def)
    moreover have "insert ([unat (l4_index p), unat (l3_index p)] @ [unat (l2_index p)]) {[unat (l4_index p), unat (l3_index p)], [unat (l4_index p)]}
        = dir_prefixes p" by (auto simp: dir_prefixes_def)
    ultimately show ?thesis using st3(1) w(4) by (simp add: level_step_def makes_tables_def)
  qed
  moreover have "lookup_page tr st4 q = (if same_page q p then Some ?e else lookup_page tr st q)" for q
    unfolding lookup_page_def keep(4) [OF path_ok_dir_path length_dir_path] same_page_def
    using harmless_lookup [OF st3h, of q] by (simp add: lookup_page_def word_unat_eq_iff)
  ultimately show "runs (bnd (set_addr entry_zero (frame_start f)) (\<lambda>l1e.
      bnd (write_entry st3 (InMemory v1) (unat (l1_index p)) (set_flags FL l1e leaf)) (\<lambda>st. ret (Inr (), st))))
      (mapped avail finv tr st p f (fl_bits FL leaf))"
    using sa w(1) by (simp add: mapped_def e(2))
qed (use inv index_less [of p] in \<open>simp_all add: path_ok_def level_step_refl dir_prefixes_def\<close>)

end

text \<open>A bump allocator takes its frames from the bottom, so what is left always reaches up to the same end.\<close>

definition bump_upto :: "nat \<Rightarrow> bump_frame_allocator \<Rightarrow> bool" where
  "bump_upto E b \<longleftrightarrow> bump_inv b \<and> (\<exists>i. bump_frames b = {i..<E})"

lemma finite_bump_frames [simp]: "finite (bump_frames b)"
  by (simp add: bump_frames_def range_frames_def split: option.splits)

lemma bump_take:
  assumes "bump_inv b"
  obtains f b' where "bump_allocate b = ret (f, b')" "bump_inv b'"
    "case f of None \<Rightarrow> bump_frames b' = bump_frames b \<and> bump_frames b \<subseteq> {2 ^ 52 - 1}
     | Some g \<Rightarrow> wf_frame g \<and> fidx g \<in> bump_frames b \<and> bump_frames b' = bump_frames b - {fidx g}"
    "bump_upto E b \<Longrightarrow> bump_upto E b'"
proof -
  obtain f b' where r: "bump_allocate b = ret (f, b')" "bump_inv b'"
    "if bump_frames b = {} \<or> bump_frames b = {2 ^ 52 - 1} then f = None \<and> b' = b
     else \<exists>g. f = Some g \<and> wf_frame g \<and> fidx g = Min (bump_frames b) \<and> bump_frames b' = bump_frames b - {fidx g}"
    using bump_allocate_runs [OF assms] by (auto simp: runs_iff)
  show ?thesis
  proof (cases "bump_frames b = {} \<or> bump_frames b = {2 ^ 52 - 1}")
    case True
    then have f: "f = None" "b' = b" using r(3) by (simp_all only: if_True)
    have "bump_frames b \<subseteq> {2 ^ 52 - 1}" using True by blast
    then show ?thesis using that [OF r(1,2)] by (simp only: f option.case simp_thms)
  next
    case False
    then obtain g where g: "f = Some g" "wf_frame g" "fidx g = Min (bump_frames b)" "bump_frames b' = bump_frames b - {fidx g}"
      using r(3) unfolding if_not_P [OF False] by blast
    have mem: "fidx g \<in> bump_frames b" unfolding g(3) using False by (intro Min_in) simp_all
    have "bump_upto E b'" if "bump_upto E b"
    proof -
      obtain i where i: "bump_frames b = {i..<E}" using \<open>bump_upto E b\<close> by (auto simp: bump_upto_def)
      then have "i < E" using False by auto
      then have "bump_frames b' = {Suc i..<E}" unfolding g(3,4) i by (auto simp: Min_interval)
      then show ?thesis using r(2) by (auto simp: bump_upto_def)
    qed
    then show ?thesis using that [OF r(1,2)] g(2,4) mem by (simp only: g(1) option.case simp_thms)
  qed
qed

interpretation bump: frame_source bump_allocate bump_frames bump_inv
proof unfold_locales
  fix b assume "bump_inv b"
  then show "\<exists>f b'. bump_allocate b = ret (f, b') \<and> bump_inv b' \<and> (case f of
      None \<Rightarrow> bump_frames b' = bump_frames b \<and> bump_frames b \<subseteq> {2 ^ 52 - 1}
    | Some g \<Rightarrow> wf_frame g \<and> fidx g \<in> bump_frames b \<and> bump_frames b' = bump_frames b - {fidx g})"
    by (rule bump_take) blast
qed simp

interpretation bump_to: frame_source bump_allocate bump_frames "bump_upto E" for E
proof unfold_locales
  fix b assume upto: "bump_upto E b"
  then have "bump_inv b" by (simp add: bump_upto_def)
  then show "\<exists>f b'. bump_allocate b = ret (f, b') \<and> bump_upto E b' \<and> (case f of
      None \<Rightarrow> bump_frames b' = bump_frames b \<and> bump_frames b \<subseteq> {2 ^ 52 - 1}
    | Some g \<Rightarrow> wf_frame g \<and> fidx g \<in> bump_frames b \<and> bump_frames b' = bump_frames b - {fidx g})"
    by (rule bump_take [where E = E]) (use upto in blast)
qed simp

lemma mapper_inv_upto: "mapper_inv bump_frames (bump_upto E) tr st \<Longrightarrow> mapper_inv bump_frames bump_inv tr st"
  by (simp add: mapper_inv_def bump_upto_def)

lemma bump_inv_upto: "bump_inv b \<Longrightarrow> \<exists>E. bump_upto E b"
  by (auto simp: bump_upto_def bump_frames_def range_frames_def split: option.splits)

lemma bump_upto_end: "bump_upto E b \<Longrightarrow> bump_frames b = {E - card (bump_frames b)..<E}"
  by (auto simp: bump_upto_def)

lemma bump_upto_remain:
  assumes "bump_upto E b"
  shows "case remain b of None \<Rightarrow> bump_frames b = {} | Some r \<Rightarrow> wf_frame_range r \<and> fidx (fr_first r) + card (bump_frames b) = E"
proof (cases "remain b")
  case (Some r)
  have r: "bump_frames b = {fidx (fr_first r)..<fidx (fr_first r) + unat (fr_count r)}" "0 < unat (fr_count r)" "wf_frame_range r"
    using assms Some by (auto simp: bump_upto_def bump_frames_def bump_inv_def range_frames_def wf_frame_range_def)
  obtain i where i: "bump_frames b = {i..<E}" using assms by (auto simp: bump_upto_def)
  have ie: "i < E" using r(1,2) i by (metis atLeastLessThan_empty_iff less_add_same_cancel1)
  have "fidx (fr_first r) = i" "fidx (fr_first r) + unat (fr_count r) = E"
    using Ico_eq_Ico [of i E "fidx (fr_first r)" "fidx (fr_first r) + unat (fr_count r)"] r(1,2) i ie by auto
  then show ?thesis using Some r(3) i ie by simp
qed (simp add: bump_frames_def)

section \<open>Properties\<close>

text \<open>
  C3. \<^verbatim>\<open>Mapper::map\<close>, fed by a bump allocator as in \<^verbatim>\<open>mm::init\<close>, never panics and keeps the invariant of the
  page tables. When it returns \<^verbatim>\<open>Ok\<close>, the walk of the tables finds for the page an entry with the frame's
  address and the leaf flags; whatever it returns, the walk finds for every other page what it found
  before, and on an error also for the page itself. Exactly one frame is taken for each of the page's tables
  that was missing; \<^verbatim>\<open>FrameAllocationFailed\<close> is returned only when fewer frames than that were left,
  \<^verbatim>\<open>TranslationFailed\<close> only when the translator answered \<^verbatim>\<open>None\<close>.
\<close>

theorem map_page_correct:
  assumes "flags_law FL" "mapper_inv bump_frames bump_inv tr st" "wf_frame f" "fidx f < 2 ^ 36"
    and "bit (fl_bits FL leaf) 0"
  shows "runs (map_page FL tr bump_allocate st p f leaf set_fl mask_fl) (\<lambda>(r, st').
      mapper_inv bump_frames bump_inv tr st'
      \<and> (\<forall>q. lookup_page tr st' q =
          (if r = Inr () \<and> same_page q p then Some \<lparr>pte_raw = addr_raw (frame_start f) OR fl_bits FL leaf\<rparr>
           else lookup_page tr st q))
      \<and> (r = Inl TranslationFailed \<longrightarrow> (\<exists>a. tr a = ret None))
      \<and> (r = Inl FrameAllocationFailed \<longrightarrow> card (bump_frames (mp_frames st)) < card (dir_prefixes p - paths tr st))
      \<and> (r = Inr () \<longrightarrow> paths tr st' = paths tr st \<union> dir_prefixes p
          \<and> card (bump_frames (mp_frames st)) = card (bump_frames (mp_frames st')) + card (dir_prefixes p - paths tr st)))"
  using bump.map_page_runs [OF assms] unfolding mapped_def makes_tables_def .

text \<open>What is masked is a part of what is already there.\<close>

lemma set_flags_mask:
  assumes "flags_law FL" "fl_bits FL g = pte_raw e AND ALL_FLAG_BITS"
  shows "set_flags FL e (fl_or FL (fl_and FL g m) s) = set_flags FL e s"
proof -
  have "r OR ((r AND a) AND m' OR s') = r OR s'" for r a m' s' :: u64 by (auto simp: bit_eq_iff bit_simps)
  then show ?thesis using assms by (simp add: set_flags_def flags_law_def)
qed

lemma next_level_mask:
  assumes "flags_law FL"
  shows "next_level_alloc FL tr fa st t i set_fl mask_fl = next_level_alloc FL tr fa st t i set_fl mask_fl'"
proof (cases "read_entry st t i")
  case (Inr e)
  obtain g where "get_flags FL e = ret g" "fl_bits FL g = pte_raw e AND ALL_FLAG_BITS" by (rule get_flags_ok [OF assms])
  then show ?thesis using Inr by (simp add: next_level_alloc_def set_flags_mask [OF assms])
qed (simp add: next_level_alloc_def)

text \<open>Flags as their bits, and the mapper of an empty top table.\<close>

definition bit_flags :: "u64 flag_ops" where
  "bit_flags = \<lparr>fl_bits = (\<lambda>x. x AND ALL_FLAG_BITS),
     fl_from_bits = (\<lambda>x. if x AND NOT ALL_FLAG_BITS = 0 then Some x else None), fl_const = (\<lambda>x. x),
     fl_contains = (\<lambda>x y. x AND ALL_FLAG_BITS AND (y AND ALL_FLAG_BITS) = y AND ALL_FLAG_BITS),
     fl_and = (AND), fl_or = (OR), fl_all = ALL_FLAG_BITS\<rparr>"

definition empty_mapper :: "'fa \<Rightarrow> 'fa mapper" where
  "empty_mapper s = \<lparr>mp_level_4 = page_table_zero, mp_memory = (\<lambda>_. page_table_zero), mp_frames = s\<rparr>"

definition offset_translator :: "u64 \<Rightarrow> translator" where
  "offset_translator d a = ret (Some (Address (addr_raw a + d)))"

lemma offset_translator_ok:
  assumes F: "\<forall>n \<in> F. n < 2 ^ 36" and d: "4096 dvd unat d" "0 < unat d" "unat d \<le> 2 ^ 63"
  shows "frames_ok (offset_translator d) F"
proof -
  have a: "a_nat (Address (addr_raw (frame_start (frame_at n)) + d) :: virt_address) = 4096 * n + unat d" if "n \<in> F" for n
  proof -
    have n: "n < 2 ^ 36" using F that by blast
    have "unat (addr_raw (frame_start (frame_at n))) = 4096 * n"
      unfolding frame_at_def using n by simp
    moreover have "4096 * n + unat d < 2 ^ 64" using n d(3) by simp
    ultimately have "unat (addr_raw (frame_start (frame_at n)) + d) = 4096 * n + unat d"
      using unat_add_exact [of "addr_raw (frame_start (frame_at n))" d] by simp
    then show ?thesis by (simp only: a_nat_def address.sel)
  qed
  show ?thesis unfolding frames_ok_def
  proof (intro conjI ballI allI impI)
    fix n assume n: "n \<in> F"
    then show "n < 2 ^ 36" using F by blast
    have "0 < 4096 * n + unat d" "4096 dvd 4096 * n + unat d" using d by simp_all
    then show "tr_answers (offset_translator d) (frame_start (frame_at n))"
      unfolding tr_answers_def offset_translator_def a [OF n, symmetric] by auto
  next
    fix n m v assume n: "n \<in> F" "m \<in> F" and "offset_translator d (frame_start (frame_at n)) = ret (Some v)
      \<and> offset_translator d (frame_start (frame_at m)) = ret (Some v)"
    then have "4096 * n + unat d = 4096 * m + unat d" unfolding offset_translator_def using a [OF n(1)] a [OF n(2)] by auto
    then show "n = m" by simp
  qed
qed

lemma bit_flags_law: "flags_law bit_flags"
  unfolding flags_law_def bit_flags_def by (auto simp: and_not_zero_iff and.assoc bit_eq_iff bit_simps)

lemma empty_mapper_ok: "tables_ok tr (empty_mapper s)" "unused tr (empty_mapper s) F"
  "lookup_page tr (empty_mapper s) q = None"
proof -
  have t: "table (empty_mapper s) t = page_table_zero" for t
    by (simp add: table_def empty_mapper_def split: table_ref.splits)
  have e: "i < 512 \<Longrightarrow> ent (empty_mapper s) t i = entry_zero" for t i
    by (simp add: ent_def t) (simp add: page_table_zero_def)
  have p: "table_of tr (empty_mapper s) Level4 p = Some t \<Longrightarrow> path_ok p \<Longrightarrow> p = [] \<and> t = Level4" for p t
    by (cases p) (auto simp: path_ok_def next_table_def e entry_zero_def present_def)
  show "tables_ok tr (empty_mapper s)"
  proof (rule tables_okI)
    show "length (pt_entries (table (empty_mapper s) t)) = 512" for t unfolding t by (simp add: page_table_zero_def)
  qed (use p e in \<open>(auto simp: entry_zero_def present_def dest: p)\<close>)
  show "unused tr (empty_mapper s) F" using p by (fastforce simp: unused_def)
  have "table_of tr (empty_mapper s) Level4 (dir_path q) = None"
    using p [of "dir_path q", OF _ path_ok_dir_path] by (metis dir_path_def list.distinct(1) not_None_eq)
  then show "lookup_page tr (empty_mapper s) q = None" by (simp add: lookup_page_def walk_def)
qed


theorem map_page_correct_witness:
  "runs (map_page bit_flags (offset_translator 0x10000) bump_allocate (empty_mapper (bump_new (frame_range_at 16 3)))
      (page_at 5) (frame_at 99) 3 3 3) (\<lambda>(r, st').
      lookup_page (offset_translator 0x10000) st' (page_at 5) =
        (if r = Inr () then Some \<lparr>pte_raw = 0x63003\<rparr> else None))"
proof -
  let ?b = "bump_new (frame_range_at 16 3)" and ?tr = "offset_translator 0x10000"
  have F: "bump_frames ?b = {16, 17, 18}" by (auto simp: bump_frames_def bump_new_def range_frames_at)
  have "frames_ok ?tr {16, 17, 18}" by (rule offset_translator_ok) simp_all
  moreover have "mp_frames (empty_mapper ?b) = ?b" "bump_inv ?b"
    by (simp_all add: empty_mapper_def bump_inv_def bump_new_def wf_frame_range_at)
  ultimately have inv: "mapper_inv bump_frames bump_inv ?tr (empty_mapper ?b)"
    using empty_mapper_ok [of ?tr ?b] by (simp add: mapper_inv_def F)
  have bits: "fl_bits bit_flags 3 = 3" by (simp add: bit_flags_def flag_bits_numeral)
  have f: "wf_frame (frame_at 99)" "fidx (frame_at 99) < 2 ^ 36" by simp_all
  have leaf: "addr_raw (frame_start (frame_at 99)) OR 3 = 0x63003" by (simp add: frame_at_def addr_of_def)
  have "bit (fl_bits bit_flags 3) 0" by (simp add: bits)
  from map_page_correct [OF bit_flags_law inv f this, of "page_at 5" 3 3] show ?thesis
    by (rule runs_mono) (clarsimp simp: same_page_def bits leaf empty_mapper_ok(3))
qed

text \<open>
  C32. \<^verbatim>\<open>set_addr\<close> and \<^verbatim>\<open>set_flags\<close> on an empty entry are read back by \<^verbatim>\<open>get_flags\<close> exactly, and by \<^verbatim>\<open>get_addr\<close> modulo
  \<open>2 ^ 48\<close>: frames from \<open>2 ^ 36\<close> on, which \<^verbatim>\<open>set_addr\<close> accepts up to \<open>2 ^ 41\<close>, come back as another frame. Above
  that bound, twice the documented \<open>2 ^ 52\<close> bytes, \<^verbatim>\<open>set_addr\<close> panics.
\<close>

theorem entry_roundtrip:
  assumes "flags_law FL" "wf_frame f"
  shows "if fidx f < 2 ^ 41
    then runs (set_addr entry_zero (frame_start f)) (\<lambda>e.
        a_nat (get_addr (set_flags FL e fl)) = 4096 * (fidx f mod 2 ^ 36)
        \<and> runs (get_flags FL (set_flags FL e fl)) (\<lambda>g. fl_bits FL g = fl_bits FL fl))
    else set_addr entry_zero (frame_start f) = throw AssertFailed"
proof (cases "fidx f < 2 ^ 41")
  case True
  let ?e = "entry_zero\<lparr>pte_raw := pte_raw entry_zero OR addr_raw (frame_start f)\<rparr>"
  obtain g where g: "get_flags FL (set_flags FL ?e fl) = ret g"
    "fl_bits FL g = pte_raw (set_flags FL ?e fl) AND ALL_FLAG_BITS"
    using get_flags_ok [OF assms(1)] by metis
  have "fl_bits FL g = fl_bits FL fl"
    using assms(1) frame_addr_no_flags [OF assms(2) True] unfolding g(2)
    by (simp add: set_flags_def entry_zero_def bit.conj_disj_distrib2 flags_law_def and_not_zero_iff)
  moreover have "a_nat (get_addr (set_flags FL ?e fl)) = 4096 * (fidx f mod 2 ^ 36)"
    unfolding get_addr_set_flags [OF assms(1)] using frame_addr_mod [OF assms(2)]
    by (simp add: get_addr_def entry_zero_def)
  ultimately show ?thesis using True g(1) by (simp add: set_addr_ok [OF assms(2) True])
next
  case False
  then show ?thesis using set_addr_panics [OF assms(2)] by simp
qed

theorem entry_roundtrip_witness:
  "a_nat (get_addr (set_flags bit_flags \<lparr>pte_raw = 2 ^ 48 + 0x5000\<rparr> 3)) = 0x5000
    \<and> runs (set_addr entry_zero (frame_start (frame_at (2 ^ 36 + 5)))) (\<lambda>e.
        a_nat (get_addr (set_flags bit_flags e 3)) = 4096 * (fidx (frame_at (2 ^ 36 + 5)) mod 2 ^ 36)
        \<and> runs (get_flags bit_flags (set_flags bit_flags e 3)) (\<lambda>g. fl_bits bit_flags g = fl_bits bit_flags 3))"
  using entry_roundtrip [OF bit_flags_law, of "frame_at (2 ^ 36 + 5)" 3]
  by (simp add: get_addr_def set_flags_def bit_flags_def flag_bits_numeral a_nat_def)

text \<open>
  C33. The comments of \<^verbatim>\<open>map\<close> and \<^verbatim>\<open>next_level_alloc\<close> say that the flags of a parent entry that is present are masked
  with \<^verbatim>\<open>parent_mask_flags\<close>. They are not: \<^verbatim>\<open>set_flags\<close> only adds bits, so the mask has no effect on any
  result or state of \<^verbatim>\<open>map\<close>.
\<close>

theorem parent_mask_has_no_effect:
  assumes "flags_law FL"
  shows "map_page FL tr fa st p f leaf set_fl mask_fl = map_page FL tr fa st p f leaf set_fl mask_fl'"
  unfolding map_page_def next_level_mask [OF assms, where mask_fl = mask_fl and mask_fl' = mask_fl'] ..

theorem parent_mask_has_no_effect_witness:
  "map_page bit_flags (offset_translator 0x10000) bump_allocate (empty_mapper (bump_new (frame_range_at 16 3)))
      (page_at 5) (frame_at 99) 3 7 0
   = map_page bit_flags (offset_translator 0x10000) bump_allocate (empty_mapper (bump_new (frame_range_at 16 3)))
      (page_at 5) (frame_at 99) 3 7 ALL_FLAG_BITS"
  by (rule parent_mask_has_no_effect [OF bit_flags_law])

end
