(* ===== verification/Heap.thy ===== *)
theory Heap
  imports Frame_Alloc
begin

text \<open>
  \<^verbatim>\<open>shared/src/memory/alloc/heap.rs\<close>: the kernel heap. Small requests are served from free lists of blocks, which
  are refilled by cutting a chunk into blocks of 256 bytes; large requests go to the chunk provider.

  Pointers are 64-bit addresses and a \<^verbatim>\<open>*mut [u8]\<close> is an address and a length. The headers written into free
  memory are a function from addresses. Parameters of the model are the singly linked list of the crate
  \<^verbatim>\<open>intrusive_collections\<close> (\<open>sll_ops\<close>, with its documented behaviour as \<open>sll_law\<close>), the size and alignment of
  \<^verbatim>\<open>FreeBlockData\<close>, which contains a link of that crate (\<open>header_layout\<close>), and the \<^verbatim>\<open>ChunkProvider\<close>.
\<close>

section \<open>Model\<close>

subsection \<open>Pointers, layouts and block sizes\<close>

record slice_ptr =
  sl_addr :: usize
  sl_len :: usize

record layout =
  lay_size :: usize
  lay_align :: usize

text \<open>\<^verbatim>\<open>pointer::is_aligned_to\<close>, which panics unless the alignment is a power of two, and \<^verbatim>\<open>usize::div_ceil\<close>.\<close>

definition ptr_is_aligned_to :: "usize \<Rightarrow> usize \<Rightarrow> bool rust" where
  "ptr_is_aligned_to p align =
     bnd (rassert (is_power_of_two align)) (\<lambda>_. ret (p mod align = 0))"

definition div_ceil :: "usize \<Rightarrow> usize \<Rightarrow> usize rust" where
  "div_ceil x y =
     bnd (u_div x y) (\<lambda>d.
     bnd (u_rem x y) (\<lambda>r.
     if 0 < r then u_add d 1 else ret d))"

definition BLOCK_SIZES :: "usize list" where
  "BLOCK_SIZES = [16, 32, 64, 128, 256]"

definition NUM_BLOCK_SIZES :: nat where
  "NUM_BLOCK_SIZES = 5"

definition MAXIMAL_BLOCK_SIZE :: usize where
  "MAXIMAL_BLOCK_SIZE = last BLOCK_SIZES"

datatype block_size_key = Size16 | Size32 | Size64 | Size128 | Size256

fun key_to_usize :: "block_size_key \<Rightarrow> nat" where
  "key_to_usize Size16 = 0"
| "key_to_usize Size32 = 1"
| "key_to_usize Size64 = 2"
| "key_to_usize Size128 = 3"
| "key_to_usize Size256 = 4"

definition key_from_usize :: "nat \<Rightarrow> block_size_key option" where
  "key_from_usize n = (if n < 5 then Some ([Size16, Size32, Size64, Size128, Size256] ! n) else None)"

definition key_size :: "block_size_key \<Rightarrow> usize rust" where
  "key_size self = index BLOCK_SIZES (key_to_usize self)"

text \<open>
  \<^verbatim>\<open>slice::binary_search\<close> on a slice without duplicates: the position of the value, or the position at which
  it would have to be inserted.
\<close>

definition binary_search :: "usize list \<Rightarrow> usize \<Rightarrow> nat + nat" where
  "binary_search xs x =
     (let n = length (takeWhile (\<lambda>y. y < x) xs) in if n < length xs \<and> xs ! n = x then Inr n else Inl n)"

definition key_for_size_align :: "usize \<Rightarrow> usize \<Rightarrow> block_size_key option rust" where
  "key_for_size_align sz align =
     (case binary_search BLOCK_SIZES (max sz align) of
        Inr ndx \<Rightarrow> bnd (unwrap (key_from_usize ndx)) (\<lambda>k. ret (Some k))
      | Inl ndx \<Rightarrow> if ndx = NUM_BLOCK_SIZES then ret None
          else bnd (unwrap (key_from_usize ndx)) (\<lambda>k. ret (Some k)))"

subsection \<open>Free blocks\<close>

record free_block_data =
  fb_size :: block_size_key

text \<open>\<^verbatim>\<open>size_of\<close> and \<^verbatim>\<open>align_of\<close> of \<^verbatim>\<open>FreeBlockData\<close>.\<close>

record header_layout =
  hl_size :: usize
  hl_align :: usize

type_synonym header_memory = "usize \<Rightarrow> free_block_data"

definition metadata_from_size :: "header_layout \<Rightarrow> usize \<Rightarrow> usize rust" where
  "metadata_from_size HL sz = u_sub sz (hl_size HL)"

text \<open>\<^verbatim>\<open>size_of_val\<close> of a \<^verbatim>\<open>FreeBlock\<close> whose tail has \<open>meta\<close> bytes: header and tail, rounded up to the alignment.\<close>

definition size_of_free_block :: "header_layout \<Rightarrow> usize \<Rightarrow> usize" where
  "size_of_free_block HL meta = of_nat (round_up (unat (hl_align HL)) (unat (hl_size HL) + unat meta))"

definition free_block_build ::
  "header_layout \<Rightarrow> header_memory \<Rightarrow> slice_ptr \<Rightarrow> block_size_key \<Rightarrow> (usize \<times> slice_ptr \<times> header_memory) rust" where
  "free_block_build HL hdrs mem key =
     bnd (key_size key) (\<lambda>sz.
     bnd (rassert (sz \<le> sl_len mem)) (\<lambda>_.
     let block = sl_addr mem; rest = \<lparr>sl_addr = sl_addr mem + sz, sl_len = sl_len mem - sz\<rparr> in
     bnd (ptr_is_aligned_to block (hl_align HL)) (\<lambda>b.
     bnd (rassert b) (\<lambda>_.
     let hdrs = hdrs(block := \<lparr>fb_size = key\<rparr>) in
     bnd (metadata_from_size HL sz) (\<lambda>meta.
     bnd (rassert (sz = size_of_free_block HL meta)) (\<lambda>_.
     ret (block, rest, hdrs)))))))"

subsection \<open>The heap\<close>

record 'l sll_ops =
  sll_new :: 'l
  sll_is_empty :: "'l \<Rightarrow> bool"
  sll_push_front :: "usize \<Rightarrow> 'l \<Rightarrow> 'l"
  sll_pop_front :: "'l \<Rightarrow> usize option \<times> 'l"

record ('l, 'p) heap =
  free_lists :: "'l list"
  provider :: 'p
  headers :: header_memory

type_synonym 'p chunk_source = "'p \<Rightarrow> usize \<Rightarrow> (slice_ptr \<times> 'p) rust"

definition heap_new :: "'l sll_ops \<Rightarrow> usize \<Rightarrow> header_memory \<Rightarrow> 'p \<Rightarrow> ('l, 'p) heap rust" where
  "heap_new L CHUNK_SIZE hdrs p =
     bnd (rassert (last BLOCK_SIZES \<le> CHUNK_SIZE)) (\<lambda>_.
     bnd (rassert (is_power_of_two CHUNK_SIZE)) (\<lambda>_.
     ret \<lparr>free_lists = [sll_new L, sll_new L, sll_new L, sll_new L, sll_new L], provider = p, headers = hdrs\<rparr>))"

lemma unat_MAXIMAL_BLOCK_SIZE [simp]: "unat MAXIMAL_BLOCK_SIZE = 256"
  by (simp add: MAXIMAL_BLOCK_SIZE_def BLOCK_SIZES_def)

lemma key_size_simps [simp]: "key_size Size16 = ret 16" "key_size Size32 = ret 32" "key_size Size64 = ret 64"
  "key_size Size128 = ret 128" "key_size Size256 = ret 256"
  by (simp_all add: key_size_def BLOCK_SIZES_def)

lemma free_block_build_rest:
  "free_block_build HL hdrs mem Size256 = ret (b, rest, hdrs') \<Longrightarrow> unat (sl_len rest) = unat (sl_len mem) - 256"
  by (auto simp: free_block_build_def Let_def rust_iff word_le_nat_alt unat_sub_if_size split: if_splits)

text \<open>The loop of \<^verbatim>\<open>fetch_chunk\<close>.\<close>

function carve_chunk ::
  "'l sll_ops \<Rightarrow> header_layout \<Rightarrow> header_memory \<Rightarrow> 'l \<Rightarrow> slice_ptr \<Rightarrow> ('l \<times> header_memory) rust" where
  "carve_chunk L HL hdrs fl chunk =
     (if MAXIMAL_BLOCK_SIZE \<le> sl_len chunk then
        bnd (free_block_build HL hdrs chunk Size256) (\<lambda>(block, rest, hdrs').
        carve_chunk L HL hdrs' (sll_push_front L block fl) rest)
      else ret (fl, hdrs))"
  by auto
termination
  by (relation "measure (\<lambda>(L, HL, hdrs, fl, chunk). unat (sl_len chunk))")
    (auto simp: word_le_nat_alt dest!: free_block_build_rest)

definition fetch_chunk ::
  "'l sll_ops \<Rightarrow> header_layout \<Rightarrow> usize \<Rightarrow> 'p chunk_source \<Rightarrow> ('l, 'p) heap \<Rightarrow> ('l, 'p) heap rust" where
  "fetch_chunk L HL CHUNK_SIZE pr self =
     bnd (pr (provider self) 1) (\<lambda>(chunk, p).
     bnd (rassert (sl_len chunk = CHUNK_SIZE)) (\<lambda>_.
     bnd (ptr_is_aligned_to (sl_addr chunk) CHUNK_SIZE) (\<lambda>b.
     bnd (rassert b) (\<lambda>_.
     bnd (ptr_is_aligned_to (sl_addr chunk) (hl_align HL)) (\<lambda>b.
     bnd (rassert b) (\<lambda>_.
     bnd (rassert (hl_size HL \<le> sl_len chunk)) (\<lambda>_.
     let n = length (free_lists self) in
     bnd (if n = 0 then throw UnwrapNone else index (free_lists self) (n - 1)) (\<lambda>free_list.
     bnd (carve_chunk L HL (headers self) free_list chunk) (\<lambda>(fl, hdrs).
     ret (self\<lparr>free_lists := (free_lists self)[n - 1 := fl], provider := p, headers := hdrs\<rparr>))))))))))"

text \<open>
  \<^verbatim>\<open>allocate_small\<close> calls itself after \<^verbatim>\<open>fetch_chunk\<close>. The first argument bounds the calls; running out is
  divergence. Two are enough: after a chunk is fetched, the last free list has a block.
\<close>

primrec allocate_small ::
  "nat \<Rightarrow> 'l sll_ops \<Rightarrow> header_layout \<Rightarrow> usize \<Rightarrow> 'p chunk_source \<Rightarrow> ('l, 'p) heap \<Rightarrow> block_size_key \<Rightarrow> layout
    \<Rightarrow> (slice_ptr \<times> ('l, 'p) heap) rust" where
  "allocate_small 0 L HL CHUNK_SIZE pr self key layout = throw Diverges"
| "allocate_small (Suc fuel) L HL CHUNK_SIZE pr self key layout =
     (let k = key_to_usize key; n = length (free_lists self) in
      if n < k then throw OutOfBounds
      else case find (\<lambda>i. \<not> sll_is_empty L (free_lists self ! i)) [k..<n] of
        None \<Rightarrow> bnd (fetch_chunk L HL CHUNK_SIZE pr self) (\<lambda>self.
          allocate_small fuel L HL CHUNK_SIZE pr self key layout)
      | Some i \<Rightarrow>
          let (b, fl) = sll_pop_front L (free_lists self ! i);
              self = self\<lparr>free_lists := (free_lists self)[i := fl]\<rparr> in
          bnd (unwrap b) (\<lambda>block_ptr.
          bnd (ptr_is_aligned_to block_ptr (lay_align layout)) (\<lambda>al.
          bnd (rassert al) (\<lambda>_.
          bnd (key_size (fb_size (headers self block_ptr))) (\<lambda>sz.
          bnd (rassert (lay_size layout \<le> sz)) (\<lambda>_.
          ret (\<lparr>sl_addr = block_ptr, sl_len = lay_size layout\<rparr>, self)))))))"

definition heap_allocate ::
  "'l sll_ops \<Rightarrow> header_layout \<Rightarrow> usize \<Rightarrow> 'p chunk_source \<Rightarrow> ('l, 'p) heap \<Rightarrow> layout
    \<Rightarrow> (slice_ptr \<times> ('l, 'p) heap) rust" where
  "heap_allocate L HL CHUNK_SIZE pr self layout =
     bnd (key_for_size_align (lay_size layout) (lay_align layout)) (\<lambda>k.
     case k of
       Some key \<Rightarrow> allocate_small 2 L HL CHUNK_SIZE pr self key layout
     | None \<Rightarrow>
         bnd (div_ceil (lay_size layout) CHUNK_SIZE) (\<lambda>chunks.
         bnd (pr (provider self) chunks) (\<lambda>(ptr, p).
         ret (ptr, self\<lparr>provider := p\<rparr>))))"

subsection \<open>The global allocator\<close>

text \<open>
  \<^verbatim>\<open>CheckedHeap\<close> keeps the heap in a \<^verbatim>\<open>spin::Mutex\<close>; \<open>got\<close> is whether \<^verbatim>\<open>try_lock\<close> gave the guard. Freeing does nothing.
\<close>

definition checked_alloc ::
  "'l sll_ops \<Rightarrow> header_layout \<Rightarrow> usize \<Rightarrow> 'p chunk_source \<Rightarrow> bool \<Rightarrow> ('l, 'p) heap \<Rightarrow> layout
    \<Rightarrow> (usize \<times> ('l, 'p) heap) rust" where
  "checked_alloc L HL CHUNK_SIZE pr got h layout =
     bnd (if got then ret () else throw UnwrapNone) (\<lambda>_.
     bnd (heap_allocate L HL CHUNK_SIZE pr h layout) (\<lambda>(s, h).
     ret (sl_addr s, h)))"

definition checked_dealloc :: "('l, 'p) heap \<Rightarrow> usize \<Rightarrow> layout \<Rightarrow> ('l, 'p) heap" where
  "checked_dealloc h ptr layout = h"

datatype alloc_error = AllocError

definition checked_allocate ::
  "'l sll_ops \<Rightarrow> header_layout \<Rightarrow> usize \<Rightarrow> 'p chunk_source \<Rightarrow> bool \<Rightarrow> ('l, 'p) heap \<Rightarrow> layout
    \<Rightarrow> ((alloc_error + slice_ptr) \<times> ('l, 'p) heap) rust" where
  "checked_allocate L HL CHUNK_SIZE pr got h layout =
     (if \<not> got then ret (Inl AllocError, h)
      else bnd (heap_allocate L HL CHUNK_SIZE pr h layout) (\<lambda>(s, h).
        ret (if sl_addr s = 0 then Inl AllocError else Inr s, h)))"

definition checked_deallocate :: "('l, 'p) heap \<Rightarrow> usize \<Rightarrow> layout \<Rightarrow> ('l, 'p) heap" where
  "checked_deallocate h ptr layout = h"

section \<open>What the parameters promise\<close>

text \<open>The list crate: a list \<open>\<alpha> l\<close> of block addresses, pushed and popped at its front.\<close>

definition sll_law :: "'l sll_ops \<Rightarrow> ('l \<Rightarrow> usize list) \<Rightarrow> bool" where
  "sll_law L \<alpha> \<longleftrightarrow> \<alpha> (sll_new L) = []
    \<and> (\<forall>l. sll_is_empty L l \<longleftrightarrow> \<alpha> l = [])
    \<and> (\<forall>x l. \<alpha> (sll_push_front L x l) = x # \<alpha> l)
    \<and> (\<forall>l. (case \<alpha> l of [] \<Rightarrow> fst (sll_pop_front L l) = None | x # xs \<Rightarrow> fst (sll_pop_front L l) = Some x)
        \<and> \<alpha> (snd (sll_pop_front L l)) = tl (\<alpha> l))"

text \<open>
  \<^verbatim>\<open>FreeBlockData\<close>: its alignment is a power of two and divides its size, as for every Rust type, and the size
  is not above the smallest block size, by the \<^verbatim>\<open>const_assert!\<close> of the source.
\<close>

definition header_law :: "header_layout \<Rightarrow> bool" where
  "header_law HL \<longleftrightarrow> is_power_of_two (hl_align HL) \<and> unat (hl_align HL) dvd unat (hl_size HL)
    \<and> 0 < unat (hl_size HL) \<and> unat (hl_size HL) \<le> 16"

section \<open>Block sizes\<close>

lemma is_power_of_two_exp:
  assumes "is_power_of_two x"
  obtains k where "k < 64" "x = 2 ^ k" "unat x = 2 ^ k"
proof -
  have "{i. i < 64 \<and> bit x i} = set (filter (bit x) [0..<64])" by auto
  then have "card {i. i < 64 \<and> bit x i} = length (filter (bit x) [0..<64])"
    by (simp only: distinct_card distinct_filter distinct_upt)
  then have "card {i. i < 64 \<and> bit x i} = 1" using assms by (simp only: is_power_of_two_def)
  then obtain k where k: "{i. i < 64 \<and> bit x i} = {k}" by (metis card_1_singletonE)
  then have "x = 2 ^ k" by (intro bit_word_eqI) (auto simp: bit_exp_iff possible_bit_word set_eq_iff)
  moreover have "k < 64" using k by auto
  ultimately show ?thesis using that unat_pow2 [of k, where 'a = 64] by simp
qed

lemma pow2_dvd_iff: "(2 :: nat) ^ a dvd 2 ^ b \<longleftrightarrow> (2 :: nat) ^ a \<le> 2 ^ b"
  by (simp add: dvd_power_iff_le)

lemma ptr_is_aligned_to_eq:
  "is_power_of_two a \<Longrightarrow> ptr_is_aligned_to p a = ret (unat a dvd unat p)"
  by (simp add: ptr_is_aligned_to_def word_unat_eq_iff unat_mod dvd_eq_mod_eq_0)

lemma takeWhile_sizes:
  "length (takeWhile (\<lambda>y. y < x) BLOCK_SIZES) =
    (if x \<le> 16 then 0 else if x \<le> 32 then 1 else if x \<le> 64 then 2 else if x \<le> 128 then 3 else if x \<le> 256 then 4 else 5)"
  by (simp add: BLOCK_SIZES_def not_le [symmetric])

lemma key_for_size_align_eq:
  "key_for_size_align sz al = ret (let m = max (unat sz) (unat al) in
     if m \<le> 16 then Some Size16 else if m \<le> 32 then Some Size32 else if m \<le> 64 then Some Size64
     else if m \<le> 128 then Some Size128 else if m \<le> 256 then Some Size256 else None)"
proof -
  define x where "x = max sz al"
  have m: "unat x = max (unat sz) (unat al)" by (simp add: x_def max_def word_le_nat_alt)
  have le: "x \<le> 16 \<longleftrightarrow> unat x \<le> 16" "x \<le> 32 \<longleftrightarrow> unat x \<le> 32" "x \<le> 64 \<longleftrightarrow> unat x \<le> 64"
    "x \<le> 128 \<longleftrightarrow> unat x \<le> 128" "x \<le> 256 \<longleftrightarrow> unat x \<le> 256" by (simp_all add: word_le_nat_alt)
  show ?thesis
    unfolding key_for_size_align_def binary_search_def x_def [symmetric] m [symmetric] takeWhile_sizes le
    by (simp add: Let_def BLOCK_SIZES_def NUM_BLOCK_SIZES_def key_from_usize_def)
qed

lemma key_for_size_align_Some:
  assumes "max (unat sz) (unat al) \<le> 256" shows "\<exists>k. key_for_size_align sz al = ret (Some k)"
proof -
  have "\<exists>k. (if m \<le> 16 then Some Size16 else if m \<le> 32 then Some Size32 else if m \<le> 64 then Some Size64
     else if m \<le> 128 then Some Size128 else if m \<le> 256 then Some Size256 else None) = Some k" if "m \<le> 256" for m :: nat
    using that by auto
  from this [OF assms] show ?thesis unfolding key_for_size_align_eq Let_def by auto
qed

lemma key_for_size_align_None:
  assumes "\<not> max (unat sz) (unat al) \<le> 256" shows "key_for_size_align sz al = ret None"
proof -
  have "(if m \<le> 16 then Some Size16 else if m \<le> 32 then Some Size32 else if m \<le> 64 then Some Size64
     else if m \<le> 128 then Some Size128 else if m \<le> 256 then Some Size256 else None) = None" if "\<not> m \<le> 256" for m :: nat
    using that by auto
  from this [OF assms] show ?thesis unfolding key_for_size_align_eq Let_def by (simp only:)
qed

section \<open>Cutting a chunk into blocks\<close>

definition blocks_of :: "usize \<Rightarrow> nat \<Rightarrow> usize list" where
  "blocks_of a n = map (\<lambda>i. a + of_nat (256 * i)) [0..<n]"

lemma blocks_of_Suc: "blocks_of a (Suc n) = a # blocks_of (a + 256) n"
  unfolding blocks_of_def upt_rec [of 0 "Suc n"] by (simp add: map_Suc_upt [symmetric] algebra_simps del: upt_Suc)

lemma header_align_dvd:
  assumes "header_law HL" shows "unat (hl_align HL) dvd 256" "0 < unat (hl_align HL)"
proof -
  obtain k where k: "unat (hl_align HL) = 2 ^ k" using assms is_power_of_two_exp unfolding header_law_def by metis
  have "unat (hl_align HL) \<le> 16" using assms by (auto simp: header_law_def dest: dvd_imp_le)
  then have "(2 :: nat) ^ k dvd 2 ^ 4" unfolding pow2_dvd_iff using k by simp
  then have "(2 :: nat) ^ k dvd 2 ^ 8" by (rule dvd_trans) simp
  then show "unat (hl_align HL) dvd 256" using k by simp
  show "0 < unat (hl_align HL)" using k by simp
qed

lemma free_block_build_eq:
  assumes HL: "header_law HL" and c: "256 \<le> unat (sl_len chunk)" "256 dvd unat (sl_addr chunk)"
  shows "free_block_build HL hdrs chunk Size256 = ret (sl_addr chunk,
    \<lparr>sl_addr = sl_addr chunk + 256, sl_len = sl_len chunk - 256\<rparr>, hdrs(sl_addr chunk := \<lparr>fb_size = Size256\<rparr>))"
proof -
  note al = header_align_dvd [OF HL]
  have sz: "unat (hl_size HL) \<le> 256" "is_power_of_two (hl_align HL)" using HL by (auto simp: header_law_def)
  then have "metadata_from_size HL 256 = ret (256 - hl_size HL)" "unat (256 - hl_size HL) = 256 - unat (hl_size HL)"
    by (simp_all add: metadata_from_size_def u_sub_def checked_sub_def word_le_nat_alt unat_sub_exact)
  moreover have "size_of_free_block HL (256 - hl_size HL) = 256"
    using calculation(2) sz(1) round_up_id [OF al(2,1)] by (simp add: size_of_free_block_def)
  moreover have "ptr_is_aligned_to (sl_addr chunk) (hl_align HL) = ret True"
    using dvd_trans [OF al(1) c(2)] by (simp add: ptr_is_aligned_to_eq [OF sz(2)])
  ultimately show ?thesis using c(1) by (simp add: free_block_build_def word_le_nat_alt Let_def)
qed

lemma dvd_unat_add:
  assumes "(2 :: nat) ^ k dvd unat a" "2 ^ k dvd unat (b :: usize)" "k \<le> 64"
  shows "2 ^ k dvd unat (a + b)"
proof -
  have "(2 :: nat) ^ k dvd 2 ^ 64" using assms(3) by (rule le_imp_power_dvd)
  then have "2 ^ k dvd (unat a + unat b) mod 2 ^ 64" using assms(1,2) by (metis dvd_add dvd_mod)
  then show ?thesis by (simp add: unat_word_ariths)
qed

lemma carve_chunk_runs:
  assumes L: "sll_law L \<alpha>" and HL: "header_law HL"
    and "unat (sl_len chunk) div 256 = n" "256 dvd unat (sl_addr chunk)"
  shows "runs (carve_chunk L HL hdrs fl chunk) (\<lambda>(fl', hdrs'). \<alpha> fl' = rev (blocks_of (sl_addr chunk) n) @ \<alpha> fl
    \<and> hdrs' = (\<lambda>b. if b \<in> set (blocks_of (sl_addr chunk) n) then \<lparr>fb_size = Size256\<rparr> else hdrs b))"
  using assms(3,4)
proof (induction n arbitrary: hdrs fl chunk)
  case 0
  then show ?case by (subst carve_chunk.simps) (simp add: word_le_nat_alt div_eq_0_iff not_le blocks_of_def)
next
  case (Suc n)
  let ?rest = "\<lparr>sl_addr = sl_addr chunk + 256, sl_len = sl_len chunk - 256\<rparr>"
  have len: "256 \<le> unat (sl_len chunk)" using Suc.prems(1) by (metis div_less nat.distinct(1) not_le)
  have "unat (sl_len ?rest) div 256 = n" using Suc.prems(1) len le_div_geq [of 256 "unat (sl_len chunk)"]
    by (simp add: unat_sub_exact word_le_nat_alt)
  moreover have "256 dvd unat (sl_addr ?rest)" using dvd_unat_add [of 8 "sl_addr chunk" 256] Suc.prems(2) by simp
  ultimately have "runs (carve_chunk L HL (hdrs(sl_addr chunk := \<lparr>fb_size = Size256\<rparr>)) (sll_push_front L (sl_addr chunk) fl) ?rest)
      (\<lambda>(fl', hdrs'). \<alpha> fl' = rev (blocks_of (sl_addr ?rest) n) @ \<alpha> (sll_push_front L (sl_addr chunk) fl)
        \<and> hdrs' = (\<lambda>b. if b \<in> set (blocks_of (sl_addr ?rest) n) then \<lparr>fb_size = Size256\<rparr>
            else (hdrs(sl_addr chunk := \<lparr>fb_size = Size256\<rparr>)) b))"
    by (rule Suc.IH)
  moreover have "carve_chunk L HL hdrs fl chunk = carve_chunk L HL (hdrs(sl_addr chunk := \<lparr>fb_size = Size256\<rparr>))
      (sll_push_front L (sl_addr chunk) fl) ?rest"
    by (subst carve_chunk.simps) (simp add: word_le_nat_alt len free_block_build_eq [OF HL len Suc.prems(2)])
  ultimately show ?case using L by (auto simp: blocks_of_Suc sll_law_def fun_eq_iff elim!: runs_mono)
qed

section \<open>The invariant of the heap\<close>

text \<open>
  Only the last free list is ever filled. Its blocks are distinct and aligned, have their header, and lie
  outside the memory \<open>pfree\<close> the provider can still give; \<open>pinv\<close> is the provider's own invariant.
\<close>

definition slice_region :: "slice_ptr \<Rightarrow> nat set" where
  "slice_region s = {unat (sl_addr s)..<unat (sl_addr s) + unat (sl_len s)}"

definition heap_blocks :: "('l \<Rightarrow> usize list) \<Rightarrow> ('l, 'p) heap \<Rightarrow> usize list" where
  "heap_blocks \<alpha> h = \<alpha> (free_lists h ! 4)"

definition block_region :: "usize \<Rightarrow> nat set" where
  "block_region b = {unat b..<unat b + 256}"

definition heap_avail :: "('l \<Rightarrow> usize list) \<Rightarrow> ('p \<Rightarrow> nat set) \<Rightarrow> ('l, 'p) heap \<Rightarrow> nat set" where
  "heap_avail \<alpha> pfree h = \<Union> (block_region ` set (heap_blocks \<alpha> h)) \<union> pfree (provider h)"

definition heap_inv :: "('l \<Rightarrow> usize list) \<Rightarrow> ('p \<Rightarrow> bool) \<Rightarrow> ('p \<Rightarrow> nat set) \<Rightarrow> ('l, 'p) heap \<Rightarrow> bool" where
  "heap_inv \<alpha> pinv pfree h \<longleftrightarrow> length (free_lists h) = 5 \<and> (\<forall>i < 4. \<alpha> (free_lists h ! i) = [])
    \<and> distinct (heap_blocks \<alpha> h)
    \<and> (\<forall>b \<in> set (heap_blocks \<alpha> h). 256 dvd unat b \<and> headers h b = \<lparr>fb_size = Size256\<rparr>)
    \<and> pinv (provider h) \<and> \<Union> (block_region ` set (heap_blocks \<alpha> h)) \<inter> pfree (provider h) = {}"

text \<open>What an allocation for \<open>l\<close> gives: enough aligned memory that was available and is no longer.\<close>

definition granted :: "('l \<Rightarrow> usize list) \<Rightarrow> ('p \<Rightarrow> nat set) \<Rightarrow> ('l, 'p) heap \<Rightarrow> layout \<Rightarrow> slice_ptr \<Rightarrow> ('l, 'p) heap \<Rightarrow> bool" where
  "granted \<alpha> pfree h l s h' \<longleftrightarrow> unat (lay_align l) dvd unat (sl_addr s) \<and> unat (lay_size l) \<le> unat (sl_len s)
    \<and> slice_region s \<subseteq> heap_avail \<alpha> pfree h - heap_avail \<alpha> pfree h'
    \<and> heap_avail \<alpha> pfree h' \<subseteq> heap_avail \<alpha> pfree h"

lemma block_region_disjoint:
  assumes "256 dvd unat a" "256 dvd unat b" "a \<noteq> b" shows "block_region a \<inter> block_region b = {}"
proof -
  have "unat a \<noteq> unat b" using assms(3) by (simp add: unat_inj_iff)
  moreover have "unat a < unat b + 256 \<Longrightarrow> unat a \<le> unat b" "unat b < unat a + 256 \<Longrightarrow> unat b \<le> unat a"
    using dvd_gap assms(1,2) by blast+
  ultimately show ?thesis unfolding block_region_def by auto
qed

lemma blocks_of_facts:
  assumes a: "256 dvd unat a" and n: "unat a + 256 * n \<le> 2 ^ 64"
  shows "distinct (blocks_of a n)" "b \<in> set (blocks_of a n) \<Longrightarrow> 256 dvd unat b"
    "\<Union> (block_region ` set (blocks_of a n)) = {unat a..<unat a + 256 * n}"
proof -
  have un: "unat (a + of_nat (256 * i)) = unat a + 256 * i" if "i < n" for i
  proof -
    have lt: "unat a + 256 * i < 2 ^ 64" using n that by linarith
    then have "unat (of_nat (256 * i) :: usize) = 256 * i" by (intro unat_of_nat_eq) simp
    then show ?thesis using unat_add_exact [of a "of_nat (256 * i)"] lt by (simp del: of_nat_mult)
  qed
  have "inj_on (\<lambda>i. a + of_nat (256 * i)) {0..<n}"
  proof (rule inj_onI)
    fix i j assume "i \<in> {0..<n}" "j \<in> {0..<n}" "a + of_nat (256 * i) = a + of_nat (256 * j)"
    then have "unat a + 256 * i = unat a + 256 * j" using un [of i] un [of j] by simp
    then show "i = j" by simp
  qed
  then show "distinct (blocks_of a n)" unfolding blocks_of_def by (simp add: distinct_map)
  show "256 dvd unat b" if "b \<in> set (blocks_of a n)" using that un a by (auto simp: blocks_of_def simp del: of_nat_mult)
  have "\<Union> (block_region ` set (blocks_of a n)) = (\<Union>i < n. {unat a + 256 * i..<unat a + 256 * i + 256})"
    using un by (simp add: blocks_of_def block_region_def atLeast0LessThan del: of_nat_mult)
  also have "\<dots> = {unat a..<unat a + 256 * n}"
  proof (induction n)
    case (Suc n)
    then show ?case by (auto simp: lessThan_Suc)
  qed simp
  finally show "\<Union> (block_region ` set (blocks_of a n)) = {unat a..<unat a + 256 * n}" .
qed

text \<open>The search over the free lists finds the last one, if it has a block.\<close>

lemma find_last_list:
  assumes "sll_law L \<alpha>" "heap_inv \<alpha> pinv pfree h"
  shows "find (\<lambda>i. \<not> sll_is_empty L (free_lists h ! i)) [key_to_usize key..<length (free_lists h)] =
    (if heap_blocks \<alpha> h = [] then None else Some 4)"
proof -
  have "length (free_lists h) = 5" "\<And>i. i < 4 \<Longrightarrow> sll_is_empty L (free_lists h ! i)"
    "sll_is_empty L (free_lists h ! 4) \<longleftrightarrow> heap_blocks \<alpha> h = []"
    using assms by (auto simp: sll_law_def heap_inv_def heap_blocks_def)
  then show ?thesis by (cases key) (simp_all add: upt_rec numeral_eq_Suc)
qed

definition chunks_for :: "usize \<Rightarrow> usize \<Rightarrow> usize" where
  "chunks_for x y = of_nat (unat x div unat y + (if unat y dvd unat x then 0 else 1))"

lemma div_ceil_ok:
  assumes "0 < unat y"
  shows "div_ceil x y = ret (chunks_for x y)" "unat x \<le> unat (chunks_for x y) * unat y"
proof -
  have y: "y \<noteq> 0" using assms by auto
  have r: "0 < x mod y \<longleftrightarrow> \<not> unat y dvd unat x"
    by (simp add: word_less_nat_alt unat_mod dvd_eq_mod_eq_0)
  have lt: "unat x div unat y + (if unat y dvd unat x then 0 else 1) < 2 ^ 64"
  proof (cases "unat y dvd unat x")
    case True
    then show ?thesis using le_less_trans [OF div_le_dividend unat_less_exp [of x]] by simp
  next
    case False
    then have "unat y \<noteq> 1" by auto
    then have "2 \<le> unat y" using assms by linarith
    then have "unat x div unat y \<le> unat x div 2" by (simp add: div_le_mono2)
    moreover have "unat x div 2 + 1 < 18446744073709551616" using unat_u64_less [of x] by linarith
    ultimately have "unat x div unat y + 1 < 18446744073709551616" by linarith
    then show ?thesis using False by simp
  qed
  show "div_ceil x y = ret (chunks_for x y)"
    using y r lt u_add_Suc [of "unat x div unat y", where 'a = 64]
    by (auto simp: div_ceil_def u_div_def u_rem_def chunks_for_def unat_div [symmetric])
  have up: "q * n + r \<le> (q + (if d then 0 else 1)) * n" if "r < n" "d \<Longrightarrow> r = 0" for q n r :: nat and d
    using that by (cases d) auto
  have "unat x = unat x div unat y * unat y + unat x mod unat y" by simp
  also have "\<dots> \<le> (unat x div unat y + (if unat y dvd unat x then 0 else 1)) * unat y"
    by (rule up) (use assms in \<open>auto simp: dvd_eq_mod_eq_0\<close>)
  finally show "unat x \<le> unat (chunks_for x y) * unat y"
    unfolding chunks_for_def using lt by (simp add: unat_of_nat_eq del: of_nat_add)
qed

text \<open>
  A layout the heap can serve: the alignment is a power of two, as in every \<^verbatim>\<open>Layout\<close>, and not above the chunk
  size, and the number of chunks of a large request is one the provider serves.
\<close>

definition layout_ok :: "(usize \<Rightarrow> bool) \<Rightarrow> usize \<Rightarrow> layout \<Rightarrow> bool" where
  "layout_ok okc CHUNK_SIZE l \<longleftrightarrow> is_power_of_two (lay_align l) \<and> lay_align l \<le> CHUNK_SIZE
    \<and> (unat (lay_size l) \<le> 256 \<and> unat (lay_align l) \<le> 256 \<or> okc (chunks_for (lay_size l) CHUNK_SIZE))"

primrec heap_session ::
  "'l sll_ops \<Rightarrow> header_layout \<Rightarrow> usize \<Rightarrow> 'p chunk_source \<Rightarrow> ('l, 'p) heap \<Rightarrow> layout list
    \<Rightarrow> (slice_ptr list \<times> ('l, 'p) heap) rust" where
  "heap_session L HL CHUNK_SIZE pr h [] = ret ([], h)"
| "heap_session L HL CHUNK_SIZE pr h (l # ls) =
     bnd (heap_allocate L HL CHUNK_SIZE pr h l) (\<lambda>(s, h).
     bnd (heap_session L HL CHUNK_SIZE pr h ls) (\<lambda>(ss, h). ret (s # ss, h)))"

lemma heap_new_inv:
  assumes "sll_law L \<alpha>" "is_power_of_two CHUNK_SIZE" "256 \<le> unat CHUNK_SIZE" "pinv p"
  shows "\<exists>h. heap_new L CHUNK_SIZE hdrs p = ret h \<and> heap_inv \<alpha> pinv pfree h \<and> heap_avail \<alpha> pfree h = pfree p
    \<and> provider h = p"
proof -
  have "\<alpha> ([sll_new L, sll_new L, sll_new L, sll_new L, sll_new L] ! i) = []" if "i < 5" for i
    using assms(1) that by (auto simp: sll_law_def less_Suc_eq numeral_eq_Suc)
  moreover have "\<alpha> (sll_new L) = []" using assms(1) by (simp add: sll_law_def)
  ultimately show ?thesis using assms
    by (auto simp: heap_new_def BLOCK_SIZES_def word_le_nat_alt heap_inv_def heap_blocks_def heap_avail_def)
qed

section \<open>Chunk providers\<close>

text \<open>
  The contract of \<^verbatim>\<open>ChunkProvider\<close>, for the numbers \<open>okc\<close> of chunks: what \<^verbatim>\<open>allocate\<close> returns is sized and aligned to the
  chunk size, was free and is no longer. A provider without memory panics.
\<close>

locale chunk_provider =
  fixes pr :: "'p chunk_source" and pinv :: "'p \<Rightarrow> bool" and pfree :: "'p \<Rightarrow> nat set"
    and okc :: "usize \<Rightarrow> bool" and CHUNK_SIZE :: usize
  assumes chunk_size: "is_power_of_two CHUNK_SIZE" "256 \<le> unat CHUNK_SIZE"
    and one_chunk: "okc 1"
    and provides: "pinv p \<Longrightarrow> okc n \<Longrightarrow> pr p n = ret (s, p') \<Longrightarrow> pinv p'
      \<and> unat (sl_len s) = unat n * unat CHUNK_SIZE \<and> unat CHUNK_SIZE dvd unat (sl_addr s)
      \<and> unat (sl_addr s) + unat (sl_len s) \<le> 2 ^ 64
      \<and> slice_region s \<subseteq> pfree p - pfree p' \<and> pfree p' \<subseteq> pfree p"
begin

lemma chunk_size_dvd: "256 dvd unat CHUNK_SIZE"
proof -
  obtain k where k: "unat CHUNK_SIZE = 2 ^ k" using is_power_of_two_exp [OF chunk_size(1)] by metis
  then show ?thesis using pow2_dvd_iff [of 8 k] chunk_size(2) by simp
qed

lemma fetch_chunk_ok:
  assumes L: "sll_law L \<alpha>" and HL: "header_law HL" and inv: "heap_inv \<alpha> pinv pfree h"
  shows "case fetch_chunk L HL CHUNK_SIZE pr h of Inl e \<Rightarrow> pr (provider h) 1 = Inl e
    | Inr h' \<Rightarrow> heap_inv \<alpha> pinv pfree h' \<and> heap_blocks \<alpha> h' \<noteq> [] \<and> heap_avail \<alpha> pfree h' \<subseteq> heap_avail \<alpha> pfree h"
proof (cases "pr (provider h) 1")
  case (Inl e)
  then show ?thesis by (simp add: fetch_chunk_def)
next
  case (Inr r)
  obtain s p' where r: "pr (provider h) 1 = ret (s, p')" using Inr by (cases r) auto
  let ?a = "sl_addr s" and ?n = "unat CHUNK_SIZE div 256"
  have pi: "pinv (provider h)" using inv by (simp add: heap_inv_def)
  have s: "pinv p'" "sl_len s = CHUNK_SIZE" "unat CHUNK_SIZE dvd unat ?a" "unat ?a + unat CHUNK_SIZE \<le> 2 ^ 64"
    "{unat ?a..<unat ?a + unat CHUNK_SIZE} \<subseteq> pfree (provider h) - pfree p'" "pfree p' \<subseteq> pfree (provider h)"
    using provides [OF pi one_chunk r] by (auto simp: slice_region_def unat_inj_iff)
  have a: "256 dvd unat ?a" using dvd_trans [OF chunk_size_dvd s(3)] .
  have n: "256 * ?n = unat CHUNK_SIZE" "0 < ?n" using chunk_size_dvd chunk_size(2) by (simp_all add: div_greater_zero_iff)
  obtain fl hdrs where c: "carve_chunk L HL (headers h) (free_lists h ! 4) s = ret (fl, hdrs)"
    "\<alpha> fl = rev (blocks_of ?a ?n) @ heap_blocks \<alpha> h"
    "hdrs = (\<lambda>b. if b \<in> set (blocks_of ?a ?n) then \<lparr>fb_size = Size256\<rparr> else headers h b)"
    using carve_chunk_runs [OF L HL _ a, of ?n "headers h" "free_lists h ! 4"] s(2) by (auto simp: runs_iff heap_blocks_def)
  let ?h = "h\<lparr>free_lists := (free_lists h)[4 := fl], provider := p', headers := hdrs\<rparr>"
  have al: "ptr_is_aligned_to ?a CHUNK_SIZE = ret True" "ptr_is_aligned_to ?a (hl_align HL) = ret True"
    using s(3) chunk_size(1) HL dvd_trans [OF header_align_dvd(1) [OF HL] a]
    by (simp_all add: ptr_is_aligned_to_eq header_law_def)
  have "hl_size HL \<le> CHUNK_SIZE" using HL chunk_size(2) by (simp add: header_law_def word_le_nat_alt)
  then have eq: "fetch_chunk L HL CHUNK_SIZE pr h = ret ?h"
    using inv c(1) r s(2) al by (simp add: fetch_chunk_def heap_inv_def)
  have an: "unat ?a + 256 * ?n \<le> 2 ^ 64" by (simp only: n(1) s(4))
  note b = blocks_of_facts(1,2) [OF a an] blocks_of_facts(3) [OF a an, unfolded n(1)]
  have bl: "heap_blocks \<alpha> ?h = rev (blocks_of ?a ?n) @ heap_blocks \<alpha> h"
    using inv c(2) by (simp add: heap_blocks_def heap_inv_def)
  have old: "\<Union> (block_region ` set (heap_blocks \<alpha> h)) \<inter> pfree (provider h) = {}" using inv by (simp add: heap_inv_def)
  have "x \<notin> set (blocks_of ?a ?n)" if "x \<in> set (heap_blocks \<alpha> h)" for x
  proof
    assume "x \<in> set (blocks_of ?a ?n)"
    then have "block_region x \<subseteq> pfree (provider h)" using b(3) s(5) by blast
    moreover have "unat x \<in> block_region x" by (simp add: block_region_def)
    ultimately show False using old that by blast
  qed
  then have "heap_inv \<alpha> pinv pfree ?h"
    using inv b(1,2) s(1) old s(5,6) b(3) unfolding heap_inv_def bl by (auto simp: c(3))
  moreover have "heap_blocks \<alpha> ?h \<noteq> []" using bl n(2) by (simp add: blocks_of_def)
  moreover have "heap_avail \<alpha> pfree ?h \<subseteq> heap_avail \<alpha> pfree h"
    using b(3) s(5,6) unfolding heap_avail_def bl by auto
  ultimately show ?thesis by (simp add: eq)
qed

lemma allocate_small_pop:
  assumes L: "sll_law L \<alpha>" and inv: "heap_inv \<alpha> pinv pfree h" and b: "heap_blocks \<alpha> h = b # bs"
    and l: "is_power_of_two (lay_align l)" "unat (lay_align l) \<le> 256" "unat (lay_size l) \<le> 256"
  shows "runs (allocate_small (Suc n) L HL CHUNK_SIZE pr h key l)
    (\<lambda>(s, h'). heap_inv \<alpha> pinv pfree h' \<and> granted \<alpha> pfree h l s h')"
proof -
  obtain fl where fl: "sll_pop_front L (free_lists h ! 4) = (Some b, fl)" "\<alpha> fl = bs"
    using L b by (auto simp: sll_law_def heap_blocks_def prod_eq_iff dest!: spec [of _ "free_lists h ! 4"])
  have bb: "256 dvd unat b" "headers h b = \<lparr>fb_size = Size256\<rparr>" "distinct (b # bs)" "length (free_lists h) = 5"
    using inv b by (auto simp: heap_inv_def)
  have f: "find (\<lambda>i. \<not> sll_is_empty L (free_lists h ! i)) [key_to_usize key..<length (free_lists h)] = Some 4"
    using find_last_list [OF L inv] b by simp
  obtain k where k: "unat (lay_align l) = 2 ^ k" using is_power_of_two_exp [OF l(1)] by metis
  then have al: "unat (lay_align l) dvd unat b"
    using dvd_trans [OF _ bb(1)] l(2) pow2_dvd_iff [of k 8] by simp
  let ?s = "\<lparr>sl_addr = b, sl_len = lay_size l\<rparr>" and ?h = "h\<lparr>free_lists := (free_lists h)[4 := fl]\<rparr>"
  have eq: "allocate_small (Suc n) L HL CHUNK_SIZE pr h key l = ret (?s, ?h)"
    using fl(1) bb(2,4) al l(3) f by (cases key) (simp_all add: ptr_is_aligned_to_eq [OF l(1)] word_le_nat_alt)
  have bl: "heap_blocks \<alpha> ?h = bs" using bb(4) fl(2) by (simp add: heap_blocks_def)
  have inv': "heap_inv \<alpha> pinv pfree ?h"
    using inv b bb(4) unfolding heap_inv_def bl by auto
  have "block_region b \<inter> block_region c = {}" if "c \<in> set bs" for c
    using inv b bb(1,3) that by (intro block_region_disjoint) (auto simp: heap_inv_def)
  moreover have "block_region b \<inter> pfree (provider h) = {}" using inv b by (auto simp: heap_inv_def)
  ultimately have "block_region b \<inter> heap_avail \<alpha> pfree ?h = {}" unfolding heap_avail_def bl by auto
  moreover have "block_region b \<subseteq> heap_avail \<alpha> pfree h" "heap_avail \<alpha> pfree ?h \<subseteq> heap_avail \<alpha> pfree h"
    unfolding heap_avail_def bl b by auto
  moreover have "slice_region ?s \<subseteq> block_region b" using l(3) by (auto simp: slice_region_def block_region_def)
  ultimately have "granted \<alpha> pfree h l ?s ?h" using al unfolding granted_def by auto
  then show ?thesis using eq inv' by simp
qed

lemma allocate_small_ok:
  assumes L: "sll_law L \<alpha>" and HL: "header_law HL" and inv: "heap_inv \<alpha> pinv pfree h"
    and l: "is_power_of_two (lay_align l)" "unat (lay_align l) \<le> 256" "unat (lay_size l) \<le> 256"
  shows "case allocate_small (Suc (Suc n)) L HL CHUNK_SIZE pr h key l of Inl e \<Rightarrow> pr (provider h) 1 = Inl e
    | Inr (s, h') \<Rightarrow> heap_inv \<alpha> pinv pfree h' \<and> granted \<alpha> pfree h l s h'"
proof (cases "heap_blocks \<alpha> h")
  case (Cons b bs)
  from allocate_small_pop [OF L inv this l, of "Suc n" HL key] show ?thesis
    by (auto simp: runs_iff simp del: allocate_small.simps)
next
  case Nil
  then have f: "find (\<lambda>i. \<not> sll_is_empty L (free_lists h ! i)) [key_to_usize key..<length (free_lists h)] = None"
    using find_last_list [OF L inv] by simp
  have "\<not> length (free_lists h) < key_to_usize key" using inv by (cases key) (simp_all add: heap_inv_def)
  then have eq: "allocate_small (Suc (Suc n)) L HL CHUNK_SIZE pr h key l =
      bnd (fetch_chunk L HL CHUNK_SIZE pr h) (\<lambda>h. allocate_small (Suc n) L HL CHUNK_SIZE pr h key l)"
    by (subst allocate_small.simps(2)) (simp only: Let_def f option.case if_False)
  show ?thesis
  proof (cases "fetch_chunk L HL CHUNK_SIZE pr h")
    case (Inl e)
    then show ?thesis using fetch_chunk_ok [OF L HL inv] unfolding eq by simp
  next
    case (Inr h1)
    then have h1: "heap_inv \<alpha> pinv pfree h1" "heap_blocks \<alpha> h1 \<noteq> []" "heap_avail \<alpha> pfree h1 \<subseteq> heap_avail \<alpha> pfree h"
      using fetch_chunk_ok [OF L HL inv] by simp_all
    then obtain b bs where "heap_blocks \<alpha> h1 = b # bs" by (metis list.exhaust)
    then obtain s h2 where "allocate_small (Suc n) L HL CHUNK_SIZE pr h1 key l = ret (s, h2)"
      "heap_inv \<alpha> pinv pfree h2" "granted \<alpha> pfree h1 l s h2"
      using allocate_small_pop [OF L h1(1) _ l, of b bs n HL key] unfolding runs_iff by blast
    then show ?thesis using Inr h1(3) unfolding eq granted_def by (simp del: allocate_small.simps) blast
  qed
qed

text \<open>An allocation panics only as the provider does, and what it returns is granted.\<close>

lemma heap_allocate_ok:
  assumes L: "sll_law L \<alpha>" and HL: "header_law HL" and inv: "heap_inv \<alpha> pinv pfree h"
    and l: "layout_ok okc CHUNK_SIZE l"
  shows "case heap_allocate L HL CHUNK_SIZE pr h l of Inl e \<Rightarrow> (\<exists>n. pr (provider h) n = Inl e)
    | Inr (s, h') \<Rightarrow> heap_inv \<alpha> pinv pfree h' \<and> granted \<alpha> pfree h l s h'"
proof -
  have al: "is_power_of_two (lay_align l)" "lay_align l \<le> CHUNK_SIZE" using l by (auto simp: layout_ok_def)
  show ?thesis
  proof (cases "max (unat (lay_size l)) (unat (lay_align l)) \<le> 256")
    case True
    then obtain key where "key_for_size_align (lay_size l) (lay_align l) = ret (Some key)"
      using key_for_size_align_Some by blast
    then have "heap_allocate L HL CHUNK_SIZE pr h l = allocate_small (Suc (Suc 0)) L HL CHUNK_SIZE pr h key l"
      by (simp add: heap_allocate_def numeral_2_eq_2)
    then show ?thesis using allocate_small_ok [OF L HL inv al(1), of 0 key] True
      by (auto split: sum.splits)
  next
    case False
    then have k: "key_for_size_align (lay_size l) (lay_align l) = ret None" by (rule key_for_size_align_None)
    obtain c where c: "div_ceil (lay_size l) CHUNK_SIZE = ret c" "okc c" "unat (lay_size l) \<le> unat c * unat CHUNK_SIZE"
      using div_ceil_ok [of CHUNK_SIZE "lay_size l"] chunk_size(2) l False by (auto simp: layout_ok_def)
    show ?thesis
    proof (cases "pr (provider h) c")
      case (Inl e)
      then show ?thesis using k c(1) by (auto simp: heap_allocate_def)
    next
      case (Inr r)
      then obtain s p' where r: "pr (provider h) c = ret (s, p')" by (cases r) auto
      have "pinv (provider h)" using inv by (simp add: heap_inv_def)
      note s = provides [OF this c(2) r]
      have "unat (lay_align l) dvd unat CHUNK_SIZE"
        using is_power_of_two_exp [OF al(1)] is_power_of_two_exp [OF chunk_size(1)] al(2) pow2_dvd_iff by (metis word_le_nat_alt)
      then have "unat (lay_align l) dvd unat (sl_addr s)" using s by (blast intro: dvd_trans)
      then have "granted \<alpha> pfree h l s (h\<lparr>provider := p'\<rparr>)"
        using s c(3) inv unfolding granted_def heap_avail_def heap_blocks_def heap_inv_def by auto
      moreover have "heap_inv \<alpha> pinv pfree (h\<lparr>provider := p'\<rparr>)"
        using inv s unfolding heap_inv_def heap_blocks_def by auto
      ultimately show ?thesis using k c(1) r by (simp add: heap_allocate_def)
    qed
  qed
qed

text \<open>Whatever the sequence of requests, no byte is given twice.\<close>

lemma heap_session_ok:
  assumes L: "sll_law L \<alpha>" and HL: "header_law HL"
  shows "heap_inv \<alpha> pinv pfree h \<Longrightarrow> list_all (layout_ok okc CHUNK_SIZE) ls \<Longrightarrow>
    case heap_session L HL CHUNK_SIZE pr h ls of
      Inl e \<Rightarrow> \<exists>p n. pinv p \<and> pr p n = Inl e
    | Inr (ss, h') \<Rightarrow> heap_inv \<alpha> pinv pfree h'
        \<and> list_all2 (\<lambda>l s. unat (lay_align l) dvd unat (sl_addr s) \<and> unat (lay_size l) \<le> unat (sl_len s)) ls ss
        \<and> sorted_wrt (\<lambda>s s'. slice_region s \<inter> slice_region s' = {}) ss
        \<and> \<Union> (slice_region ` set ss) \<subseteq> heap_avail \<alpha> pfree h - heap_avail \<alpha> pfree h'
        \<and> heap_avail \<alpha> pfree h' \<subseteq> heap_avail \<alpha> pfree h"
proof (induction ls arbitrary: h)
  case (Cons l ls)
  have ok: "layout_ok okc CHUNK_SIZE l" "list_all (layout_ok okc CHUNK_SIZE) ls" using Cons.prems(2) by auto
  note al = heap_allocate_ok [OF L HL Cons.prems(1) ok(1)]
  show ?case
  proof (cases "heap_allocate L HL CHUNK_SIZE pr h l")
    case (Inl e)
    then show ?thesis using al Cons.prems(1) by (auto simp: heap_inv_def)
  next
    case (Inr r)
    obtain s h1 where 1: "heap_allocate L HL CHUNK_SIZE pr h l = ret (s, h1)" using Inr by (cases r) auto
    have g: "heap_inv \<alpha> pinv pfree h1" "granted \<alpha> pfree h l s h1" using al 1 by auto
    note IH = Cons.IH [OF g(1) ok(2)]
    show ?thesis
    proof (cases "heap_session L HL CHUNK_SIZE pr h1 ls")
      case (Inl e)
      then show ?thesis using IH 1 by simp
    next
      case (Inr q)
      obtain ss h' where 2: "heap_session L HL CHUNK_SIZE pr h1 ls = ret (ss, h')" using Inr by (cases q) auto
      have "slice_region s \<inter> slice_region s' = {}" if "s' \<in> set ss" for s'
        using IH 2 g(2) that unfolding granted_def by fastforce
      then show ?thesis using IH 1 2 g(2) unfolding granted_def by auto
    qed
  qed
qed simp

end

section \<open>Properties\<close>

text \<open>A list of addresses behaves as the crate's list, and the header has two words.\<close>

definition list_sll :: "usize list sll_ops" where
  "list_sll = \<lparr>sll_new = [], sll_is_empty = (\<lambda>l. l = []), sll_push_front = (#),
     sll_pop_front = (\<lambda>l. case l of [] \<Rightarrow> (None, []) | x # xs \<Rightarrow> (Some x, xs))\<rparr>"

definition two_words :: header_layout where
  "two_words = \<lparr>hl_size = 16, hl_align = 8\<rparr>"

lemma list_sll_law: "sll_law list_sll (\<lambda>l. l)"
  by (simp add: sll_law_def list_sll_def split: list.splits)

lemma two_words_law: "header_law two_words"
  using is_power_of_two_pow [of 3] by (simp add: header_law_def two_words_def)

text \<open>
  C18. \<^verbatim>\<open>key_for_size_align\<close> picks the smallest block size that is at least the size and the alignment, and \<^verbatim>\<open>None\<close>
  exactly when every block size is too small.
\<close>

theorem key_for_size_align_correct:
  "runs (key_for_size_align sz al) (\<lambda>r. case r of
     None \<Rightarrow> \<forall>b \<in> set BLOCK_SIZES. b < max sz al
   | Some k \<Rightarrow> runs (key_size k) (\<lambda>b. max sz al \<le> b \<and> (\<forall>c \<in> set BLOCK_SIZES. max sz al \<le> c \<longrightarrow> b \<le> c)))"
proof -
  define x where "x = max sz al"
  have m: "max (unat sz) (unat al) = unat x" by (simp add: x_def max_def word_le_nat_alt)
  show ?thesis unfolding key_for_size_align_eq m x_def [symmetric] Let_def
    by (auto simp: BLOCK_SIZES_def word_le_nat_alt word_less_nat_alt)
qed

theorem key_for_size_align_correct_witness:
  "key_for_size_align 24 64 = ret (Some Size64) \<and> runs (key_for_size_align 24 64) (\<lambda>r. case r of
     None \<Rightarrow> \<forall>b \<in> set BLOCK_SIZES. b < max 24 64
   | Some k \<Rightarrow> runs (key_size k) (\<lambda>b. max 24 64 \<le> b \<and> (\<forall>c \<in> set BLOCK_SIZES. max 24 64 \<le> c \<longrightarrow> b \<le> c)))"
  using key_for_size_align_correct [of 24 64] by (simp add: key_for_size_align_eq)

text \<open>
  C17. The loop of \<^verbatim>\<open>fetch_chunk\<close> ends and cuts an aligned chunk into distinct blocks, each aligned to and with the
  header of a block of 256 bytes, that cover the chunk up to the last whole block, and adds them to the free list.
\<close>

theorem carve_chunk_correct:
  assumes "sll_law L \<alpha>" "header_law HL" "256 dvd unat (sl_addr chunk)"
    and "unat (sl_addr chunk) + unat (sl_len chunk) \<le> 2 ^ 64"
  shows "runs (carve_chunk L HL hdrs fl chunk) (\<lambda>(fl', hdrs'). \<exists>bs. \<alpha> fl' = bs @ \<alpha> fl \<and> distinct bs
    \<and> \<Union> (block_region ` set bs) = {unat (sl_addr chunk)..<unat (sl_addr chunk) + round_down 256 (unat (sl_len chunk))}
    \<and> (\<forall>b. if b \<in> set bs then 256 dvd unat b \<and> hdrs' b = \<lparr>fb_size = Size256\<rparr> else hdrs' b = hdrs b))"
proof -
  let ?n = "unat (sl_len chunk) div 256"
  have n: "256 * ?n = round_down 256 (unat (sl_len chunk))" by (simp add: round_down_def)
  have le: "unat (sl_addr chunk) + 256 * ?n \<le> 2 ^ 64"
    using assms(4) round_down_le [of 256 "unat (sl_len chunk)"] unfolding n by linarith
  note b = blocks_of_facts [OF assms(3) le]
  show ?thesis
  proof (rule runs_mono [OF carve_chunk_runs [OF assms(1,2) refl assms(3)]], clarify)
    fix fl' assume "\<alpha> fl' = rev (blocks_of (sl_addr chunk) ?n) @ \<alpha> fl"
    then show "\<exists>bs. \<alpha> fl' = bs @ \<alpha> fl \<and> distinct bs
      \<and> \<Union> (block_region ` set bs) = {unat (sl_addr chunk)..<unat (sl_addr chunk) + round_down 256 (unat (sl_len chunk))}
      \<and> (\<forall>b. if b \<in> set bs then 256 dvd unat b
            \<and> (if b \<in> set (blocks_of (sl_addr chunk) ?n) then \<lparr>fb_size = Size256\<rparr> else hdrs b) = \<lparr>fb_size = Size256\<rparr>
          else (if b \<in> set (blocks_of (sl_addr chunk) ?n) then \<lparr>fb_size = Size256\<rparr> else hdrs b) = hdrs b)"
      using b unfolding n by (intro exI [of _ "rev (blocks_of (sl_addr chunk) ?n)"]) simp
  qed
qed

theorem carve_chunk_correct_witness:
  "runs (carve_chunk list_sll two_words (\<lambda>_. \<lparr>fb_size = Size16\<rparr>) [] \<lparr>sl_addr = 0x2000, sl_len = 4096\<rparr>) (\<lambda>(fl', hdrs'). \<exists>bs. fl' = bs @ [] \<and> distinct bs
    \<and> \<Union> (block_region ` set bs) = {unat (0x2000 :: usize)..<unat (0x2000 :: usize) + round_down 256 (unat (4096 :: usize))})"
  by (rule runs_mono [OF carve_chunk_correct [OF list_sll_law two_words_law]]) (auto)

end
