(* ===== verification/Kernel_MM.thy ===== *)
theory Kernel_MM
  imports Bitmap_Fill Paging Heap
begin

text \<open>
  \<^verbatim>\<open>src/mm.rs\<close>: the kernel's memory management. The layout of the virtual address space, the global frame
  allocator and its owners, the heap's chunk provider, and \<^verbatim>\<open>init\<close>, which reads the boot information, marks
  the kernel's areas, builds the page table template with a bump allocator, and sets up the frame
  allocator.

  The statics of the file are a record. What the crates \<^verbatim>\<open>multiboot2\<close> and \<^verbatim>\<open>x86_64\<close> and the linker provide is
  an argument: the memory areas and ELF sections of the boot information, the addresses of the linker's
  symbols, and the construction of the frame that is written to \<^verbatim>\<open>CR3\<close>. A mutex is not modelled: every function
  releases it before it returns, and none calls another while it holds it.
\<close>

section \<open>Model\<close>

subsection \<open>The virtual address space\<close>

definition first_mib :: "virt_extent rust" where
  "first_mib = extent_from_raw 0 (1024 * 1024)"

definition user_extent :: "virt_extent rust" where
  "user_extent = bnd first_mib (\<lambda>m. from_raw_range_exclusive (addr_raw (ext_address m)) 0x0000800000000000)"

definition phys_map :: "virt_extent rust" where
  "phys_map = from_raw_range_exclusive 0xffff800000000000 0xffff80ffffffffff"

definition kernel_image :: "virt_extent rust" where
  "kernel_image = from_raw_range_exclusive 0xffffffff80000000 0xffffffffffffffff"

definition MAX_MEMORY :: mem_length where
  "MAX_MEMORY = Length 137438953472"

definition MAX_MEMORY_FRAMES :: usize where
  "MAX_MEMORY_FRAMES = len_raw MAX_MEMORY div len_raw PAGE_SIZE"

text \<open>The addresses of the linker's symbols.\<close>

record linker_symbols =
  KERNEL_PHYS_BEGIN_SYM :: u64
  KERNEL_PHYS_END_SYM :: u64
  KERNEL_VIRT_BASE :: u64

definition phys_to_virt :: "phys_address \<Rightarrow> virt_address rust" where
  "phys_to_virt phys =
     bnd (rassert (phys < from_zero MAX_MEMORY)) (\<lambda>_.
     bnd phys_map (\<lambda>m.
     bnd (address_sub phys address_zero) (\<lambda>d.
     address_add (ext_address m) d)))"

definition phys_extent_to_virt :: "phys_extent \<Rightarrow> virt_extent rust" where
  "phys_extent_to_virt phys =
     bnd (phys_to_virt (ext_address phys)) (\<lambda>v. extent_new v (ext_length phys))"

definition get_kernel_virt_base :: "linker_symbols \<Rightarrow> virt_address" where
  "get_kernel_virt_base syms = Address (KERNEL_VIRT_BASE syms)"

definition get_kernel_phys_extent :: "linker_symbols \<Rightarrow> phys_extent rust" where
  "get_kernel_phys_extent syms = from_raw_range_exclusive (KERNEL_PHYS_BEGIN_SYM syms) (KERNEL_PHYS_END_SYM syms)"

definition kernel_ptr_to_phys_addr :: "linker_symbols \<Rightarrow> u64 \<Rightarrow> phys_address rust" where
  "kernel_ptr_to_phys_addr syms p =
     (let virt_addr = Address p in
      bnd (rassert (virt_addr \<ge> get_kernel_virt_base syms)) (\<lambda>_.
      bnd (address_sub virt_addr (get_kernel_virt_base syms)) (\<lambda>d.
      ret (from_zero d))))"

subsection \<open>The global frame allocator\<close>

text \<open>\<^verbatim>\<open>FRAME_ALLOCATOR\<close> is a cell that is empty until \<^verbatim>\<open>init\<close> sets it.\<close>

type_synonym frame_cell = "bitmap_allocator option"

definition allocate_frames :: "frame_cell \<Rightarrow> usize \<Rightarrow> (frame_range option \<times> frame_cell) rust" where
  "allocate_frames cell order =
     bnd (unwrap cell) (\<lambda>a.
     bnd (allocate_range a order) (\<lambda>(r, a). ret (r, Some a)))"

definition allocate_frame :: "frame_cell \<Rightarrow> (frame option \<times> frame_cell) rust" where
  "allocate_frame cell = bnd (allocate_frames cell 0) (\<lambda>(r, cell). ret (map_option fr_first r, cell))"

definition deallocate_frames :: "frame_cell \<Rightarrow> frame_range \<Rightarrow> frame_cell rust" where
  "deallocate_frames cell frames =
     bnd (unwrap cell) (\<lambda>a.
     bnd (deallocate_range a frames) (\<lambda>a. ret (Some a)))"

record owned_frame_range =
  ofr_frames :: frame_range

definition allocate_owned_frames :: "frame_cell \<Rightarrow> usize \<Rightarrow> (owned_frame_range option \<times> frame_cell) rust" where
  "allocate_owned_frames cell order =
     bnd (allocate_frames cell order) (\<lambda>(r, cell). ret (map_option owned_frame_range.make r, cell))"

text \<open>The destructor of \<^verbatim>\<open>OwnedFrameRange\<close>.\<close>

definition drop_owned_frames :: "frame_cell \<Rightarrow> owned_frame_range \<Rightarrow> frame_cell rust" where
  "drop_owned_frames cell self = deallocate_frames cell (ofr_frames self)"

subsection \<open>The heap's chunk provider\<close>

text \<open>\<^verbatim>\<open>usize::next_power_of_two\<close>, which panics when the result does not fit, and \<^verbatim>\<open>usize::trailing_zeros\<close>.\<close>

definition next_power_of_two :: "usize \<Rightarrow> usize rust" where
  "next_power_of_two x = (case find (\<lambda>k. unat x \<le> 2 ^ k) [0..<64] of
     None \<Rightarrow> throw Overflow | Some k \<Rightarrow> ret (2 ^ k))"

definition trailing_zeros :: "usize \<Rightarrow> nat" where
  "trailing_zeros x = length (takeWhile (\<lambda>i. \<not> bit x i) [0..<64])"

definition heap_provider_allocate :: "frame_cell \<Rightarrow> usize \<Rightarrow> (slice_ptr \<times> frame_cell) rust" where
  "heap_provider_allocate cell num_chunks =
     bnd (unwrap cell) (\<lambda>frame_alloc.
     bnd (next_power_of_two num_chunks) (\<lambda>num_frames.
     let order = of_nat (trailing_zeros num_frames) in
     bnd (allocate_range frame_alloc order) (\<lambda>(r, frame_alloc).
     bnd (unwrap r) (\<lambda>frames.
     bnd (phys_to_virt (frame_start (fr_first frames))) (\<lambda>ptr.
     bnd (u_mul num_chunks (len_raw PAGE_SIZE)) (\<lambda>l.
     ret (\<lparr>sl_addr = addr_raw ptr, sl_len = l\<rparr>, Some frame_alloc)))))))"

subsection \<open>The boot information\<close>

datatype mb2_area_type = MbAvailable | MbReserved | MbAcpiAvailable | MbReservedHibernate | MbDefective | MbCustom u32

record mb2_area =
  ar_start :: u64
  ar_size :: u64
  ar_typ :: mb2_area_type

datatype elf_section_type = ProgramSection | Uninitialized | OtherSection

record elf_section =
  es_name :: "string option"
  es_type :: elf_section_type
  es_start :: u64
  es_size :: u64
  es_allocated :: bool
  es_executable :: bool
  es_writable :: bool

record boot_information =
  bi_start :: u64
  bi_total_size :: u64
  bi_memory_areas :: "mb2_area list option"
  bi_elf_sections :: "elf_section list option"

definition translate_area :: "mb2_area \<Rightarrow> map_entry rust" where
  "translate_area area =
     bnd (extent_from_raw (ar_start area) (ar_size area)) (\<lambda>e.
     bnd (case ar_typ area of
         MbAvailable \<Rightarrow> ret Available
       | MbReserved \<Rightarrow> ret Reserved
       | MbAcpiAvailable \<Rightarrow> ret Acpi
       | MbReservedHibernate \<Rightarrow> ret ReservedPreserveOnHibernation
       | MbDefective \<Rightarrow> ret Defective
       | MbCustom t \<Rightarrow> throw Explicit) (\<lambda>t.
     ret \<lparr>me_extent = e, me_type = t\<rparr>))"

primrec translate_areas :: "mb2_area list \<Rightarrow> map_entry list rust" where
  "translate_areas [] = ret []"
| "translate_areas (area # areas) =
     bnd (translate_area area) (\<lambda>e. bnd (translate_areas areas) (\<lambda>es. ret (e # es)))"

definition translate_memory_map :: "boot_information \<Rightarrow> memory_map rust" where
  "translate_memory_map mb2_info =
     bnd (unwrap (bi_memory_areas mb2_info)) (\<lambda>areas.
     bnd (translate_areas areas) from_entries)"

subsection \<open>The page table template\<close>

text \<open>\<^verbatim>\<open>mapper.map(..., PageTableFlags::all()).unwrap()\<close>\<close>

definition map_or_panic ::
  "'fl flag_ops \<Rightarrow> translator \<Rightarrow> 'fa frame_source \<Rightarrow> 'fl \<Rightarrow> 'fl \<Rightarrow> 'fa mapper \<Rightarrow> page \<Rightarrow> frame \<Rightarrow> 'fa mapper rust" where
  "map_or_panic FL tr fa leaf_flags parent_flags mapper p f =
     bnd (map_page FL tr fa mapper p f leaf_flags parent_flags (fl_all FL)) (\<lambda>(r, mapper).
     case r of Inl err \<Rightarrow> throw UnwrapNone | Inr _ \<Rightarrow> ret mapper)"

primrec map_phys_frames ::
  "'fl flag_ops \<Rightarrow> translator \<Rightarrow> 'fa frame_source \<Rightarrow> 'fl \<Rightarrow> 'fl \<Rightarrow> 'fa mapper \<Rightarrow> frame list \<Rightarrow> 'fa mapper rust" where
  "map_phys_frames FL tr fa leaf_flags parent_flags mapper [] = ret mapper"
| "map_phys_frames FL tr fa leaf_flags parent_flags mapper (f # fs) =
     bnd (phys_to_virt (frame_start f)) (\<lambda>v.
     bnd (page_new v) (\<lambda>p.
     bnd (map_or_panic FL tr fa leaf_flags parent_flags mapper p f) (\<lambda>mapper.
     map_phys_frames FL tr fa leaf_flags parent_flags mapper fs)))"

primrec map_phys_memory ::
  "'fl flag_ops \<Rightarrow> translator \<Rightarrow> 'fa frame_source \<Rightarrow> 'fl \<Rightarrow> 'fl \<Rightarrow> 'fa mapper \<Rightarrow> map_entry list \<Rightarrow> 'fa mapper rust" where
  "map_phys_memory FL tr fa leaf_flags parent_flags mapper [] = ret mapper"
| "map_phys_memory FL tr fa leaf_flags parent_flags mapper (e # es) =
     bnd (frame_containing_extent (me_extent e)) (\<lambda>r.
     bnd (frame_range_iter r) (\<lambda>fs.
     bnd (map_phys_frames FL tr fa leaf_flags parent_flags mapper fs) (\<lambda>mapper.
     map_phys_memory FL tr fa leaf_flags parent_flags mapper es)))"

text \<open>A loop over pages, with the address of the frame a page is mapped to.\<close>

primrec map_pages ::
  "'fl flag_ops \<Rightarrow> translator \<Rightarrow> 'fa frame_source \<Rightarrow> 'fl \<Rightarrow> 'fl \<Rightarrow> (page \<Rightarrow> phys_address rust) \<Rightarrow> 'fa mapper \<Rightarrow> page list
    \<Rightarrow> 'fa mapper rust" where
  "map_pages FL tr fa leaf_flags parent_flags target mapper [] = ret mapper"
| "map_pages FL tr fa leaf_flags parent_flags target mapper (p # ps) =
     bnd (target p) (\<lambda>a.
     bnd (frame_new a) (\<lambda>f.
     bnd (map_or_panic FL tr fa leaf_flags parent_flags mapper p f) (\<lambda>mapper.
     map_pages FL tr fa leaf_flags parent_flags target mapper ps)))"

definition section_leaf_flags :: "'fl flag_ops \<Rightarrow> elf_section \<Rightarrow> 'fl rust" where
  "section_leaf_flags FL s =
     (let leaf_flags = fl_const FL FLAG_PRESENT;
          leaf_flags = (if \<not> es_executable s then fl_or FL leaf_flags (fl_const FL FLAG_EXECUTE_DISABLE) else leaf_flags) in
      if es_writable s then
        bnd (rassert (\<not> es_executable s)) (\<lambda>_. ret (fl_or FL leaf_flags (fl_const FL FLAG_WRITABLE)))
      else ret leaf_flags)"

definition starts_with :: "string \<Rightarrow> string \<Rightarrow> bool" where
  "starts_with s pre \<longleftrightarrow> take (length pre) s = pre"

definition map_section ::
  "'fl flag_ops \<Rightarrow> translator \<Rightarrow> 'fa frame_source \<Rightarrow> linker_symbols \<Rightarrow> 'fl \<Rightarrow> 'fa mapper \<Rightarrow> elf_section \<Rightarrow> 'fa mapper rust" where
  "map_section FL tr fa syms parent_flags mapper s =
     bnd (extent_from_raw (es_start s) (es_size s)) (\<lambda>section_extent.
     if \<not> es_allocated s then ret mapper
     else
     bnd (unwrap (es_name s)) (\<lambda>name.
     if starts_with name ''.bootstrap'' then ret mapper
     else
     bnd kernel_image (\<lambda>image.
     bnd (contains image section_extent) (\<lambda>b.
     bnd (rassert b) (\<lambda>_.
     if es_type s = OtherSection then ret mapper
     else
     bnd (section_leaf_flags FL s) (\<lambda>leaf_flags.
     bnd (page_containing_extent section_extent) (\<lambda>r.
     bnd (page_range_iter r) (\<lambda>ps.
     map_pages FL tr fa leaf_flags parent_flags
       (\<lambda>p. bnd (address_sub (page_start p) (get_kernel_virt_base syms)) (\<lambda>d. ret (from_zero d))) mapper ps))))))))"

primrec map_sections ::
  "'fl flag_ops \<Rightarrow> translator \<Rightarrow> 'fa frame_source \<Rightarrow> linker_symbols \<Rightarrow> 'fl \<Rightarrow> 'fa mapper \<Rightarrow> elf_section list \<Rightarrow> 'fa mapper rust" where
  "map_sections FL tr fa syms parent_flags mapper [] = ret mapper"
| "map_sections FL tr fa syms parent_flags mapper (s # ss) =
     bnd (map_section FL tr fa syms parent_flags mapper s) (\<lambda>mapper.
     map_sections FL tr fa syms parent_flags mapper ss)"

definition create_page_table_template ::
  "'fl flag_ops \<Rightarrow> linker_symbols \<Rightarrow> boot_information \<Rightarrow> memory_map \<Rightarrow> 'fa frame_source \<Rightarrow> translator
    \<Rightarrow> (virt_address \<Rightarrow> page_table) \<Rightarrow> 'fa \<Rightarrow> 'fa mapper rust" where
  "create_page_table_template FL syms boot_info m get_frame tr memory frames =
     (let mapper = \<lparr>mp_level_4 = page_table_zero, mp_memory = memory, mp_frames = frames\<rparr>;
          shared_parent_flags = fl_or FL (fl_or FL (fl_const FL FLAG_PRESENT) (fl_const FL FLAG_GLOBAL))
            (fl_const FL FLAG_APP_PARENT_FROZEN);
          leaf_flags = fl_or FL (fl_or FL (fl_const FL FLAG_PRESENT) (fl_const FL FLAG_WRITABLE))
            (fl_const FL FLAG_EXECUTE_DISABLE);
          parent_flags = fl_or FL shared_parent_flags (fl_const FL FLAG_WRITABLE) in
      bnd (map_entries m) (\<lambda>es.
      bnd (map_phys_memory FL tr get_frame leaf_flags parent_flags mapper es) (\<lambda>mapper.
      bnd first_mib (\<lambda>e.
      bnd (page_containing_extent e) (\<lambda>r.
      bnd (page_range_iter r) (\<lambda>ps.
      bnd (map_pages FL tr get_frame leaf_flags parent_flags
        (\<lambda>p. ret (Address (addr_raw (page_start p)))) mapper ps) (\<lambda>mapper.
      bnd (unwrap (bi_elf_sections boot_info)) (\<lambda>ss.
      map_sections FL tr get_frame syms parent_flags mapper ss))))))))"

subsection \<open>Initialization\<close>

record kernel_mm =
  km_initialized :: bool
  km_frame_allocator :: frame_cell
  km_frame_bitmap :: "u8 list"
  km_tables :: "virt_address \<Rightarrow> page_table"
  km_init_page_table :: page_table
  km_cr3 :: "u64 option"

text \<open>
  \<open>root_ptr\<close> is the address of \<^verbatim>\<open>INIT_PAGE_TABLE\<close>, \<open>cr3_frame\<close> is
  \<^verbatim>\<open>PhysFrame::from_start_address(PhysAddr::new(a)).unwrap()\<close> of the crate \<^verbatim>\<open>x86_64\<close>.
\<close>

definition install_page_table ::
  "linker_symbols \<Rightarrow> (u64 \<Rightarrow> u64 rust) \<Rightarrow> u64 \<Rightarrow> kernel_mm \<Rightarrow> kernel_mm rust" where
  "install_page_table syms cr3_frame root_ptr st =
     bnd (kernel_ptr_to_phys_addr syms root_ptr) (\<lambda>phys_addr.
     bnd (cr3_frame (addr_raw phys_addr)) (\<lambda>f.
     ret (st\<lparr>km_cr3 := Some f\<rparr>)))"

definition set_up_initial_page_table ::
  "linker_symbols \<Rightarrow> (u64 \<Rightarrow> u64 rust) \<Rightarrow> u64 \<Rightarrow> page_table \<Rightarrow> kernel_mm \<Rightarrow> kernel_mm rust" where
  "set_up_initial_page_table syms cr3_frame root_ptr template st =
     install_page_table syms cr3_frame root_ptr (st\<lparr>km_init_page_table := template\<rparr>)"

text \<open>\<^verbatim>\<open>entries.map(|e| FrameRange::containing_extent(e.extent).count()).sum()\<close>\<close>

primrec sum_frames :: "u64 \<Rightarrow> map_entry list \<Rightarrow> u64 rust" where
  "sum_frames acc [] = ret acc"
| "sum_frames acc (e # es) =
     bnd (frame_containing_extent (me_extent e)) (\<lambda>r.
     bnd (u_add acc (fr_count r)) (\<lambda>acc. sum_frames acc es))"

text \<open>The \<^verbatim>\<open>find\<close> for an entry with room; the predicate itself may panic.\<close>

primrec find_init_entry :: "u64 \<Rightarrow> (nat \<times> map_entry) list \<Rightarrow> nat option rust" where
  "find_init_entry need [] = ret None"
| "find_init_entry need (ie # ies) =
     bnd (if me_type (snd ie) = Available then
         bnd (contained_by_extent (me_extent (snd ie))) (\<lambda>r.
         bnd (unwrap r) (\<lambda>r. ret (fr_count r \<ge> need)))
       else ret False) (\<lambda>b.
     if b then ret (Some (fst ie)) else find_init_entry need ies)"

text \<open>Choose the frames for the bump allocator and take them out of the map.\<close>

definition take_init_frames :: "memory_map \<Rightarrow> (nat \<times> frame_range \<times> memory_map) rust" where
  "take_init_frames m =
     bnd (map_entries m) (\<lambda>es.
     bnd (sum_frames 0 es) (\<lambda>total_phys_frames.
     bnd (u_div total_phys_frames 256) (\<lambda>init_alloc_frames.
     bnd (find_init_entry init_alloc_frames
       (dropWhile (\<lambda>ie. ext_address (me_extent (snd ie)) < Address (1024 * 1024)) (enumerate 0 es))) (\<lambda>found.
     bnd (unwrap found) (\<lambda>ndx.
     bnd (index es ndx) (\<lambda>entry.
     bnd (contained_by_extent (me_extent entry)) (\<lambda>r.
     bnd (unwrap r) (\<lambda>r.
     bnd (frame_range_new (fr_first r) init_alloc_frames) (\<lambda>fs.
     bnd (unwrap fs) (\<lambda>fs.
     bnd (frame_range_end fs) (\<lambda>e.
     bnd (unwrap e) (\<lambda>e.
     bnd (end_address (me_extent entry)) (\<lambda>ea.
     bnd (from_range_exclusive (frame_start e) ea) (\<lambda>x.
     bnd (entries_mut_store m ndx (entry\<lparr>me_extent := x\<rparr>)) (\<lambda>m.
     ret (ndx, fs, m))))))))))))))))"

definition check_init_frames :: "linker_symbols \<Rightarrow> frame_range \<Rightarrow> unit rust" where
  "check_init_frames syms fs =
     bnd (frame_range_end fs) (\<lambda>e.
     bnd (unwrap e) (\<lambda>e.
     bnd (frame_extent e) (\<lambda>x.
     bnd (address_sub (ext_address x) address_zero) (\<lambda>l.
     bnd (rassert (l \<le> Length (1024 * 1024 * 1024))) (\<lambda>_.
     bnd (get_kernel_phys_extent syms) (\<lambda>k.
     bnd (end_address k) (\<lambda>ke.
     rassert (frame_start (fr_first fs) \<ge> ke))))))))"

definition first_gb_translator :: translator where
  "first_gb_translator phys =
     bnd (rassert (addr_raw phys < 1024 * 1024 * 1024)) (\<lambda>_. ret (Some (Address (addr_raw phys))))"

text \<open>What the bump allocator did not use goes back into the map.\<close>

definition restore_init_frames :: "memory_map \<Rightarrow> nat \<Rightarrow> frame_range option \<Rightarrow> memory_map rust" where
  "restore_init_frames m ndx r = (case r of
     None \<Rightarrow> ret m
   | Some left \<Rightarrow>
       bnd (map_entries m) (\<lambda>es.
       bnd (index es ndx) (\<lambda>entry.
       bnd (end_address (me_extent entry)) (\<lambda>ea.
       bnd (from_range_exclusive (frame_start (fr_first left)) ea) (\<lambda>x.
       entries_mut_store m ndx (entry\<lparr>me_extent := x\<rparr>))))))"

text \<open>The loops that reserve the frames of an extent and of every reserved extent; errors are ignored.\<close>

primrec reserve_frames :: "bitmap_allocator \<Rightarrow> frame list \<Rightarrow> bitmap_allocator rust" where
  "reserve_frames a [] = ret a"
| "reserve_frames a (f # fs) = bnd (reserve a f) (\<lambda>(_, a). reserve_frames a fs)"

primrec reserve_extents :: "bitmap_allocator \<Rightarrow> phys_extent list \<Rightarrow> bitmap_allocator rust" where
  "reserve_extents a [] = ret a"
| "reserve_extents a (e # es) =
     bnd (frame_containing_extent e) (\<lambda>r.
     bnd (frame_range_iter r) (\<lambda>fs.
     bnd (reserve_frames a fs) (\<lambda>a.
     reserve_extents a es)))"

text \<open>
  \<^verbatim>\<open>init\<close>. The fuel given to \<^verbatim>\<open>mark_kernel_areas\<close> is what its loops need at most.
\<close>

definition mm_init ::
  "('r, 'k, 'v) marker_ops \<Rightarrow> 'fl flag_ops \<Rightarrow> linker_symbols \<Rightarrow> (u64 \<Rightarrow> u64 rust) \<Rightarrow> u64
    \<Rightarrow> boot_information \<Rightarrow> phys_extent list \<Rightarrow> kernel_mm \<Rightarrow> kernel_mm rust" where
  "mm_init MK FL syms cr3_frame root_ptr boot_info reserved st =
     bnd (rassert (\<not> km_initialized st)) (\<lambda>_.
     let st = st\<lparr>km_initialized := True\<rparr> in
     bnd (get_kernel_phys_extent syms) (\<lambda>kernel_extent.
     bnd (translate_memory_map boot_info) (\<lambda>orig_memory_map.
     bnd (map_entries orig_memory_map) (\<lambda>orig.
     bnd (mark_kernel_areas MK (length orig + 2 * length reserved + 2) orig reserved) (\<lambda>es.
     bnd (mark_kernel_areas MK (length es + 4) es [kernel_extent]) (\<lambda>es.
     bnd (from_entries es) (\<lambda>memory_map.
     bnd (take_init_frames memory_map) (\<lambda>(ndx, init_alloc_frames, memory_map).
     bnd (check_init_frames syms init_alloc_frames) (\<lambda>_.
     bnd (create_page_table_template FL syms boot_info orig_memory_map bump_allocate first_gb_translator
       (km_tables st) (bump_new init_alloc_frames)) (\<lambda>mapper.
     let st = st\<lparr>km_tables := mp_memory mapper\<rparr> in
     bnd (restore_init_frames memory_map ndx (bump_unwrap (mp_frames mapper))) (\<lambda>memory_map.
     bnd (fill_bitmap_from_map (km_frame_bitmap st) memory_map) (\<lambda>frame_bitmap.
     bnd (get_kernel_phys_extent syms) (\<lambda>k.
     bnd (extent_from_raw (bi_start boot_info) (bi_total_size boot_info)) (\<lambda>b.
     bnd (extent_from_raw 0 (1024 * 1024)) (\<lambda>mb.
     bnd (reserve_extents (bitmap_new frame_bitmap) (reserved @ [k, b, mb])) (\<lambda>frame_allocator.
     bnd (if km_frame_allocator st = None then ret () else throw UnwrapNone) (\<lambda>_.
     set_up_initial_page_table syms cr3_frame root_ptr (mp_level_4 mapper)
       (st\<lparr>km_frame_bitmap := frame_bitmap, km_frame_allocator := Some frame_allocator\<rparr>))))))))))))))))))"

section \<open>The mapping of physical memory\<close>

definition phys_base :: nat where
  "phys_base = 0xffff800000000000"

lemma phys_map_eq: "phys_map = ret (extent_of phys_base (2 ^ 40 - 1))"
  by (simp add: phys_map_def from_raw_range_exclusive_def from_range_exclusive_def u_sub_def checked_sub_def
      extent_of_def addr_of_def mlen_of_def phys_base_def)

lemma phys_to_virt_eq:
  "phys_to_virt a = (if a_nat a < 2 ^ 37 then ret (addr_of (phys_base + a_nat a)) else throw AssertFailed)"
proof -
  have "a < from_zero MAX_MEMORY \<longleftrightarrow> a_nat a < 2 ^ 37"
    by (simp add: nat_view from_zero_def MAX_MEMORY_def)
  then show ?thesis
    by (simp add: phys_to_virt_def phys_map_eq address_sub_eq address_add_eq extent_of_def address_zero_def phys_base_def)
qed

section \<open>Reserving extents\<close>

lemma reserve_frames_ok:
  "bitmap_inv a \<Longrightarrow> fidx ` set fs \<subseteq> known_frames a \<Longrightarrow> runs (reserve_frames a fs) (\<lambda>a'.
     bitmap_inv a' \<and> known_frames a' = known_frames a \<and> free_frames a' = free_frames a - fidx ` set fs)"
proof (induction fs arbitrary: a)
  case (Cons f fs)
  obtain r a1 where a1: "reserve a f = ret (r, a1)" "bitmap_inv a1" "known_frames a1 = known_frames a"
    "free_frames a1 = free_frames a - {fidx f}"
    using reserve_frame_ok [OF Cons.prems(1), of f] Cons.prems(2) by auto
  then show ?case using Cons.IH [of a1] Cons.prems(2) by (auto elim!: runs_mono)
qed simp

text \<open>The numbers of the frames an extent touches.\<close>

definition touched :: "phys_extent \<Rightarrow> nat set" where
  "touched e = {n. {4096 * n..<4096 * n + 4096} \<inter> addrs e \<noteq> {}}"

lemma touched_eq: "valid_extent e \<Longrightarrow> touched e = {lo e div 4096..<(hi e - 1) div 4096 + 1}"
proof -
  assume "valid_extent e"
  then have lt: "lo e < hi e" by (simp add: valid_extent_def)
  have "{4096 * n..<4096 * n + 4096} \<inter> addrs e \<noteq> {} \<longleftrightarrow> lo e div 4096 \<le> n \<and> n \<le> (hi e - 1) div 4096" for n
  proof -
    have "{4096 * n..<4096 * n + 4096} \<inter> addrs e = {max (4096 * n) (lo e)..<min (4096 * n + 4096) (hi e)}"
      by (auto simp: addrs_def)
    then have "{4096 * n..<4096 * n + 4096} \<inter> addrs e \<noteq> {} \<longleftrightarrow> lo e < 4096 * n + 4096 \<and> 4096 * n < hi e"
      using lt by auto
    also have "\<dots> \<longleftrightarrow> lo e div 4096 \<le> n \<and> n \<le> (hi e - 1) div 4096"
      using lt div_less_iff_less_mult [of 4096 "lo e" "n + 1"] by (auto simp: less_eq_div_iff_mult_less_eq)
    finally show ?thesis .
  qed
  then show ?thesis unfolding touched_def by auto
qed

lemma frame_range_iter_at:
  "0 < n \<Longrightarrow> i + n \<le> 2 ^ 52 \<Longrightarrow> frame_range_iter (frame_range_at i n) = ret (map frame_at [i..<i + n])"
  using frame_range_iter_wf [OF wf_frame_range_at, of n i] by (simp add: frame_range_at_def unat_of_nat_eq)

definition extent_frames :: "phys_extent \<Rightarrow> frame list" where
  "extent_frames e = map frame_at [lo e div 4096..<(hi e - 1) div 4096 + 1]"

lemma extent_frames_iter:
  assumes "valid_extent e"
  shows "bnd (frame_containing_extent e) frame_range_iter = ret (extent_frames e)"
    and extent_frames_touched: "fidx ` set (extent_frames e) = touched e"
    and extent_frames_wf: "\<forall>f \<in> set (extent_frames e). wf_frame f"
proof -
  let ?i = "lo e div 4096" and ?j = "(hi e - 1) div 4096"
  have "lo e \<le> hi e - 1" "hi e - 1 < 2 ^ 64" using assms by (auto simp: valid_extent_def)
  then have ij: "?i \<le> ?j" "?j < 2 ^ 52" by (auto intro: div_le_mono)
  show "bnd (frame_containing_extent e) frame_range_iter = ret (extent_frames e)"
    using ij frame_range_iter_at [of "?j - ?i + 1" ?i] unfolding frame_containing_extent_eq [OF assms] extent_frames_def by simp
  show "fidx ` set (extent_frames e) = touched e" unfolding touched_eq [OF assms] extent_frames_def
    using ij by (auto simp: image_iff)
  show "\<forall>f \<in> set (extent_frames e). wf_frame f" using ij by (auto simp: extent_frames_def)
qed

lemma reserve_extents_Cons:
  assumes "valid_extent e"
  shows "reserve_extents a (e # es) = bnd (reserve_frames a (extent_frames e)) (\<lambda>a. reserve_extents a es)"
proof -
  have "reserve_extents a (e # es) = bnd (bnd (frame_containing_extent e) frame_range_iter)
      (\<lambda>fs. bnd (reserve_frames a fs) (\<lambda>a. reserve_extents a es))" by (simp add: bnd_assoc)
  then show ?thesis by (simp only: extent_frames_iter(1) [OF assms] bnd.simps)
qed

lemma reserve_extents_ok:
  "bitmap_inv a \<Longrightarrow> \<forall>e \<in> set es. valid_extent e \<and> touched e \<subseteq> known_frames a \<Longrightarrow> runs (reserve_extents a es) (\<lambda>a'.
     bitmap_inv a' \<and> known_frames a' = known_frames a \<and> free_frames a' = free_frames a - \<Union> (touched ` set es))"
proof (induction es arbitrary: a)
  case (Cons e es)
  have e: "valid_extent e" "touched e \<subseteq> known_frames a" using Cons.prems(2) by auto
  obtain a1 where a1: "reserve_frames a (extent_frames e) = ret a1" "bitmap_inv a1"
    "known_frames a1 = known_frames a" "free_frames a1 = free_frames a - touched e"
    using reserve_frames_ok [OF Cons.prems(1), of "extent_frames e"] e(2)
    unfolding extent_frames_touched [OF e(1)] runs_iff by blast
  have "runs (reserve_extents a1 es) (\<lambda>a'. bitmap_inv a' \<and> known_frames a' = known_frames a1
      \<and> free_frames a' = free_frames a1 - \<Union> (touched ` set es))"
    by (rule Cons.IH [OF a1(2)]) (use Cons.prems(2) a1(3) in auto)
  then show ?case unfolding reserve_extents_Cons [OF e(1)] using a1 by (auto elim!: runs_mono)
qed simp

section \<open>The chunk provider\<close>

lemma trailing_zeros_pow2: "k < 64 \<Longrightarrow> trailing_zeros (2 ^ k) = k"
proof -
  assume k: "k < 64"
  then have split: "[0..<64] = [0..<k] @ k # [Suc k..<64]"
    by (metis le0 less_imp_le_nat upt_add_eq_append upt_conv_Cons le_add_diff_inverse)
  have "takeWhile (\<lambda>i. \<not> bit (2 ^ k :: usize) i) ([0..<k] @ k # [Suc k..<64]) = [0..<k] @ takeWhile (\<lambda>i. \<not> bit (2 ^ k :: usize) i) (k # [Suc k..<64])"
    by (rule takeWhile_append2) (simp add: bit_exp_iff)
  then have "takeWhile (\<lambda>i. \<not> bit (2 ^ k :: usize) i) [0..<64] = [0..<k]"
    unfolding split by (simp add: bit_exp_iff k)
  then show ?thesis by (simp add: trailing_zeros_def)
qed

lemma next_power_of_two_ret:
  "next_power_of_two n = ret (2 ^ k) \<Longrightarrow> k < 64 \<Longrightarrow> unat n \<le> 2 ^ k"
proof -
  assume "next_power_of_two n = ret (2 ^ k)" and k: "k < 64"
  then obtain j where j: "find (\<lambda>k. unat n \<le> 2 ^ k) [0..<64] = Some j" "(2 :: usize) ^ j = 2 ^ k"
    by (auto simp: next_power_of_two_def split: option.splits)
  then have "j < 64" "unat n \<le> 2 ^ j" by (auto simp: find_Some_iff)
  moreover have "unat (2 ^ j :: usize) = 2 ^ j" "unat (2 ^ k :: usize) = 2 ^ k" using \<open>j < 64\<close> k by (intro unat_pow2; simp)+
  ultimately show ?thesis using j(2) by metis
qed

text \<open>The bytes behind free frames, in the mapping of physical memory, and the requests the provider is sound for.\<close>

definition provider_free :: "frame_cell \<Rightarrow> nat set" where
  "provider_free cell = (case cell of None \<Rightarrow> {} | Some a \<Rightarrow> (+) phys_base ` frames_bytes (free_frames a))"

definition provider_inv :: "frame_cell \<Rightarrow> bool" where
  "provider_inv cell \<longleftrightarrow> (case cell of None \<Rightarrow> False | Some a \<Rightarrow> 8 * length (bitmap a) \<le> unat MAX_MEMORY_FRAMES)"

definition sound_chunks :: "usize \<Rightarrow> bool" where
  "sound_chunks n \<longleftrightarrow> (\<exists>k \<in> sound_orders. next_power_of_two n = ret (2 ^ k))"

lemma unat_MAX_MEMORY_FRAMES: "unat MAX_MEMORY_FRAMES = 33554432"
  by (simp add: MAX_MEMORY_FRAMES_def MAX_MEMORY_def PAGE_SIZE_def)

lemma heap_provider_ok:
  assumes inv: "provider_inv p" and n: "sound_chunks n" and eq: "heap_provider_allocate p n = ret (s, p')"
  shows "provider_inv p' \<and> unat (sl_len s) = unat n * 4096 \<and> 4096 dvd unat (sl_addr s)
    \<and> unat (sl_addr s) + unat (sl_len s) \<le> 2 ^ 64
    \<and> slice_region s \<subseteq> provider_free p - provider_free p' \<and> provider_free p' \<subseteq> provider_free p"
proof -
  obtain a where a: "p = Some a" "8 * length (bitmap a) \<le> 33554432" "bitmap_inv a"
    using inv by (auto simp: provider_inv_def unat_MAX_MEMORY_FRAMES bitmap_inv_def split: option.splits)
  obtain k where k: "k \<in> sound_orders" "next_power_of_two n = ret (2 ^ k)" using n by (auto simp: sound_chunks_def)
  have k24: "k \<le> 24" using k(1) by (auto simp: sound_orders_def)
  have nk: "unat n \<le> 2 ^ k" using next_power_of_two_ret [OF k(2)] k24 by simp
  obtain fr a' where r: "allocate_range a (of_nat k) = ret (Some fr, a')" "p' = Some a'"
    "phys_to_virt (frame_start (fr_first fr)) = ret (Address (sl_addr s))" "u_mul n 4096 = ret (sl_len s)"
    using eq k24 by (auto simp: heap_provider_allocate_def a(1) k(2) trailing_zeros_pow2 rust_iff PAGE_SIZE_def)
  have "\<exists>m. free_group (free_frames a) k m" using ba.alloc_none [OF a(3) k(1)] r(1) by auto
  then obtain g where "free_group (free_frames a) k g" by blast
  then have fr: "known_frames a' = known_frames a" "wf_frame_range fr" "unat (fr_count fr) = 2 ^ k"
    "free_group (free_frames a) k (fidx (fr_first fr))" "free_frames a' = free_frames a - range_frames fr"
    using ba.alloc_some [OF a(3) k(1)] r(1) by auto
  let ?f = "fidx (fr_first fr)"
  have sub: "range_frames fr \<subseteq> free_frames a" using fr(3,4) by (simp add: range_frames_def free_group_def)
  have "?f + (2 ^ k - 1) \<in> {?f..<?f + 2 ^ k}" unfolding atLeastLessThan_iff by (intro conjI le_add1) simp
  then have "?f + (2 ^ k - 1) \<in> free_frames a" using fr(4) unfolding free_group_def by blast
  then have f: "?f + 2 ^ k \<le> 33554432" using ba.free_known [of a] a(2) by (auto simp: known_frames_def)
  have st: "a_nat (frame_start (fr_first fr)) = 4096 * ?f" using fr(2) frame_start_nat by (simp add: wf_frame_range_def)
  have "0 < (2 :: nat) ^ k" by simp
  then have "?f < 33554432" using f by linarith
  then have "4096 * ?f < 2 ^ 37" by simp
  then have "Address (sl_addr s) = (addr_of (phys_base + 4096 * ?f) :: virt_address)" using r(3) by (simp add: phys_to_virt_eq st)
  moreover have "phys_base + 4096 * ?f < 18446744073709551616" using \<open>?f < 33554432\<close> by (simp add: phys_base_def)
  ultimately have "a_nat (Address (sl_addr s) :: virt_address) = phys_base + 4096 * ?f" by (simp only: a_nat_addr_of)
  then have sa: "unat (sl_addr s) = phys_base + 4096 * ?f" by (simp only: a_nat_def address.sel)
  have sl: "unat (sl_len s) = unat n * 4096" using r(4) by (simp add: rust_iff)
  have inside: "b div 4096 \<in> range_frames fr" if "4096 * ?f \<le> b" "b < 4096 * ?f + unat n * 4096" for b
  proof -
    have "b < 4096 * (?f + 2 ^ k)" using that(2) nk by (simp add: algebra_simps)
    then have "b div 4096 < ?f + 2 ^ k" by (simp add: div_less_iff_less_mult)
    moreover have "?f \<le> b div 4096" using that(1) by (simp add: less_eq_div_iff_mult_less_eq)
    ultimately show ?thesis by (simp add: range_frames_def fr(3))
  qed
  have region: "slice_region s \<subseteq> (+) phys_base ` frames_bytes (range_frames fr)"
  proof -
    have "x \<in> (+) phys_base ` frames_bytes (range_frames fr)" if "x \<in> slice_region s" for x
    proof -
      have "phys_base + 4096 * ?f \<le> x" "x < phys_base + 4096 * ?f + unat n * 4096"
        using that by (auto simp: slice_region_def sa sl)
      then have "x = phys_base + (x - phys_base)" "(x - phys_base) div 4096 \<in> range_frames fr"
        using inside [of "x - phys_base"] by auto
      then show ?thesis unfolding frames_bytes_def by blast
    qed
    then show ?thesis by blast
  qed
  have bytes: "frames_bytes (free_frames a') = frames_bytes (free_frames a) - frames_bytes (range_frames fr)"
    "frames_bytes (range_frames fr) \<subseteq> frames_bytes (free_frames a)"
    using fr(5) sub by (auto simp: frames_bytes_def)
  have "provider_free p' = provider_free p - (+) phys_base ` frames_bytes (range_frames fr)"
    unfolding a(1) r(2) provider_free_def option.case bytes(1) by (rule image_set_diff) simp
  moreover have "(+) phys_base ` frames_bytes (range_frames fr) \<subseteq> provider_free p"
    using bytes(2) by (auto simp: a(1) provider_free_def)
  moreover have "provider_inv p'" using a(2) fr(1) r(2) by (simp add: provider_inv_def known_frames_def unat_MAX_MEMORY_FRAMES)
  moreover have "4096 dvd unat (sl_addr s)" unfolding sa by (simp add: phys_base_def)
  moreover have "unat (sl_addr s) + unat (sl_len s) \<le> 2 ^ 64" unfolding sa sl using f nk by (simp add: phys_base_def)
  ultimately show ?thesis using region sl by blast
qed

interpretation hp: chunk_provider heap_provider_allocate provider_inv provider_free sound_chunks 4096
proof unfold_locales
  show "is_power_of_two 4096" using is_power_of_two_pow [of 12] by simp
  show "256 \<le> unat (4096 :: usize)" by simp
  have "next_power_of_two 1 = ret (2 ^ 0)" by (simp add: next_power_of_two_def upt_rec)
  then show "sound_chunks 1" unfolding sound_chunks_def by (intro bexI [of _ 0]) (simp_all add: sound_orders_def)
next
  fix p n s p'
  assume "provider_inv p" "sound_chunks n" "heap_provider_allocate p n = ret (s, p')"
  from heap_provider_ok [OF this] show "provider_inv p' \<and> unat (sl_len s) = unat n * unat (4096 :: usize)
      \<and> unat (4096 :: usize) dvd unat (sl_addr s) \<and> unat (sl_addr s) + unat (sl_len s) \<le> 2 ^ 64
      \<and> slice_region s \<subseteq> provider_free p - provider_free p' \<and> provider_free p' \<subseteq> provider_free p" by simp
qed

section \<open>The extents of \<^verbatim>\<open>init\<close>\<close>

lemma extent_from_raw_valid: "extent_from_raw a l = ret e \<Longrightarrow> valid_extent e \<and> lo e = unat a \<and> ln e = unat l"
  unfolding extent_from_raw_def extent_new_eq a_nat_Address l_nat_Length
  by (auto simp: valid_extent_def hi_def lo_def ln_def a_nat_Address l_nat_Length split: if_splits)

lemma get_kernel_phys_extent_eq:
  assumes "KERNEL_PHYS_BEGIN_SYM syms < KERNEL_PHYS_END_SYM syms" "get_kernel_phys_extent syms = ret k"
  shows "valid_extent k" "addrs k = {unat (KERNEL_PHYS_BEGIN_SYM syms)..<unat (KERNEL_PHYS_END_SYM syms)}"
proof -
  have "k = \<lparr>ext_address = Address (KERNEL_PHYS_BEGIN_SYM syms), ext_length = Length (KERNEL_PHYS_END_SYM syms - KERNEL_PHYS_BEGIN_SYM syms)\<rparr>"
    using assms by (simp add: get_kernel_phys_extent_def from_raw_range_exclusive_def from_range_exclusive_def u_sub_def checked_sub_def less_imp_le)
  then have k: "lo k = unat (KERNEL_PHYS_BEGIN_SYM syms)" "ln k = unat (KERNEL_PHYS_END_SYM syms) - unat (KERNEL_PHYS_BEGIN_SYM syms)"
    using assms(1) by (simp_all add: lo_def ln_def a_nat_Address l_nat_Length unat_sub_exact less_imp_le)
  have "unat (KERNEL_PHYS_BEGIN_SYM syms) < unat (KERNEL_PHYS_END_SYM syms)" using assms(1) by (simp add: word_less_nat_alt)
  then show "valid_extent k" "addrs k = {unat (KERNEL_PHYS_BEGIN_SYM syms)..<unat (KERNEL_PHYS_END_SYM syms)}"
    by (simp_all add: valid_extent_def addrs_def hi_def k)
qed

section \<open>Properties\<close>



text \<open>
  \<^verbatim>\<open>phys_to_virt\<close> maps the first 128 GiB of physical memory one to one into the kernel's half of the address
  space and panics above; \<^verbatim>\<open>kernel_ptr_to_phys_addr\<close> subtracts the kernel's base and panics below it.
\<close>

lemma address_translation_correct:
  "(if a_nat phys < 2 ^ 37
    then runs (phys_to_virt phys) (\<lambda>v. a_nat v = 0xffff800000000000 + a_nat phys)
    else phys_to_virt phys = throw AssertFailed)
   \<and> (if unat (KERNEL_VIRT_BASE syms) \<le> unat p
    then runs (kernel_ptr_to_phys_addr syms p) (\<lambda>a. a_nat a = unat p - unat (KERNEL_VIRT_BASE syms))
    else kernel_ptr_to_phys_addr syms p = throw AssertFailed)"
proof
  show "if a_nat phys < 2 ^ 37 then runs (phys_to_virt phys) (\<lambda>v. a_nat v = 0xffff800000000000 + a_nat phys)
      else phys_to_virt phys = throw AssertFailed"
    by (simp add: phys_to_virt_eq phys_base_def)
  have "unat p - unat (KERNEL_VIRT_BASE syms) < 18446744073709551616"
    using unat_u64_less [of p] by (rule less_imp_diff_less)
  then show "if unat (KERNEL_VIRT_BASE syms) \<le> unat p
      then runs (kernel_ptr_to_phys_addr syms p) (\<lambda>a. a_nat a = unat p - unat (KERNEL_VIRT_BASE syms))
      else kernel_ptr_to_phys_addr syms p = throw AssertFailed"
    by (simp add: kernel_ptr_to_phys_addr_def get_kernel_virt_base_def nat_view a_nat_Address l_nat_Length address_sub_eq from_zero_def
        mlen_of_def unat_sub_exact word_le_nat_alt)
qed

text \<open>
  C34. \<^verbatim>\<open>translate_memory_map\<close> returns exactly when there is a memory map of at most 128 areas, each of a known type,
  not empty and inside the address space; the entries are then the areas, in order.
\<close>

definition area_ok :: "mb2_area \<Rightarrow> bool" where
  "area_ok a \<longleftrightarrow> ar_size a \<noteq> 0 \<and> unat (ar_start a) + unat (ar_size a) < 2 ^ 64 \<and> (\<forall>t. ar_typ a \<noteq> MbCustom t)"

definition area_type :: "mb2_area_type \<Rightarrow> memory_type" where
  "area_type t = (case t of MbAvailable \<Rightarrow> Available | MbAcpiAvailable \<Rightarrow> Acpi
     | MbReservedHibernate \<Rightarrow> ReservedPreserveOnHibernation | MbDefective \<Rightarrow> Defective | _ \<Rightarrow> Reserved)"

definition area_entry :: "mb2_area \<Rightarrow> map_entry" where
  "area_entry a = \<lparr>me_extent = \<lparr>ext_address = Address (ar_start a), ext_length = Length (ar_size a)\<rparr>, me_type = area_type (ar_typ a)\<rparr>"

lemma translate_area_eq:
  "translate_area a = ret e \<longleftrightarrow> area_ok a \<and> e = area_entry a"
  by (auto simp: translate_area_def bnd_Inr_iff extent_from_raw_def extent_new_eq area_ok_def area_entry_def area_type_def
      unat_eq_zero split: if_splits mb2_area_type.splits)

lemma translate_areas_eq:
  "translate_areas as = ret es \<longleftrightarrow> list_all area_ok as \<and> es = map area_entry as"
  by (induction as arbitrary: es) (auto simp: bnd_Inr_iff translate_area_eq)

theorem translate_memory_map_correct:
  "if \<exists>areas. bi_memory_areas bi = Some areas \<and> length areas \<le> 128 \<and> list_all area_ok areas
   then runs (translate_memory_map bi) (\<lambda>m. map_entries m = ret (map area_entry (the (bi_memory_areas bi))))
   else \<exists>e. translate_memory_map bi = throw e"
proof (cases "bi_memory_areas bi")
  case None
  then show ?thesis by (simp add: translate_memory_map_def)
next
  case (Some areas)
  show ?thesis
  proof (cases "translate_areas areas")
    case (Inl e)
    then have "\<not> list_all area_ok areas" using translate_areas_eq [of areas] by (metis sum.distinct(1))
    then show ?thesis using Some Inl by (simp add: translate_memory_map_def)
  next
    case (Inr es)
    then have es: "list_all area_ok areas" "es = map area_entry areas" by (simp_all add: translate_areas_eq)
    show ?thesis using Some Inr es by (auto simp: translate_memory_map_def from_entries_eq map_entries_def unat_of_nat_eq)
  qed
qed

text \<open>
  \<^verbatim>\<open>allocate_owned_frames\<close> gives an owner of frames when a group of the order is free, and the owner's
  destructor puts the global frame allocator back into the state it had. Before \<^verbatim>\<open>init\<close> both panic.
\<close>

lemma owned_frames_roundtrip:
  assumes "bitmap_inv a" "ord \<in> sound_orders" "free_group (free_frames a) ord n"
  shows "runs (allocate_owned_frames (Some a) (of_nat ord)) (\<lambda>(r, cell).
      \<exists>f. r = Some f \<and> cell \<noteq> Some a \<and> drop_owned_frames cell f = ret (Some a))
    \<and> allocate_owned_frames None (of_nat ord) = throw UnwrapNone \<and> drop_owned_frames None f = throw UnwrapNone"
proof -
  obtain r a' where r: "allocate_range a (of_nat ord) = ret (Some r, a')"
    "wf_frame_range r" "free_group (free_frames a) ord (fidx (fr_first r))" "free_frames a' = free_frames a - range_frames r"
    "unat (fr_count r) = 2 ^ ord"
    using ba.alloc_some [OF assms] by blast
  have "fidx (fr_first r) \<in> free_frames a" "fidx (fr_first r) \<in> range_frames r"
    using r(2,3,5) by (auto simp: free_group_def range_frames_def)
  then have "a' \<noteq> a" using r(4) by auto
  then show ?thesis using r(1) deallocate_allocated [OF assms(1,2) r(1)]
    by (simp add: allocate_owned_frames_def allocate_frames_def drop_owned_frames_def deallocate_frames_def owned_frame_range.make_def)
qed

end
