(* ===== verification/Boot_Tables.thy ===== *)
theory Boot_Tables
  imports Kernel_MM
begin

text \<open>
  The page tables \<^verbatim>\<open>create_page_table_template\<close> of \<^verbatim>\<open>src/mm.rs\<close> builds at boot (modelled in \<open>Kernel_MM\<close>): what a walk of them
  finds for every page, and how many frames they take.
\<close>

section \<open>Mapping physical memory\<close>

text \<open>The page a frame below the bound is mapped at.\<close>

definition phys_page :: "frame \<Rightarrow> page" where
  "phys_page f = page_at (phys_base div 4096 + fidx f)"

lemma phys_page_new:
  assumes "wf_frame f" "fidx f < 2 ^ 25"
  shows "bnd (phys_to_virt (frame_start f)) page_new = ret (phys_page f)"
proof -
  have a: "a_nat (frame_start f) = 4096 * fidx f" by (rule frame_start_nat [OF assms(1)])
  have "phys_to_virt (frame_start f) = ret (addr_of (phys_base + 4096 * fidx f))"
    using assms(2) by (simp add: phys_to_virt_eq a)
  moreover have "address_is_aligned_to (addr_of (phys_base + 4096 * fidx f) :: virt_address) 4096 = ret True"
    using address_is_aligned_to_eq [of 4096 12 "addr_of (phys_base + 4096 * fidx f) :: virt_address"] assms(2)
    by (simp add: phys_base_def)
  moreover have "4096 * (phys_base div 4096 + fidx f) = phys_base + 4096 * fidx f" by (simp add: phys_base_def)
  ultimately show ?thesis by (simp only: page_new_def PAGE_SIZE_def phys_page_def page_at_def bnd.simps mem_length.sel rassert_simps)
qed

lemma same_phys_page:
  assumes "wf_frame f" "wf_frame g" "fidx f < 2 ^ 25" "fidx g < 2 ^ 25"
  shows "same_page (phys_page f) (phys_page g) \<longleftrightarrow> f = g"
proof
  assume same: "same_page (phys_page f) (phys_page g)"
  have m: "a_nat (page_start (phys_page h)) mod 2 ^ 48 = 0x800000000000 + 4096 * fidx h" "wf_page (phys_page h)"
    if h: "fidx h < 2 ^ 25" for h
  proof -
    have st: "a_nat (page_start (phys_page h)) = 0x800000000000 + 4096 * fidx h + 65535 * 2 ^ 48"
      using h by (simp add: phys_page_def page_at_def phys_base_def)
    have "a_nat (page_start (phys_page h)) mod 2 ^ 48 = (0x800000000000 + 4096 * fidx h) mod 2 ^ 48"
      unfolding st by (rule mod_mult_self1)
    also have "\<dots> = 0x800000000000 + 4096 * fidx h" using h by (intro mod_less) simp
    finally show "a_nat (page_start (phys_page h)) mod 2 ^ 48 = 0x800000000000 + 4096 * fidx h" .
    show "wf_page (phys_page h)" using h by (simp add: phys_page_def page_at_def phys_base_def wf_page_def)
  qed
  have "a_nat (page_start (phys_page f)) mod 2 ^ 48 = a_nat (page_start (phys_page g)) mod 2 ^ 48"
    using same page_indices_sum [OF m(2) [OF assms(3)]] page_indices_sum [OF m(2) [OF assms(4)]]
    by (simp add: same_page_def dir_path_def)
  then have "fidx f = fidx g" unfolding m(1) [OF assms(3)] m(1) [OF assms(4)] by simp
  then show "f = g" using frame_at_fidx assms(1,2) by metis
qed (simp add: same_page_def)

section \<open>Sequences of mappings\<close>

text \<open>
  Pages to be mapped, in order, each with its frame and its flags; what the tables hold for a page afterwards; and
  the paths that need a table.
\<close>

type_synonym mapping = "page \<times> frame \<times> u64"

fun entry_after :: "mapping list \<Rightarrow> page \<Rightarrow> page_table_entry option \<Rightarrow> page_table_entry option" where
  "entry_after [] q x = x"
| "entry_after ((p, f, b) # M) q x =
     entry_after M q (if same_page q p then Some \<lparr>pte_raw = addr_raw (frame_start f) OR b\<rparr> else x)"

definition tables_for :: "mapping list \<Rightarrow> nat list set" where
  "tables_for M = (\<Union>(p, f, b) \<in> set M. dir_prefixes p)"

definition mapping_ok :: "mapping \<Rightarrow> bool" where
  "mapping_ok = (\<lambda>(p, f, b). wf_frame f \<and> fidx f < 2 ^ 36 \<and> bit b 0)"

definition maps :: "nat \<Rightarrow> translator \<Rightarrow> mapping list \<Rightarrow> bump_frame_allocator mapper \<Rightarrow> bump_frame_allocator mapper \<Rightarrow> bool" where
  "maps E tr M st st' \<longleftrightarrow> mapper_inv bump_frames (bump_upto E) tr st'
    \<and> (\<forall>q. lookup_page tr st' q = entry_after M q (lookup_page tr st q)) \<and> makes_tables bump_frames tr (tables_for M) st st'"

definition has_room :: "nat \<Rightarrow> translator \<Rightarrow> mapping list \<Rightarrow> bump_frame_allocator mapper \<Rightarrow> bool" where
  "has_room E tr M st \<longleftrightarrow> mapper_inv bump_frames (bump_upto E) tr st \<and> card (tables_for M - paths tr st) \<le> card (bump_frames (mp_frames st))"

lemma entry_after_append: "entry_after (M @ N) q x = entry_after N q (entry_after M q x)"
  by (induction M q x rule: entry_after.induct) auto

lemma tables_for_simps [simp]: "tables_for [] = {}" "tables_for (M @ N) = tables_for N \<union> tables_for M"
  "tables_for ((p, f, b) # M) = dir_prefixes p \<union> tables_for M" "finite (tables_for M)"
  by (auto simp: tables_for_def)

lemma maps_refl: "has_room E tr M st \<Longrightarrow> maps E tr [] st st"
  by (simp add: maps_def has_room_def makes_tables_def)

lemma maps_append: "maps E tr M st st1 \<Longrightarrow> maps E tr N st1 st2 \<Longrightarrow> maps E tr (M @ N) st st2"
  using makes_tables_trans [of bump_frames tr "tables_for M" st st1 "tables_for N" st2] by (simp add: maps_def entry_after_append)

lemma has_room_append:
  assumes "has_room E tr (M @ N) st"
  shows "has_room E tr M st" "maps E tr M st st1 \<Longrightarrow> has_room E tr N st1"
proof -
  let ?P = "paths tr st"
  have "tables_for (M @ N) - ?P = (tables_for M - ?P) \<union> (tables_for N - (?P \<union> tables_for M))" by auto
  moreover have "card ((tables_for M - ?P) \<union> (tables_for N - (?P \<union> tables_for M)))
      = card (tables_for M - ?P) + card (tables_for N - (?P \<union> tables_for M))" by (intro card_Un_disjoint) auto
  ultimately have c: "card (tables_for M - ?P) + card (tables_for N - (?P \<union> tables_for M)) \<le> card (bump_frames (mp_frames st))"
    using assms by (simp only: has_room_def)
  then show "has_room E tr M st" using assms by (simp add: has_room_def)
  show "has_room E tr N st1" if "maps E tr M st st1" using c that by (simp add: has_room_def maps_def makes_tables_def)
qed

text \<open>Loops over mappings return when there is room; the parts of the template are such loops, one after the other.\<close>

lemma maps_bnd:
  assumes "has_room E tr (M @ N) st" "has_room E tr M st \<Longrightarrow> runs m (maps E tr M st)"
    and "\<And>st1. has_room E tr N st1 \<Longrightarrow> runs (g st1) (maps E tr N st1)"
  shows "runs (bnd m g) (maps E tr (M @ N) st)"
proof -
  obtain st1 where st1: "m = ret st1" "maps E tr M st st1" using assms(2) has_room_append(1) [OF assms(1)] by (auto simp: runs_iff)
  then obtain st2 where "g st1 = ret st2" "maps E tr N st1 st2" using assms(3) has_room_append(2) [OF assms(1)] by (auto simp: runs_iff)
  then show ?thesis using st1 maps_append by (auto simp: runs_iff)
qed

lemma map_or_panic_maps:
  assumes FL: "flags_law FL" and tr: "\<forall>a. tr a \<noteq> ret None" and ok: "mapping_ok (p, f, fl_bits FL leaf)"
    and room: "has_room E tr [(p, f, fl_bits FL leaf)] st"
  shows "runs (map_or_panic FL tr bump_allocate leaf parent st p f) (maps E tr [(p, f, fl_bits FL leaf)] st)"
proof -
  have inv: "mapper_inv bump_frames (bump_upto E) tr st" and f: "wf_frame f" "fidx f < 2 ^ 36" "bit (fl_bits FL leaf) 0"
    using room ok by (auto simp: has_room_def mapping_ok_def)
  obtain r st' where r: "map_page FL tr bump_allocate st p f leaf parent (fl_all FL) = ret (r, st')"
    "mapped bump_frames (bump_upto E) tr st p f (fl_bits FL leaf) (r, st')"
    using bump_to.map_page_runs [OF FL inv f, of p parent "fl_all FL"] unfolding runs_iff by fast
  have "r \<noteq> Inl err" for err using r(2) tr room by (cases err) (auto simp: mapped_def has_room_def)
  then have "r = Inr ()" by (cases r) auto
  then show ?thesis using r by (simp add: map_or_panic_def mapped_def maps_def)
qed

definition phys_mappings :: "u64 \<Rightarrow> frame list \<Rightarrow> mapping list" where
  "phys_mappings b fs = map (\<lambda>f. (phys_page f, f, b)) fs"

lemma map_phys_frames_maps:
  assumes FL: "flags_law FL" and tr: "\<forall>a. tr a \<noteq> ret None" and leaf: "bit (fl_bits FL leaf) 0"
  shows "\<forall>f \<in> set fs. wf_frame f \<and> fidx f < 2 ^ 25 \<Longrightarrow> has_room E tr (phys_mappings (fl_bits FL leaf) fs) st \<Longrightarrow>
    runs (map_phys_frames FL tr bump_allocate leaf parent st fs) (maps E tr (phys_mappings (fl_bits FL leaf) fs) st)"
proof (induction fs arbitrary: st)
  case (Cons f fs)
  let ?x = "(phys_page f, f, fl_bits FL leaf)" and ?N = "phys_mappings (fl_bits FL leaf) fs"
  have f: "wf_frame f" "fidx f < 2 ^ 25" and x: "mapping_ok ?x" using Cons.prems(1) leaf by (auto simp: mapping_ok_def)
  have M: "phys_mappings (fl_bits FL leaf) (f # fs) = [?x] @ ?N" by (simp add: phys_mappings_def)
  have step: "map_phys_frames FL tr bump_allocate leaf parent st (f # fs)
      = bnd (map_or_panic FL tr bump_allocate leaf parent st (phys_page f) f) (\<lambda>st. map_phys_frames FL tr bump_allocate leaf parent st fs)"
    using phys_page_new [OF f] by (auto simp: rust_iff)
  show ?case unfolding M step
    by (rule maps_bnd) (use Cons map_or_panic_maps [OF FL tr x] M in auto)
qed (auto simp: phys_mappings_def maps_refl)

lemma map_phys_memory_maps:
  assumes FL: "flags_law FL" and tr: "\<forall>a. tr a \<noteq> ret None" and leaf: "bit (fl_bits FL leaf) 0"
  shows "\<forall>e \<in> set es. valid_extent (me_extent e) \<and> hi (me_extent e) \<le> 2 ^ 37 \<Longrightarrow>
    has_room E tr (concat (map (\<lambda>e. phys_mappings (fl_bits FL leaf) (extent_frames (me_extent e))) es)) st \<Longrightarrow>
    runs (map_phys_memory FL tr bump_allocate leaf parent st es)
      (maps E tr (concat (map (\<lambda>e. phys_mappings (fl_bits FL leaf) (extent_frames (me_extent e))) es)) st)"
proof (induction es arbitrary: st)
  case (Cons e es)
  have e: "valid_extent (me_extent e)" "hi (me_extent e) \<le> 2 ^ 37" using Cons.prems(1) by auto
  have "fidx f < 2 ^ 25" if "f \<in> set (extent_frames (me_extent e))" for f
  proof -
    have "fidx f \<in> touched (me_extent e)" using extent_frames_touched [OF e(1)] that by blast
    then have "fidx f \<le> (hi (me_extent e) - 1) div 4096" by (simp add: touched_eq [OF e(1)])
    also have "\<dots> < 2 ^ 25" using e by (simp add: valid_extent_def div_less_iff_less_mult)
    finally show ?thesis .
  qed
  then have fs: "\<forall>f \<in> set (extent_frames (me_extent e)). wf_frame f \<and> fidx f < 2 ^ 25" using extent_frames_wf [OF e(1)] by blast
  have "map_phys_memory FL tr bump_allocate leaf parent st (e # es) = bnd (bnd (frame_containing_extent (me_extent e)) frame_range_iter)
      (\<lambda>fs. bnd (map_phys_frames FL tr bump_allocate leaf parent st fs) (\<lambda>st. map_phys_memory FL tr bump_allocate leaf parent st es))"
    by (simp add: bnd_assoc)
  then have step: "map_phys_memory FL tr bump_allocate leaf parent st (e # es)
      = bnd (map_phys_frames FL tr bump_allocate leaf parent st (extent_frames (me_extent e))) (\<lambda>st. map_phys_memory FL tr bump_allocate leaf parent st es)"
    by (simp only: extent_frames_iter(1) [OF e(1)] bnd.simps)
  show ?case unfolding step list.map concat.simps
    by (rule maps_bnd) (use Cons map_phys_frames_maps [OF FL tr leaf fs] in auto)
qed (auto simp: maps_refl)

text \<open>The loops over pages: \<open>n\<close> is the number of the frame for a page.\<close>

lemma map_pages_maps:
  assumes FL: "flags_law FL" and tr: "\<forall>a. tr a \<noteq> ret None" and leaf: "bit (fl_bits FL leaf) 0"
  shows "\<forall>p \<in> set ps. bnd (target p) frame_new = ret (frame_at (n p)) \<and> n p < 2 ^ 36 \<Longrightarrow>
    has_room E tr (map (\<lambda>p. (p, frame_at (n p), fl_bits FL leaf)) ps) st \<Longrightarrow>
    runs (map_pages FL tr bump_allocate leaf parent target st ps) (maps E tr (map (\<lambda>p. (p, frame_at (n p), fl_bits FL leaf)) ps) st)"
proof (induction ps arbitrary: st)
  case (Cons p ps)
  let ?x = "(p, frame_at (n p), fl_bits FL leaf)"
  have p: "bnd (target p) frame_new = ret (frame_at (n p))" "n p < 2 ^ 36" using Cons.prems(1) by auto
  then have x: "mapping_ok ?x" using leaf by (simp add: mapping_ok_def)
  have M: "map (\<lambda>p. (p, frame_at (n p), fl_bits FL leaf)) (p # ps) = [?x] @ map (\<lambda>p. (p, frame_at (n p), fl_bits FL leaf)) ps" by simp
  have step: "map_pages FL tr bump_allocate leaf parent target st (p # ps)
      = bnd (map_or_panic FL tr bump_allocate leaf parent st p (frame_at (n p))) (\<lambda>st. map_pages FL tr bump_allocate leaf parent target st ps)"
    using p(1) by (auto simp: rust_iff)
  show ?case unfolding M step
    by (rule maps_bnd) (use Cons map_or_panic_maps [OF FL tr x] M in auto)
qed (auto simp: maps_refl)

section \<open>The template\<close>

definition extent_pages :: "virt_extent \<Rightarrow> page list" where
  "extent_pages e = map page_at [lo e div 4096..<(hi e - 1) div 4096 + 1]"

lemma extent_pages_iter:
  assumes "valid_extent e"
  shows "bnd (page_containing_extent e) page_range_iter = ret (extent_pages e)"
proof -
  let ?i = "lo e div 4096" and ?j = "(hi e - 1) div 4096"
  have "lo e \<le> hi e - 1" "hi e - 1 < 2 ^ 64" using assms by (auto simp: valid_extent_def)
  then have ij: "?i \<le> ?j" "?j < 2 ^ 52" by (auto intro: div_le_mono)
  have n: "unat (of_nat (?j - ?i + 1) :: u64) = ?j - ?i + 1" using ij by (intro unat_of_nat_eq) simp
  have "page_between_inclusive (page_at ?i) (page_at ?j) = ret (page_range_at ?i (?j - ?i + 1))"
    using ij unfolding page_between_inclusive_def page_range_at_def by (rule pg.between_inclusive_at)
  then have c: "page_containing_extent e = ret (page_range_at ?i (?j - ?i + 1))"
    using assms ij by (simp add: page_containing_extent_def page_containing_eq last_address_eq valid_extentD less_imp_diff_less flip: lo_def)
  have p: "pidx (page_at ?i) = ?i" "wf_page (page_at ?i)" using ij by (simp_all add: pidx_def wf_page_def page_at_def)
  have "wf_page_range (page_range_at ?i (?j - ?i + 1))"
    unfolding wf_page_range_def page_range_at_def page_range.simps p(1) n using p(2) ij by simp
  from page_range_iter_wf [OF this] have "page_range_iter (page_range_at ?i (?j - ?i + 1)) = ret (map page_at [?i..<?i + (?j - ?i + 1)])"
    unfolding page_range_at_def page_range.simps p(1) n .
  then show ?thesis using c ij by (simp add: extent_pages_def)
qed

text \<open>
  The flags of the kernel's data and of the sections of its image; which sections are mapped, and what of a section
  the code relies on (it panics otherwise).
\<close>

definition data_bits :: u64 where
  "data_bits = FLAG_PRESENT OR FLAG_WRITABLE OR FLAG_EXECUTE_DISABLE"

definition section_bits :: "elf_section \<Rightarrow> u64" where
  "section_bits s = FLAG_PRESENT OR (if es_executable s then 0 else FLAG_EXECUTE_DISABLE) OR (if es_writable s then FLAG_WRITABLE else 0)"

definition in_image :: "elf_section \<Rightarrow> bool" where
  "in_image s \<longleftrightarrow> es_allocated s \<and> (\<exists>name. es_name s = Some name \<and> \<not> starts_with name ''.bootstrap'')"

definition section_ok :: "elf_section \<Rightarrow> bool" where
  "section_ok s \<longleftrightarrow> es_size s \<noteq> 0 \<and> unat (es_start s) + unat (es_size s) < 2 ^ 64 \<and> (es_allocated s \<longrightarrow> es_name s \<noteq> None)
    \<and> (in_image s \<longrightarrow> 0xffffffff80000000 \<le> unat (es_start s) \<and> (es_type s \<noteq> OtherSection \<longrightarrow> \<not> (es_writable s \<and> es_executable s)))"

definition section_extent :: "elf_section \<Rightarrow> virt_extent" where
  "section_extent s = \<lparr>ext_address = Address (es_start s), ext_length = Length (es_size s)\<rparr>"

definition section_mappings :: "elf_section \<Rightarrow> mapping list" where
  "section_mappings s = (if in_image s \<and> es_type s \<noteq> OtherSection
     then map (\<lambda>p. (p, frame_at (pidx p - 0xffffffff80000), section_bits s)) (extent_pages (section_extent s)) else [])"

lemma flag_consts:
  assumes "flags_law FL"
  shows "fl_bits FL (fl_const FL FLAG_PRESENT) = FLAG_PRESENT" "fl_bits FL (fl_const FL FLAG_WRITABLE) = FLAG_WRITABLE"
    "fl_bits FL (fl_const FL FLAG_EXECUTE_DISABLE) = FLAG_EXECUTE_DISABLE" "fl_bits FL (fl_or FL f g) = fl_bits FL f OR fl_bits FL g"
  using assms by (simp_all add: flags_law_def flag_bits_numeral FLAG_PRESENT_def FLAG_WRITABLE_def FLAG_EXECUTE_DISABLE_def)

lemma section_leaf_flags_ok:
  assumes "flags_law FL" "\<not> (es_writable s \<and> es_executable s)"
  shows "\<exists>fl. section_leaf_flags FL s = ret fl \<and> fl_bits FL fl = section_bits s"
  using assms by (auto simp: section_leaf_flags_def section_bits_def flag_consts rassert_def Let_def or.assoc)

lemma bits_present: "bit data_bits 0" "bit (section_bits s) 0"
  by (simp_all add: data_bits_def section_bits_def FLAG_PRESENT_def bit_or_iff)

lemma map_section_maps:
  assumes FL: "flags_law FL" and tr: "\<forall>a. tr a \<noteq> ret None" and s: "section_ok s"
    and base: "KERNEL_VIRT_BASE syms = 0xffffffff80000000" and room: "has_room E tr (section_mappings s) st"
  shows "runs (map_section FL tr bump_allocate syms parent st s) (maps E tr (section_mappings s) st)"
proof -
  let ?e = "section_extent s"
  have lo: "lo ?e = unat (es_start s)" "hi ?e = unat (es_start s) + unat (es_size s)"
    by (simp_all add: section_extent_def lo_def hi_def ln_def a_nat_Address l_nat_Length)
  have size: "unat (es_size s) \<noteq> 0" "unat (es_start s) + unat (es_size s) < 2 ^ 64" using s by (auto simp: section_ok_def unat_eq_0)
  then have v: "valid_extent ?e" by (simp add: valid_extent_def lo)
  have e: "extent_from_raw (es_start s) (es_size s) = ret ?e"
    using size by (simp add: extent_from_raw_def extent_new_eq a_nat_Address l_nat_Length section_extent_def)
  obtain image where im: "kernel_image = ret image" "valid_extent image" "lo image = 0xffffffff80000000" "hi image = 0xffffffffffffffff"
    by (simp add: kernel_image_def from_raw_range_exclusive_def from_range_exclusive_def u_sub_def checked_sub_def
        valid_extent_def lo_def hi_def ln_def a_nat_Address l_nat_Length)
  have inside: "contains image ?e = ret True" if "in_image s"
    using that s size by (simp add: contains_eq [OF im(2) v] im lo section_ok_def)
  show ?thesis
  proof (cases "in_image s \<and> es_type s \<noteq> OtherSection")
    case False
    then have "map_section FL tr bump_allocate syms parent st s = ret st"
      using s inside by (auto simp: map_section_def e im(1) in_image_def section_ok_def)
    moreover have M: "section_mappings s = []" using False by (auto simp: section_mappings_def)
    ultimately show ?thesis using maps_refl room unfolding M by auto
  next
    case True
    obtain fl where fl: "section_leaf_flags FL s = ret fl" "fl_bits FL fl = section_bits s"
      using section_leaf_flags_ok [OF FL] s True by (auto simp: section_ok_def)
    let ?t = "\<lambda>p. bnd (address_sub (page_start p) (get_kernel_virt_base syms)) (\<lambda>d. ret (from_zero d :: phys_address))"
    have "bnd (bnd (page_containing_extent ?e) page_range_iter) (map_pages FL tr bump_allocate fl parent ?t st)
        = map_pages FL tr bump_allocate fl parent ?t st (extent_pages ?e)" by (simp add: extent_pages_iter [OF v])
    then have step: "map_section FL tr bump_allocate syms parent st s = map_pages FL tr bump_allocate fl parent ?t st (extent_pages ?e)"
      using True s inside fl(1) by (auto simp: map_section_def e im(1) in_image_def bnd_assoc)
    have "bnd (?t p) frame_new = ret (frame_at (pidx p - 0xffffffff80000)) \<and> pidx p - 0xffffffff80000 < 2 ^ 36"
      if p: "p \<in> set (extent_pages ?e)" for p
    proof -
      obtain i where i: "p = page_at i" "unat (es_start s) div 4096 \<le> i" "i \<le> (unat (es_start s) + unat (es_size s) - 1) div 4096"
        using p by (auto simp: extent_pages_def lo)
      have "0xffffffff80000 \<le> unat (es_start s) div 4096"
        using s True by (simp add: section_ok_def less_eq_div_iff_mult_less_eq)
      moreover have "(unat (es_start s) + unat (es_size s) - 1) div 4096 < 2 ^ 52" using size(2) by (simp add: div_less_iff_less_mult)
      ultimately have i': "0xffffffff80000 \<le> i" "i < 2 ^ 52" using i by linarith+
      have a: "a_nat (page_start p) = 4096 * i" using i' by (simp add: i(1) page_at_def)
      have "address_sub (page_start p) (get_kernel_virt_base syms) = ret (mlen_of (4096 * i - 0xffffffff80000000))"
        using i' by (simp add: get_kernel_virt_base_def base address_sub_eq a_nat_Address a)
      moreover have "4096 * i - 0xffffffff80000000 = 4096 * (i - 0xffffffff80000)" by (simp add: diff_mult_distrib2)
      moreover have "from_zero (mlen_of n) = (addr_of n :: phys_address)" for n by (simp add: from_zero_def mlen_of_def addr_of_def)
      ultimately have "?t p = ret (addr_of (4096 * (i - 0xffffffff80000)))" by simp
      moreover have "pidx p = i" using i' by (simp add: i(1) pidx_def page_at_def)
      ultimately show ?thesis using i' by (simp add: frame_new_eq)
    qed
    then have "\<forall>p \<in> set (extent_pages ?e). bnd (?t p) frame_new = ret (frame_at (pidx p - 0xffffffff80000)) \<and> pidx p - 0xffffffff80000 < 2 ^ 36"
      by blast
    moreover have M: "section_mappings s = map (\<lambda>p. (p, frame_at (pidx p - 0xffffffff80000), fl_bits FL fl)) (extent_pages ?e)"
      using True by (simp add: section_mappings_def fl(2))
    moreover have "bit (fl_bits FL fl) 0" by (simp add: fl(2) bits_present)
    ultimately show ?thesis using map_pages_maps [OF FL tr] room unfolding step by presburger
  qed
qed

lemma map_sections_maps:
  assumes FL: "flags_law FL" and tr: "\<forall>a. tr a \<noteq> ret None" and base: "KERNEL_VIRT_BASE syms = 0xffffffff80000000"
  shows "\<forall>s \<in> set ss. section_ok s \<Longrightarrow> has_room E tr (concat (map section_mappings ss)) st \<Longrightarrow>
    runs (map_sections FL tr bump_allocate syms parent st ss) (maps E tr (concat (map section_mappings ss)) st)"
proof (induction ss arbitrary: st)
  case (Cons s ss)
  show ?case unfolding map_sections.simps list.map concat.simps
    by (rule maps_bnd) (use Cons map_section_maps [OF FL tr _ base] in auto)
qed (auto simp: maps_refl)

text \<open>The mapper the template starts from: an empty top table, over tables in memory with any content.\<close>

definition boot_mapper :: "(virt_address \<Rightarrow> page_table) \<Rightarrow> 'fa \<Rightarrow> 'fa mapper" where
  "boot_mapper memory frames = \<lparr>mp_level_4 = page_table_zero, mp_memory = memory, mp_frames = frames\<rparr>"

lemma boot_mapper_ok:
  assumes "\<forall>v. length (pt_entries (memory v)) = 512"
  shows "tables_ok tr (boot_mapper memory s)" "unused tr (boot_mapper memory s) F" "lookup_page tr (boot_mapper memory s) q = None"
    "paths tr (boot_mapper memory s) = {[]}"
proof -
  let ?st = "boot_mapper memory s"
  have e: "i < 512 \<Longrightarrow> ent ?st Level4 i = entry_zero" for i
    by (simp add: ent_def table_def boot_mapper_def) (simp add: page_table_zero_def)
  have p: "table_of tr ?st Level4 p = Some t \<Longrightarrow> path_ok p \<Longrightarrow> p = [] \<and> t = Level4" for p t
    by (cases p) (auto simp: path_ok_def next_table_def e entry_zero_def present_def)
  show "tables_ok tr ?st"
  proof (rule tables_okI)
    show "length (pt_entries (table ?st t)) = 512" for t
      using assms by (cases t) (auto simp: table_def boot_mapper_def page_table_zero_def)
  qed (use p e in \<open>(auto simp: entry_zero_def present_def dest: p)\<close>)
  show "unused tr ?st F" using p by (fastforce simp: unused_def)
  have "table_of tr ?st Level4 (dir_path q) = None"
    using p [of "dir_path q", OF _ path_ok_dir_path] by (metis dir_path_def list.distinct(1) not_None_eq)
  then show "lookup_page tr ?st q = None" by (simp add: lookup_page_def walk_def)
  show "paths tr ?st = {[]}" using p by (auto simp: paths_def)
qed

text \<open>Everything the template maps, in order.\<close>

definition template_mappings :: "map_entry list \<Rightarrow> elf_section list \<Rightarrow> mapping list" where
  "template_mappings es ss = concat (map (\<lambda>e. phys_mappings data_bits (extent_frames (me_extent e))) es)
     @ map (\<lambda>p. (p, frame_at (pidx p), data_bits)) (map page_at [0..<256]) @ concat (map section_mappings ss)"

lemma template_maps:
  assumes FL: "flags_law FL" and tr: "\<forall>a. tr a \<noteq> ret None" and base: "KERNEL_VIRT_BASE syms = 0xffffffff80000000"
    and es: "map_entries m = ret es" "\<forall>e \<in> set es. valid_extent (me_extent e) \<and> hi (me_extent e) \<le> 2 ^ 37"
    and ss: "bi_elf_sections boot_info = Some ss" "\<forall>s \<in> set ss. section_ok s"
    and room: "has_room E tr (template_mappings es ss) (boot_mapper memory frames)"
  shows "runs (create_page_table_template FL syms boot_info m bump_allocate tr memory frames)
    (maps E tr (template_mappings es ss) (boot_mapper memory frames))"
proof -
  let ?leaf = "fl_or FL (fl_or FL (fl_const FL FLAG_PRESENT) (fl_const FL FLAG_WRITABLE)) (fl_const FL FLAG_EXECUTE_DISABLE)"
  let ?parent = "fl_or FL (fl_or FL (fl_or FL (fl_const FL FLAG_PRESENT) (fl_const FL FLAG_GLOBAL)) (fl_const FL FLAG_APP_PARENT_FROZEN))
    (fl_const FL FLAG_WRITABLE)"
  have bits: "fl_bits FL ?leaf = data_bits" by (simp add: flag_consts [OF FL] data_bits_def or.assoc)
  then have leaf: "bit (fl_bits FL ?leaf) 0" by (simp add: bits_present)
  obtain e where e: "first_mib = ret e" "valid_extent e" "lo e = 0" "hi e = 1048576"
    by (simp add: first_mib_def extent_from_raw_def extent_new_eq a_nat_Address l_nat_Length valid_extent_def lo_def hi_def ln_def)
  have pages: "extent_pages e = map page_at [0..<256]" by (simp only: extent_pages_def e) simp
  have low: "bnd (bnd (page_containing_extent e) page_range_iter) g = g (map page_at [0..<256])" for g :: "page list \<Rightarrow> bump_frame_allocator mapper rust"
    by (simp add: extent_pages_iter [OF e(2)] pages)
  have mib: "\<forall>p \<in> set (map page_at [0..<256]). bnd (ret (Address (addr_raw (page_start p)))) frame_new = ret (frame_at (pidx p)) \<and> pidx p < 2 ^ 36"
  proof -
    have a: "(Address (addr_raw (page_start (page_at i))) :: phys_address) = addr_of (4096 * i)" for i by (simp add: page_at_def addr_of_def)
    have "frame_new (addr_of (4096 * i)) = ret (frame_at i)" "pidx (page_at i) = i" if "i < 256" for i
      using that by (simp_all add: frame_new_eq pidx_def page_at_def)
    then show ?thesis by (auto simp: a)
  qed
  have "create_page_table_template FL syms boot_info m bump_allocate tr memory frames
      = bnd (map_phys_memory FL tr bump_allocate ?leaf ?parent (boot_mapper memory frames) es) (\<lambda>st.
        bnd (map_pages FL tr bump_allocate ?leaf ?parent (\<lambda>p. ret (Address (addr_raw (page_start p)))) st (map page_at [0..<256])) (\<lambda>st.
        map_sections FL tr bump_allocate syms ?parent st ss))"
    unfolding create_page_table_template_def boot_mapper_def Let_def es(1) e(1) ss(1)
    by (simp add: bnd_assoc [symmetric] low del: upt_rec_numeral)
  also have "runs \<dots> (maps E tr (template_mappings es ss) (boot_mapper memory frames))"
    unfolding template_mappings_def
  proof (intro maps_bnd)
    show "has_room E tr (concat (map (\<lambda>e. phys_mappings data_bits (extent_frames (me_extent e))) es)
        @ map (\<lambda>p. (p, frame_at (pidx p), data_bits)) (map page_at [0..<256]) @ concat (map section_mappings ss)) (boot_mapper memory frames)"
      using room by (simp only: template_mappings_def)
  qed (use map_phys_memory_maps [OF FL tr leaf es(2)] map_pages_maps [OF FL tr leaf mib] map_sections_maps [OF FL tr base ss(2)]
      in \<open>simp_all only: bits\<close>)
  finally show ?thesis .
qed

section \<open>How many tables\<close>

lemma dir_prefixes_page_at:
  assumes "i < 2 ^ 52"
  shows "dir_prefixes (page_at i) = {[i div 2 ^ 27 mod 512], [i div 2 ^ 27 mod 512, i div 2 ^ 18 mod 512],
    [i div 2 ^ 27 mod 512, i div 2 ^ 18 mod 512, i div 2 ^ 9 mod 512]}"
proof -
  have "a_nat (page_start (page_at i)) = 4096 * i" using assms by (simp add: page_at_def)
  then have u: "unat (addr_raw (page_start (page_at i))) = 2 ^ 12 * i" by (simp only: a_nat_def) simp
  have "2 ^ 12 * i div 2 ^ (12 + k) = i div 2 ^ k" for k by (simp only: power_add div_mult_mult1_if) simp
  from this [of 9] this [of 18] this [of 27] show ?thesis
    unfolding dir_prefixes_def l4_index_def l3_index_def l2_index_def nine_bits u by simp
qed

text \<open>The tables for the pages of an interval, by the numbers of their parts.\<close>

definition span_tables :: "nat \<Rightarrow> nat \<Rightarrow> nat" where
  "span_tables a b = (let n = (\<lambda>k. (b - 1) div 2 ^ k - a div 2 ^ k + 1) in n 9 + n 18 + n 27)"

lemma card_div_image: "a < b \<Longrightarrow> card ((\<lambda>i. i div k) ` {a..<b}) \<le> (b - 1) div k - a div k + (1 :: nat)"
proof -
  assume "a < b"
  then have "a div k \<le> i div k" "i div k \<le> (b - 1) div k" if "i \<in> {a..<b}" for i using that by (intro div_le_mono; auto)+
  then have "(\<lambda>i. i div k) ` {a..<b} \<subseteq> {a div k..(b - 1) div k}" by auto
  then have "card ((\<lambda>i. i div k) ` {a..<b}) \<le> card {a div k..(b - 1) div k}" by (intro card_mono) auto
  also have "\<dots> = (b - 1) div k - a div k + 1"
  proof -
    have "a div k \<le> (b - 1) div k" using \<open>a < b\<close> by (intro div_le_mono) simp
    then show ?thesis by simp
  qed
  finally show ?thesis .
qed

lemma card_span_tables:
  assumes "a < b" "b \<le> 2 ^ 52"
  shows "card (\<Union>i \<in> {a..<b}. dir_prefixes (page_at i)) \<le> span_tables a b"
proof -
  let ?I = "{a..<b}" and ?d = "\<lambda>k i. i div 2 ^ k :: nat"
  let ?f4 = "\<lambda>x. [x mod 512]" and ?f3 = "\<lambda>x. [x div 2 ^ 9 mod 512, x mod 512]"
    and ?f2 = "\<lambda>x. [x div 2 ^ 18 mod 512, x div 2 ^ 9 mod 512, x mod 512]"
  have dd: "i div 2 ^ 18 div 2 ^ 9 = i div 2 ^ 27" "i div 2 ^ 9 div 2 ^ 18 = i div 2 ^ 27" "i div 2 ^ 9 div 2 ^ 9 = i div 2 ^ 18" for i :: nat
    by (simp_all add: div_mult2_eq [symmetric])
  have eq: "(\<Union>i \<in> ?I. dir_prefixes (page_at i)) = ?f4 ` ?d 27 ` ?I \<union> ?f3 ` ?d 18 ` ?I \<union> ?f2 ` ?d 9 ` ?I"
  proof -
    have "dir_prefixes (page_at i) = {?f4 (?d 27 i), ?f3 (?d 18 i), ?f2 (?d 9 i)}" if "i \<in> ?I" for i
      using that assms(2) by (subst dir_prefixes_page_at) (simp_all only: dd, simp)
    then have "(\<Union>i \<in> ?I. dir_prefixes (page_at i)) = (\<Union>i \<in> ?I. {?f4 (?d 27 i), ?f3 (?d 18 i), ?f2 (?d 9 i)})" by (rule SUP_cong [OF refl])
    also have "\<dots> = ?f4 ` ?d 27 ` ?I \<union> ?f3 ` ?d 18 ` ?I \<union> ?f2 ` ?d 9 ` ?I" unfolding image_image by blast
    finally show ?thesis .
  qed
  have c: "card (f ` ?d k ` ?I) \<le> (b - 1) div 2 ^ k - a div 2 ^ k + 1" for f :: "nat \<Rightarrow> nat list" and k
    using card_image_le [of "?d k ` ?I" f] card_div_image [OF assms(1), of "2 ^ k"] by simp
  have "card (\<Union>i \<in> ?I. dir_prefixes (page_at i)) \<le> card (?f4 ` ?d 27 ` ?I \<union> ?f3 ` ?d 18 ` ?I) + card (?f2 ` ?d 9 ` ?I)"
    unfolding eq by (rule card_Un_le)
  also have "\<dots> \<le> card (?f4 ` ?d 27 ` ?I) + card (?f3 ` ?d 18 ` ?I) + card (?f2 ` ?d 9 ` ?I)" using card_Un_le by simp
  finally show ?thesis using c [of ?f4 27] c [of ?f3 18] c [of ?f2 9] unfolding span_tables_def Let_def by linarith
qed

text \<open>
  Physical memory below frame \<open>T\<close> and an image of \<open>K\<close> pages: one table for each 512 pages and one for each 512 of those,
  and nine more.
\<close>

definition template_tables :: "nat \<Rightarrow> nat \<Rightarrow> nat" where
  "template_tables T K = (T - 1) div 512 + (T - 1) div 2 ^ 18 + (K - 1) div 512 + (K - 1) div 2 ^ 18 + 9"

definition sections_below :: "nat \<Rightarrow> elf_section list \<Rightarrow> bool" where
  "sections_below K ss \<longleftrightarrow> (\<forall>s \<in> set ss. in_image s \<longrightarrow> unat (es_start s) + unat (es_size s) \<le> 0xffffffff80000000 + 4096 * K)"

lemma template_tables_small:
  assumes "8192 \<le> T" "K \<le> 2048"
  shows "template_tables T K \<le> T div 256"
proof -
  define q where "q = T div 512"
  have q: "16 \<le> q" using assms(1) by (simp add: q_def less_eq_div_iff_mult_less_eq)
  have "(T - 1) div 2 ^ 18 \<le> T div 2 ^ 18" by (rule div_le_mono) simp
  also have "\<dots> = q div 512" by (simp add: q_def div_mult2_eq [symmetric])
  finally have "(T - 1) div 2 ^ 18 \<le> q div 512" .
  moreover have "(T - 1) div 512 \<le> q" unfolding q_def by (rule div_le_mono) simp
  moreover have "(K - 1) div 512 \<le> 2047 div 512" "(K - 1) div 2 ^ 18 \<le> 2047 div 2 ^ 18" using assms(2) by (intro div_le_mono; simp)+
  moreover have "2 * q \<le> T div 256"
  proof -
    have "2 * q * 256 = q * 512" by simp
    also have "\<dots> \<le> T" unfolding q_def by (rule div_times_less_eq_dividend)
    finally show ?thesis by (simp add: less_eq_div_iff_mult_less_eq)
  qed
  moreover have "q div 512 + 12 \<le> q" using q by linarith
  ultimately show ?thesis by (simp add: template_tables_def)
qed

lemma card_template_tables:
  assumes es: "\<forall>e \<in> set es. valid_extent (me_extent e) \<and> hi (me_extent e) \<le> 4096 * T" and T: "0 < T" "T \<le> 2 ^ 25"
    and ss: "\<forall>s \<in> set ss. section_ok s" "sections_below K ss" and K: "0 < K" "K \<le> 2 ^ 19"
  shows "card (tables_for (template_mappings es ss)) \<le> template_tables T K"
proof -
  let ?B = "0xffff800000000 :: nat" and ?V = "0xffffffff80000 :: nat"
  let ?t = "\<lambda>a b. \<Union>i \<in> {a..<b}. dir_prefixes (page_at i)"
  have p: "phys_page f = page_at (?B + fidx f)" for f by (simp add: phys_page_def phys_base_def)
  have phys: "dir_prefixes (phys_page f) \<subseteq> ?t ?B (?B + T)" if "e \<in> set es" "f \<in> set (extent_frames (me_extent e))" for e f
  proof -
    have v: "valid_extent (me_extent e)" "hi (me_extent e) \<le> 4096 * T" using es that(1) by auto
    have "fidx f \<in> touched (me_extent e)" using extent_frames_touched [OF v(1)] that(2) by blast
    then have "fidx f \<le> (hi (me_extent e) - 1) div 4096" by (simp add: touched_eq [OF v(1)])
    also have "\<dots> < T"
    proof -
      have "hi (me_extent e) - 1 < T * 4096" using v by (auto simp: valid_extent_def)
      then show ?thesis by (simp add: div_less_iff_less_mult)
    qed
    finally have "?B + fidx f \<in> {?B..<?B + T}" by simp
    then show ?thesis unfolding p by (rule UN_upper [where B = "\<lambda>i. dir_prefixes (page_at i)"])
  qed
  have sec: "dir_prefixes p \<subseteq> ?t ?V (?V + K)" if s: "s \<in> set ss" "in_image s" "p \<in> set (extent_pages (section_extent s))" for s p
  proof -
    have b: "0xffffffff80000000 \<le> unat (es_start s)" "0 < unat (es_size s)"
      "unat (es_start s) + unat (es_size s) \<le> 0xffffffff80000000 + 4096 * K"
      using ss s by (auto simp: section_ok_def sections_below_def unat_gt_0)
    have lo: "lo (section_extent s) = unat (es_start s)" "hi (section_extent s) = unat (es_start s) + unat (es_size s)"
      by (simp_all add: section_extent_def lo_def hi_def ln_def a_nat_Address l_nat_Length)
    obtain i where i: "p = page_at i" "unat (es_start s) div 4096 \<le> i" "i \<le> (unat (es_start s) + unat (es_size s) - 1) div 4096"
      using s(3) by (auto simp: extent_pages_def lo)
    have "?V \<le> unat (es_start s) div 4096" using b(1) by (simp add: less_eq_div_iff_mult_less_eq)
    moreover have "(unat (es_start s) + unat (es_size s) - 1) div 4096 < ?V + K"
      using b by (simp add: div_less_iff_less_mult)
    ultimately have "i \<in> {?V..<?V + K}" using i by simp
    then show ?thesis unfolding i(1) by (rule UN_upper [where B = "\<lambda>i. dir_prefixes (page_at i)"])
  qed
  have gen: "A \<subseteq> X \<Longrightarrow> B = Y \<Longrightarrow> C \<subseteq> Z \<Longrightarrow> C \<union> B \<union> A \<subseteq> X \<union> Y \<union> Z" for A B C X Y Z :: "nat list set" by blast
  have t1: "tables_for (concat (map (\<lambda>e. phys_mappings data_bits (extent_frames (me_extent e))) es)) \<subseteq> ?t ?B (?B + T)"
    using phys unfolding tables_for_def phys_mappings_def by (auto simp del: UN_iff)
  have t2: "tables_for (map (\<lambda>p. (p, frame_at (pidx p), data_bits)) (map page_at [0..<256])) = ?t 0 256"
    unfolding tables_for_def set_map set_upt image_image UN_simps by simp
  have t3: "tables_for (concat (map section_mappings ss)) \<subseteq> ?t ?V (?V + K)"
    using sec unfolding tables_for_def section_mappings_def by (auto simp del: UN_iff split: if_splits)
  have "tables_for (template_mappings es ss) \<subseteq> ?t ?B (?B + T) \<union> ?t 0 256 \<union> ?t ?V (?V + K)"
    unfolding template_mappings_def tables_for_simps by (rule gen [OF t1 t2 t3])
  then have "card (tables_for (template_mappings es ss)) \<le> card (?t ?B (?B + T) \<union> ?t 0 256 \<union> ?t ?V (?V + K))"
    by (intro card_mono) auto
  also have "\<dots> \<le> card (?t ?B (?B + T)) + card (?t 0 256) + card (?t ?V (?V + K))"
    by (rule order_trans [OF card_Un_le]) (simp add: card_Un_le)
  also have "\<dots> \<le> span_tables ?B (?B + T) + span_tables 0 256 + span_tables ?V (?V + K)"
    using card_span_tables [of ?B "?B + T"] card_span_tables [of 0 256] card_span_tables [of ?V "?V + K"] T K by (intro add_mono) auto
  also have "\<dots> \<le> template_tables T K"
  proof -
    have "(?B + T - 1) div 2 ^ k = ?B div 2 ^ k + (T - 1) div 2 ^ k" if "2 ^ k dvd ?B" for k
      using that T(1) div_plus_div_distrib_dvd_left [of "2 ^ k" ?B "T - 1"] by simp
    from this [of 9] this [of 18] this [of 27] have "span_tables ?B (?B + T) = (T - 1) div 512 + (T - 1) div 2 ^ 18 + 3"
      using T(2) by (simp add: span_tables_def Let_def)
    moreover have "(?V + K - 1) div 2 ^ k = ?V div 2 ^ k + (K - 1) div 2 ^ k" if "2 ^ k dvd ?V" for k
      using that K(1) div_plus_div_distrib_dvd_left [of "2 ^ k" ?V "K - 1"] by simp
    from this [of 9] this [of 18] have "span_tables ?V (?V + K) \<le> (K - 1) div 512 + (K - 1) div 2 ^ 18 + 3"
      using K(2) by (simp add: span_tables_def Let_def)
    moreover have "span_tables 0 256 = 3" by (simp add: span_tables_def Let_def)
    ultimately show ?thesis by (simp add: template_tables_def)
  qed
  finally show ?thesis .
qed

section \<open>Properties\<close>

lemma entry_after_source: "entry_after M q x = Some e \<Longrightarrow> x = Some e \<or> (\<exists>p f b. (p, f, b) \<in> set M \<and> e = \<lparr>pte_raw = addr_raw (frame_start f) OR b\<rparr>)"
  by (induction M q x rule: entry_after.induct) (force split: if_splits)+

lemma template_writable_not_executable:
  assumes ss: "\<forall>s \<in> set ss. section_ok s" and e: "entry_after (template_mappings es ss) q None = Some e" "bit (pte_raw e) 1"
  shows "bit (pte_raw e) 63"
proof -
  obtain p f b where m: "(p, f, b) \<in> set (template_mappings es ss)" "e = \<lparr>pte_raw = addr_raw (frame_start f) OR b\<rparr>"
    using entry_after_source [OF e(1)] by auto
  have "\<exists>i. f = frame_at i"
    using m(1) by (auto simp: template_mappings_def phys_mappings_def extent_frames_def section_mappings_def split: if_splits)
  then obtain i where i: "f = frame_at i" by blast
  have "\<not> bit (2 ^ 12 * i) 1" using bit_push_bit_iff [of 12 i 1] by (simp add: push_bit_eq_mult mult.commute)
  then have "\<not> bit (of_nat (2 ^ 12 * i) :: u64) 1" unfolding bit_of_nat_iff by blast
  then have "\<not> bit (addr_raw (frame_start f)) 1" by (simp add: i frame_at_def addr_raw_addr_of)
  then have w: "bit b 1" using e(2) m(2) by (simp add: bit_or_iff)
  have "b = data_bits \<or> (\<exists>s \<in> set ss. in_image s \<and> es_type s \<noteq> OtherSection \<and> b = section_bits s)"
    using m(1) by (auto simp: template_mappings_def phys_mappings_def section_mappings_def split: if_splits)
  then have "bit b 63" using w ss
    by (auto simp: data_bits_def section_bits_def section_ok_def FLAG_PRESENT_def FLAG_WRITABLE_def FLAG_EXECUTE_DISABLE_def bit_or_iff split: if_splits)
  then show ?thesis using m(2) by (simp add: bit_or_iff)
qed


text \<open>The translator of \<^verbatim>\<open>init\<close> answers for the frames of the first GiB.\<close>

lemma first_gb_translator_ok:
  assumes "\<forall>n \<in> F. 0 < n \<and> n < 2 ^ 18"
  shows "frames_ok first_gb_translator F" "\<forall>a. first_gb_translator a \<noteq> ret None"
proof -
  have t: "first_gb_translator (frame_start (frame_at n)) = ret (Some (addr_of (4096 * n)))" if "n \<in> F" for n
  proof -
    have "4096 * n < 2 ^ 30" using assms that by auto
    then have "unat (of_nat (4096 * n) :: u64) < 2 ^ 30" by (subst unat_of_nat_eq) simp_all
    then have "(of_nat (4096 * n) :: u64) < 0x40000000" unfolding word_less_nat_alt by simp
    then have "first_gb_translator (addr_of (4096 * n)) = ret (Some (addr_of (4096 * n)))"
      unfolding first_gb_translator_def addr_raw_addr_of by (simp add: addr_of_def del: of_nat_mult)
    then show ?thesis by (simp add: frame_at_def)
  qed
  have a: "a_nat (addr_of (4096 * n) :: virt_address) = 4096 * n" if "n \<in> F" for n
    using assms that by (intro a_nat_addr_of) auto
  show "frames_ok first_gb_translator F" unfolding frames_ok_def
  proof (intro conjI ballI allI impI)
    fix n assume n: "n \<in> F"
    then show "n < 2 ^ 36" using assms by auto
    show "tr_answers first_gb_translator (frame_start (frame_at n))"
      unfolding tr_answers_def t [OF n] using a [OF n] assms n by simp
  next
    fix n k v assume n: "n \<in> F" "k \<in> F" and "first_gb_translator (frame_start (frame_at n)) = ret (Some v)
      \<and> first_gb_translator (frame_start (frame_at k)) = ret (Some v)"
    then have "addr_of (4096 * n) = (addr_of (4096 * k) :: virt_address)" by (simp add: t)
    then have "4096 * n = 4096 * k" using a [OF n(1)] a [OF n(2)] by metis
    then show "n = k" by simp
  qed
  show "\<forall>a. first_gb_translator a \<noteq> ret None" by (auto simp: first_gb_translator_def rassert_def)
qed


end
