(* ===== verification/Boot_Init.thy ===== *)
theory Boot_Init
  imports Boot_Tables
begin

text \<open>
  \<^verbatim>\<open>init\<close> of \<^verbatim>\<open>src/mm.rs\<close> (modelled in \<open>Kernel_MM\<close>) from its call to its return: the choice of the frames for the page
  tables, what is left of the memory map, and the state it leaves, for every memory map that meets its conditions.
\<close>

section \<open>The frames of the map\<close>

definition total_frames :: "map_entry list \<Rightarrow> nat" where
  "total_frames es = (\<Sum>e \<leftarrow> es. card (touched (me_extent e)))"

text \<open>Entries in the memory the kernel supports: below 128 GiB.\<close>

definition supported :: "map_entry \<Rightarrow> bool" where
  "supported e \<longleftrightarrow> valid_extent (me_extent e) \<and> r_hi e \<le> 2 ^ 37"

lemma supportedD:
  assumes "supported e"
  shows "r_lo e < r_hi e" "r_hi e \<le> 137438953472" "end_frame e \<le> 33554432" "valid_extent (me_extent e)"
  using assms by (auto simp: supported_def r_lo_def r_hi_def end_frame_def valid_extent_def)

lemma card_touched_le: "supported e \<Longrightarrow> card (touched (me_extent e)) \<le> 2 ^ 25"
  using supportedD [of e] by (auto simp: touched_eq r_lo_def r_hi_def)

lemma total_frames_le: "list_all supported es \<Longrightarrow> total_frames es \<le> length es * 2 ^ 25"
  unfolding total_frames_def by (induction es) (auto dest!: card_touched_le)

lemma sum_frames_eq:
  "list_all supported es \<Longrightarrow> a + total_frames es < 2 ^ 64 \<Longrightarrow> sum_frames (of_nat a) es = ret (of_nat (a + total_frames es))"
proof (induction es arbitrary: a)
  case (Cons e es)
  let ?n = "card (touched (me_extent e))"
  have e: "supported e" using Cons.prems by simp
  have "lo (me_extent e) div 4096 \<le> (hi (me_extent e) - 1) div 4096"
    using supportedD(1) [OF e] by (intro div_le_mono) (simp add: r_lo_def r_hi_def)
  then have n: "?n = (hi (me_extent e) - 1) div 4096 - lo (me_extent e) div 4096 + 1"
    unfolding touched_eq [OF supportedD(4) [OF e]] by (simp add: Suc_diff_le)
  have c: "frame_containing_extent (me_extent e) = ret (frame_range_at (lo (me_extent e) div 4096) ?n)"
    unfolding n by (rule frame_containing_extent_eq [OF supportedD(4) [OF e]])
  have t: "total_frames (e # es) = ?n + total_frames es" by (simp add: total_frames_def)
  have "u_add (of_nat a) (of_nat ?n) = ret (of_nat (a + ?n) :: u64)"
    using Cons.prems(2) by (intro u_add_of_nat) (simp add: t)
  then show ?case using Cons.IH [of "a + ?n"] Cons.prems t
    by (simp add: c frame_range_at_def add.assoc del: of_nat_add)
qed (simp add: total_frames_def)

section \<open>The frames for the page tables\<close>

text \<open>The number of frames \<^verbatim>\<open>contained_by_extent\<close> finds in an entry: all but the last of the whole ones.\<close>

definition room :: "map_entry \<Rightarrow> nat" where
  "room e = end_frame e - 1 - first_frame e"

lemma contained_by_entry:
  assumes "supported e" "2 ^ 20 \<le> r_lo e"
  shows "contained_by_extent (me_extent e) = ret (if 0 < room e then Some (frame_range_at (first_frame e) (room e)) else None)"
proof -
  note s = supportedD [OF assms(1)]
  have "lo (me_extent e) + 4095 < 2 ^ 64" "4096 < hi (me_extent e)"
    using s assms(2) by (auto simp: r_lo_def r_hi_def)
  from contained_by_extent_eq [OF s(4) this] show ?thesis
    by (simp only: room_def first_frame_def end_frame_def r_lo_def r_hi_def zero_less_diff)
qed

text \<open>The entry that is chosen: the first available one from 1 MiB on with enough room.\<close>

definition chosen :: "nat \<Rightarrow> map_entry list \<Rightarrow> map_entry \<Rightarrow> bool" where
  "chosen need before c \<longleftrightarrow> me_type c = Available \<and> 2 ^ 20 \<le> r_lo c \<and> 0 < need \<and> need \<le> room c
    \<and> (\<forall>e \<in> set before. me_type e = Available \<and> 2 ^ 20 \<le> r_lo e \<longrightarrow> 0 < room e \<and> room e < need)"

lemma room_less: "supported e \<Longrightarrow> room e < 2 ^ 25"
  using supportedD [of e] by (auto simp: room_def)

lemma unat_of_nat_25: "n \<le> 2 ^ 25 \<Longrightarrow> unat (of_nat n :: u64) = n"
  by (rule unat_of_nat_eq) simp

lemma find_init_entry_scan:
  "list_all supported (as @ c # bs) \<Longrightarrow> \<forall>e \<in> set (as @ [c]). 2 ^ 20 \<le> r_lo e \<Longrightarrow> chosen need as c \<Longrightarrow>
    find_init_entry (of_nat need) (enumerate k (as @ c # bs)) = ret (Some (k + length as))"
proof (induction as arbitrary: k)
  case Nil
  have c: "supported c" "2 ^ 20 \<le> r_lo c" "me_type c = Available" "need \<le> room c" "0 < room c" using Nil by (auto simp: chosen_def)
  have "unat (of_nat need :: u64) \<le> unat (of_nat (room c) :: u64)"
    using c(4) room_less [OF c(1)] by (simp add: unat_of_nat_25)
  then show ?case using c by (simp add: contained_by_entry frame_range_at_def word_le_nat_alt)
next
  case (Cons e as)
  have e: "supported e" "2 ^ 20 \<le> r_lo e" using Cons.prems by auto
  have need: "need < 2 ^ 25" using Cons.prems room_less [of c] by (auto simp: chosen_def)
  have later: "find_init_entry (of_nat need) (enumerate (Suc k) (as @ c # bs)) = ret (Some (Suc k + length as))"
    using Cons.prems by (intro Cons.IH) (auto simp: chosen_def)
  show ?case
  proof (cases "me_type e = Available")
    case True
    then have r: "0 < room e" "room e < need" using Cons.prems(3) e(2) by (auto simp: chosen_def)
    have "\<not> unat (of_nat need :: u64) \<le> unat (of_nat (room e) :: u64)"
      using r(2) need by (simp add: unat_of_nat_25)
    then show ?thesis using True r(1) later contained_by_entry [OF e] by (simp add: frame_range_at_def word_le_nat_alt)
  qed (use later in simp)
qed

lemma find_init_entry_chosen:
  "list_all supported (as @ c # bs) \<Longrightarrow> regions_ok (as @ c # bs) \<Longrightarrow> chosen need as c \<Longrightarrow>
    find_init_entry (of_nat need) (dropWhile (\<lambda>ie. ext_address (me_extent (snd ie)) < Address (1024 * 1024)) (enumerate k (as @ c # bs)))
      = ret (Some (k + length as))"
proof (induction as arbitrary: k)
  have low: "ext_address (me_extent e) < Address 1048576 \<longleftrightarrow> r_lo e < 1048576" for e
    by (simp add: nat_view r_lo_def lo_def a_nat_Address)
  {
    case Nil
    then show ?case using find_init_entry_scan [of "[]" c bs need k] by (simp add: low chosen_def)
  next
    case (Cons e as)
    show ?case
    proof (cases "r_lo e < 2 ^ 20")
      case True
      have "chosen need as c" using Cons.prems(3) by (simp add: chosen_def)
      then show ?thesis using Cons.IH [of "Suc k"] Cons.prems True by (simp add: low)
    next
      case False
      have "r_lo e < r_hi e" using Cons.prems(1) supportedD(1) [of e] by simp
      then have hi: "2 ^ 20 \<le> r_hi e" using False by linarith
      have "\<forall>x \<in> set (as @ c # bs). r_hi e \<le> r_lo x" using Cons.prems(2) by simp
      then have "\<forall>x \<in> set ((e # as) @ [c]). 2 ^ 20 \<le> r_lo x" using order_trans [OF hi] False by simp
      then show ?thesis using find_init_entry_scan [OF Cons.prems(1) _ Cons.prems(3), of k] False by (simp add: low)
    qed
  }
qed

text \<open>The chosen entry without its first \<open>n\<close> frames.\<close>

definition without_first :: "nat \<Rightarrow> map_entry \<Rightarrow> map_entry" where
  "without_first n c = c\<lparr>me_extent := extent_of (4096 * (first_frame c + n)) (r_hi c - 4096 * (first_frame c + n))\<rparr>"

lemma without_first_range:
  assumes "supported c" "n \<le> room c" "0 < room c"
  shows "from_range_exclusive (addr_of (4096 * (first_frame c + n))) (addr_of (r_hi c)) = ret (me_extent (without_first n c))"
    "supported (without_first n c)" "r_lo (without_first n c) = 4096 * (first_frame c + n)" "r_hi (without_first n c) = r_hi c"
    "first_frame (without_first n c) = first_frame c + n" "end_frame (without_first n c) = end_frame c"
    "r_lo c \<le> r_lo (without_first n c)"
proof -
  note s = supportedD [OF assms(1)]
  have "first_frame c + n < end_frame c" using assms(2,3) by (auto simp: room_def)
  then have le: "4096 * (first_frame c + n) < r_hi c" by (simp add: end_frame_def less_eq_div_iff_mult_less_eq less_le_trans
      Suc_le_eq [symmetric])
  show "from_range_exclusive (addr_of (4096 * (first_frame c + n))) (addr_of (r_hi c)) = ret (me_extent (without_first n c))"
    using le s(2) u_sub_of_nat [of "4096 * (first_frame c + n)" "r_hi c", where 'a = 64]
    by (simp add: from_range_exclusive_def without_first_def extent_of_def addr_of_def mlen_of_def del: of_nat_add of_nat_mult)
  show lo: "r_lo (without_first n c) = 4096 * (first_frame c + n)" and hi: "r_hi (without_first n c) = r_hi c"
    using le s(2) by (simp_all add: without_first_def r_lo_def r_hi_def)
  show "supported (without_first n c)" using le s lo hi by (simp add: supported_def r_lo_def r_hi_def valid_extent_def)
  show "first_frame (without_first n c) = first_frame c + n" unfolding first_frame_def lo by (simp add: round_up_id)
  show "end_frame (without_first n c) = end_frame c" unfolding end_frame_def hi ..
  show "r_lo c \<le> r_lo (without_first n c)" unfolding lo
    using round_up_ge [of 4096 "r_lo c"] by (simp add: first_frame_def round_up_dvd dvd_div_mult_self)
qed

section \<open>The stages\<close>

lemma take_init_frames_ok:
  assumes m: "from_entries (as @ c # bs) = ret m" and es: "list_all supported (as @ c # bs)" "regions_ok (as @ c # bs)" "length (as @ c # bs) \<le> 128"
    and need: "need = total_frames (as @ c # bs) div 256" "chosen need as c"
  shows "\<exists>m'. take_init_frames m = ret (length as, frame_range_at (first_frame c) need, m')
    \<and> from_entries (as @ without_first need c # bs) = ret m'"
proof -
  let ?es = "as @ c # bs" and ?i = "first_frame c"
  have c: "supported c" "need \<le> room c" "0 < need" "2 ^ 20 \<le> r_lo c" using es need by (auto simp: chosen_def)
  note s = supportedD [OF c(1)] and w = without_first_range [OF c(1,2)]
  have r: "0 < room c" "?i + need < 2 ^ 25" using c(2,3) s(3) by (auto simp: room_def)
  have t: "total_frames ?es \<le> 128 * 2 ^ 25" using total_frames_le [OF es(1)] es(3) by (meson mult_le_mono1 order_trans)
  have sum: "sum_frames 0 ?es = ret (of_nat (total_frames ?es))" using sum_frames_eq [OF es(1), of 0] t by simp
  have div: "u_div (of_nat (total_frames ?es) :: u64) 256 = ret (of_nat need)"
    using of_nat_div_word [of "total_frames ?es" "256 :: u64" 256] t by (simp add: u_div_def need(1))
  have find: "find_init_entry (of_nat need) (dropWhile (\<lambda>ie. ext_address (me_extent (snd ie)) < Address (1024 * 1024)) (enumerate 0 ?es))
      = ret (Some (length as))" using find_init_entry_chosen [OF es(1,2) need(2), of 0] by simp
  have new: "frame_range_new (frame_at ?i) (of_nat need) = ret (Some (frame_range_at ?i need))"
    by (rule frame_range_new_at) (use c(3) r(2) in simp_all)
  have last: "frame_range_end (frame_range_at ?i need) = ret (Some (frame_at (?i + need)))"
    using frame_next_wf [of "frame_at ?i" "of_nat need"] r(2) by (simp add: frame_range_end_def frame_range_at_def unat_of_nat_25)
  have first: "fr_first (frame_range_at ?i (room c)) = frame_at ?i" by (simp add: frame_range_at_def)
  have ext: "from_range_exclusive (frame_start (frame_at (?i + need))) (addr_of (hi (me_extent c))) = ret (me_extent (without_first need c))"
    using w(1) r(1) by (simp add: frame_at_def r_hi_def)
  have upd: "c\<lparr>me_extent := me_extent (without_first need c)\<rparr> = without_first need c" by (simp add: without_first_def)
  obtain m' where m': "entries_mut_store m (length as) (without_first need c) = ret m'" "from_entries (as @ without_first need c # bs) = ret m'"
    using from_entries_store [OF m, of "length as" "without_first need c"] by auto
  have "take_init_frames m = ret (length as, frame_range_at ?i need, m')"
    unfolding take_init_frames_def from_entries_entries [OF m] bnd.simps sum div find
    by (simp add: contained_by_entry [OF c(1,4)] r(1) first new last end_address_eq [OF s(4)] ext upd m'(1) del: of_nat_add)
  then show ?thesis using m'(2) by blast
qed

lemma check_init_frames_ok:
  assumes "0 < n" "i + n \<le> 2 ^ 18" "get_kernel_phys_extent syms = ret k" "valid_extent k" "hi k \<le> 4096 * i"
  shows "check_init_frames syms (frame_range_at i n) = ret ()"
proof -
  have last: "frame_range_end (frame_range_at i n) = ret (Some (frame_at (i + n)))"
    using frame_next_wf [of "frame_at i" "of_nat n"] assms(1,2) by (simp add: frame_range_end_def frame_range_at_def unat_of_nat_25)
  have a: "a_nat (frame_start (frame_at (i + n))) = 4096 * (i + n)" "a_nat (frame_start (frame_at i)) = 4096 * i"
    using assms(2) by (simp_all add: frame_at_def)
  have x: "frame_extent (frame_at (i + n)) = ret \<lparr>ext_address = frame_start (frame_at (i + n)), ext_length = PAGE_SIZE\<rparr>"
    using assms(2) by (simp add: frame_extent_def extent_new_eq a)
  have first: "fr_first (frame_range_at i n) = frame_at i" by (simp add: frame_range_at_def)
  have "hi k \<le> 4096 * i" "hi k < 2 ^ 64" using assms(4,5) by (auto simp: valid_extent_def)
  then show ?thesis using assms(2)
    by (simp add: check_init_frames_def last x address_sub_eq a address_zero_def assms(3) end_address_eq [OF assms(4)] nat_view a_nat_Address l_nat_Length
        first)
qed

text \<open>The template with the translator and the frames of \<^verbatim>\<open>init\<close>; what is left reaches up to the end of the frames.\<close>

lemma init_template_ok:
  assumes FL: "flags_law FL" and base: "KERNEL_VIRT_BASE syms = 0xffffffff80000000"
    and es: "map_entries m = ret es" "list_all supported es"
    and ss: "bi_elf_sections boot_info = Some ss" "\<forall>s \<in> set ss. section_ok s"
    and mem: "\<forall>v. length (pt_entries (memory v)) = 512"
    and n: "0 < i" "0 < n" "i + n \<le> 2 ^ 18" "card (tables_for (template_mappings es ss)) \<le> n"
  shows "runs (create_page_table_template FL syms boot_info m bump_allocate first_gb_translator memory (bump_new (frame_range_at i n))) (\<lambda>st.
    mapper_inv bump_frames bump_inv first_gb_translator st
    \<and> (\<forall>q. lookup_page first_gb_translator st q = entry_after (template_mappings es ss) q None)
    \<and> bump_upto (i + n) (mp_frames st) \<and> card (bump_frames (mp_frames st)) = n - card (tables_for (template_mappings es ss)))"
proof -
  let ?M = "template_mappings es ss" and ?b = "bump_new (frame_range_at i n)" and ?tr = first_gb_translator
  let ?st = "boot_mapper memory ?b"
  note b = boot_mapper_ok [OF mem, of ?tr ?b]
  have F: "bump_frames ?b = {i..<i + n}" using n(2,3) by (simp add: bump_frames_def bump_new_def range_frames_at)
  have "bump_inv ?b" using n(2,3) by (simp add: bump_inv_def bump_new_def wf_frame_range_at)
  then have upto: "bump_upto (i + n) ?b" using F by (auto simp: bump_upto_def)
  have tr: "frames_ok ?tr (bump_frames ?b)" "\<forall>a. ?tr a \<noteq> ret None"
    using first_gb_translator_ok [of "bump_frames ?b"] n(1,3) by (auto simp: F)
  have mf: "mp_frames ?st = ?b" by (simp add: boot_mapper_def)
  have "mapper_inv bump_frames (bump_upto (i + n)) ?tr ?st" using b(1,2) upto tr(1) by (simp add: mapper_inv_def mf)
  moreover have Q: "tables_for ?M - paths ?tr ?st = tables_for ?M"
    unfolding b(4) by (auto simp: tables_for_def dir_prefixes_def)
  ultimately have room: "has_room (i + n) ?tr ?M ?st" using n(4) by (simp add: has_room_def mf F)
  have es': "\<forall>e \<in> set es. valid_extent (me_extent e) \<and> hi (me_extent e) \<le> 2 ^ 37"
    using es(2) by (simp add: list_all_iff supported_def r_hi_def)
  show ?thesis
  proof (rule runs_mono [OF template_maps [OF FL tr(2) base es(1) es' ss room]])
    fix st assume "maps (i + n) ?tr ?M ?st st"
    then have st: "mapper_inv bump_frames (bump_upto (i + n)) ?tr st" "\<And>q. lookup_page ?tr st q = entry_after ?M q None"
      "n = card (bump_frames (mp_frames st)) + card (tables_for ?M)"
      by (auto simp: maps_def b(3) makes_tables_def Q mf F)
    have "bump_upto (i + n) (mp_frames st)" using st(1) by (simp add: mapper_inv_def)
    then show "mapper_inv bump_frames bump_inv ?tr st \<and> (\<forall>q. lookup_page ?tr st q = entry_after ?M q None)
        \<and> bump_upto (i + n) (mp_frames st) \<and> card (bump_frames (mp_frames st)) = n - card (tables_for ?M)"
      using st mapper_inv_upto by auto
  qed
qed

lemma restore_init_frames_ok:
  assumes m: "from_entries (as @ without_first need c # bs) = ret m"
    and c: "supported c" "need \<le> room c" "0 < need"
    and b: "bump_upto (first_frame c + need) b" "card (bump_frames b) = need - used" "used \<le> need"
  shows "\<exists>m'. restore_init_frames m (length as) (bump_unwrap b) = ret m' \<and> from_entries (as @ without_first used c # bs) = ret m'"
proof -
  have room: "0 < room c" "used \<le> room c" using c b(3) by auto
  note w = without_first_range [OF c(1,2) room(1)] and w' = without_first_range [OF c(1) room(2,1)]
  note left = bump_upto_remain [OF b(1)]
  show ?thesis
  proof (cases "remain b")
    case None
    then have "used = need" using left b(2,3) by simp
    then show ?thesis using m None by (simp add: restore_init_frames_def bump_unwrap_def)
  next
    case (Some r)
    then have r: "wf_frame (fr_first r)" "fidx (fr_first r) = first_frame c + used"
      using left b(2,3) by (auto simp: wf_frame_range_def)
    have "fr_first r = frame_at (first_frame c + used)" using frame_at_fidx [OF r(1)] by (simp only: r(2))
    then have "frame_start (fr_first r) = addr_of (4096 * (first_frame c + used))" by (simp only: frame_at_def frame.select_convs)
    then have x: "from_range_exclusive (frame_start (fr_first r)) (addr_of (r_hi c)) = ret (me_extent (without_first used c))"
      using w'(1) by simp
    have "end_address (me_extent (without_first need c)) = ret (addr_of (r_hi c))"
      using end_address_eq [OF supportedD(4) [OF w(2)]] w(4) by (simp add: r_hi_def)
    moreover have "(without_first need c)\<lparr>me_extent := me_extent (without_first used c)\<rparr> = without_first used c" by (simp add: without_first_def)
    moreover obtain m' where "entries_mut_store m (length as) (without_first used c) = ret m'" "from_entries (as @ without_first used c # bs) = ret m'"
      using from_entries_store [OF m, of "length as" "without_first used c"] by auto
    ultimately show ?thesis using Some by (simp add: restore_init_frames_def bump_unwrap_def from_entries_entries [OF m] x)
  qed
qed

section \<open>Which frames are free in the end\<close>

text \<open>Marking keeps the whole frames of available memory that no area touches.\<close>

lemma whole_frames_iff: "n \<in> whole_frames e \<longleftrightarrow> r_lo e \<le> 4096 * n \<and> 4096 * n + 4096 \<le> r_hi e"
proof -
  have "{4096 * n..<4096 * n + 4096} \<subseteq> {r_lo e..<r_hi e} \<longleftrightarrow> r_lo e \<le> 4096 * n \<and> 4096 * n + 4096 \<le> r_hi e"
    by (subst ivl_subset) simp
  then show ?thesis by (simp add: whole_frames_def addrs_def r_lo_def r_hi_def)
qed

lemma mark_rounds_frames:
  assumes rounds: "mark_rounds rs ks es" and ok: "regions_ok rs" "areas_ok ks" and free: "\<forall>k \<in> set ks. n \<notin> touched k"
  shows "(\<exists>e \<in> set es. me_type e = Available \<and> n \<in> whole_frames e) \<longleftrightarrow> (\<exists>r \<in> set rs. me_type r = Available \<and> n \<in> whole_frames r)"
proof
  assume "\<exists>e \<in> set es. me_type e = Available \<and> n \<in> whole_frames e"
  then obtain e where e: "e \<in> set es" "me_type e = Available" "n \<in> whole_frames e" by blast
  then obtain r where "r \<in> set rs" "r_lo r \<le> r_lo e" "r_hi e \<le> r_hi r" "me_type r = Available"
    using mark_rounds_from [OF rounds ok e(1)] by auto
  then show "\<exists>r \<in> set rs. me_type r = Available \<and> n \<in> whole_frames r" using e(3) by (auto simp: whole_frames_iff)
next
  assume "\<exists>r \<in> set rs. me_type r = Available \<and> n \<in> whole_frames r"
  then obtain r where r: "r \<in> set rs" "me_type r = Available" "n \<in> whole_frames r" by blast
  have "\<forall>a \<in> {4096 * n..<4096 * n + 4096}. \<not> covered ks a" using free by (auto simp: covered_def touched_def)
  then show "\<exists>e \<in> set es. me_type e = Available \<and> n \<in> whole_frames e"
    using mark_rounds_keep [OF rounds ok r(1), of "4096 * n" "4096 * n + 4096"] r(2,3) by (auto simp: whole_frames_iff)
qed

text \<open>Taking frames from the front of one entry takes them from the whole map.\<close>

lemma available_without_first:
  assumes es: "regions_ok (as @ c # bs)" and c: "supported c" "used \<le> room c" "0 < room c" "me_type c = Available"
  shows "\<Union> (whole_frames ` {e \<in> set (as @ without_first used c # bs). me_type e = Available})
    = \<Union> (whole_frames ` {e \<in> set (as @ c # bs). me_type e = Available}) - {first_frame c..<first_frame c + used}"
proof -
  let ?U = "\<Union> (whole_frames ` {e \<in> set (as @ bs). me_type e = Available})" and ?T = "{first_frame c..<first_frame c + used}"
  note w = without_first_range [OF c(1-3)]
  have "whole_frames (without_first used c) = whole_frames c - ?T" unfolding whole_frames_eq w(5,6) by auto
  moreover have "?U \<inter> ?T = {}"
  proof -
    have T: "?T \<subseteq> whole_frames c" using c(2,3) by (auto simp: whole_frames_eq room_def)
    have "n \<notin> whole_frames e" if "e \<in> set (as @ bs)" "n \<in> whole_frames c" for e n
    proof -
      have "r_hi e \<le> r_lo c \<or> r_hi c \<le> r_lo e" using es that(1) by (auto simp: regions_ok_append)
      then show ?thesis using that(2) by (auto simp: whole_frames_iff)
    qed
    then show ?thesis using T by blast
  qed
  ultimately have eq: "?U \<union> whole_frames (without_first used c) = ?U \<union> whole_frames c - ?T" by blast
  have one: "\<Union> (whole_frames ` {e \<in> set (as @ x # bs). me_type e = Available}) = ?U \<union> whole_frames x" if "me_type x = Available" for x
    using that by auto
  have ty: "me_type (without_first used c) = Available" using c(4) by (simp add: without_first_def)
  show ?thesis unfolding one [OF c(4)] one [OF ty] by (rule eq)
qed

lemma without_first_exact:
  assumes "supported c" "used \<le> need" "need \<le> room c" "0 < room c" "2 ^ 20 \<le> r_lo c"
    and "round_up 8 (first_frame c + need) \<le> round_down 8 (end_frame c)"
  shows "exact_entry (without_first used c)"
proof -
  note w = without_first_range [OF assms(1) _ assms(4), of used]
  have "round_up 8 (first_frame c + used) \<le> round_up 8 (first_frame c + need)"
    using round_up_ge [of 8 "first_frame c + need"] assms(2) by (intro round_up_least) auto
  moreover have "r_lo c < r_hi c" using supportedD [OF assms(1)] by simp
  then have "8 \<le> end_frame c" using assms(5) unfolding end_frame_def by (intro less_eq_div_iff_mult_less_eq [THEN iffD2]) auto
  ultimately show ?thesis using w assms(2,3,6) by (simp add: exact_entry_def exact_range_def)
qed

text \<open>The tables a walk finds do not depend on the frames still to be handed out.\<close>

lemma lookup_page_frames:
  "lookup_page tr \<lparr>mp_level_4 = mp_level_4 st, mp_memory = mp_memory st, mp_frames = x\<rparr> q = lookup_page tr st q"
proof -
  let ?st = "\<lparr>mp_level_4 = mp_level_4 st, mp_memory = mp_memory st, mp_frames = x\<rparr>"
  have e: "ent ?st t i = ent st t i" for t i by (simp add: ent_def table_def split: table_ref.splits)
  have "table_of tr ?st t p = table_of tr st t p" for t p by (induction p arbitrary: t) (auto simp: e split: option.splits)
  then show ?thesis by (simp add: lookup_page_def walk_def e split: option.splits)
qed

section \<open>The conditions of \<^verbatim>\<open>init\<close>\<close>

text \<open>\<^verbatim>\<open>PhysFrame::from_start_address\<close> accepts the aligned addresses of the processor's physical address space.\<close>

definition cr3_law :: "(u64 \<Rightarrow> u64 rust) \<Rightarrow> bool" where
  "cr3_law cr3_frame \<longleftrightarrow> (\<forall>a. 4096 dvd unat a \<and> unat a < 2 ^ 52 \<longrightarrow> cr3_frame a = ret a)"

text \<open>The state at boot; the kernel image; the memory map of the boot loader and the areas in it that are in use.\<close>

definition fresh_mm :: "kernel_mm \<Rightarrow> bool" where
  "fresh_mm st \<longleftrightarrow> \<not> km_initialized st \<and> km_frame_allocator st = None
    \<and> length (km_frame_bitmap st) = unat MAX_MEMORY_FRAMES div 8 \<and> (\<forall>v. length (pt_entries (km_tables st v)) = 512)"

definition image_ok :: "linker_symbols \<Rightarrow> u64 \<Rightarrow> bool" where
  "image_ok syms root_ptr \<longleftrightarrow> KERNEL_PHYS_BEGIN_SYM syms < KERNEL_PHYS_END_SYM syms \<and> unat (KERNEL_PHYS_END_SYM syms) \<le> 2 ^ 37
    \<and> KERNEL_VIRT_BASE syms = 0xffffffff80000000 \<and> KERNEL_VIRT_BASE syms \<le> root_ptr \<and> 4096 dvd unat root_ptr"

definition memory_ok :: "boot_information \<Rightarrow> mb2_area list \<Rightarrow> phys_extent list \<Rightarrow> bool" where
  "memory_ok boot_info areas reserved \<longleftrightarrow> bi_memory_areas boot_info = Some areas \<and> list_all area_ok areas
    \<and> regions_ok (map area_entry areas) \<and> list_all supported (map area_entry areas)
    \<and> areas_ok reserved \<and> (\<forall>e \<in> set reserved. hi e \<le> 2 ^ 37) \<and> length areas + length reserved \<le> 31
    \<and> bi_total_size boot_info \<noteq> 0 \<and> unat (bi_start boot_info) + unat (bi_total_size boot_info) \<le> 2 ^ 37"

text \<open>
  \<open>es\<close> is the map with the reserved areas and the kernel image marked. One frame for every 256 of the map is set
  aside, at the start of the entry \<open>c\<close>: the entry must be there, in the first GiB and behind the kernel, and the tables
  must fit. The last two conditions exclude the entries that \<^verbatim>\<open>fill_bitmap_from_map\<close> fills wrongly.
\<close>

definition plan_ok :: "linker_symbols \<Rightarrow> mapping list \<Rightarrow> map_entry list \<Rightarrow> map_entry \<Rightarrow> map_entry list \<Rightarrow> bool" where
  "plan_ok syms M as c bs \<longleftrightarrow> (let need = total_frames (as @ c # bs) div 256 in
    chosen need as c \<and> first_frame c + need \<le> 2 ^ 18 \<and> unat (KERNEL_PHYS_END_SYM syms) \<le> 4096 * first_frame c
    \<and> card (tables_for M) \<le> need
    \<and> round_up 8 (first_frame c + need) \<le> round_down 8 (end_frame c)
    \<and> (\<forall>e \<in> set (as @ bs). me_type e = Available \<longrightarrow> exact_entry e))"

text \<open>The frames that may be handed out: whole frames of available memory without a byte of anything in use.\<close>

definition usable_frames :: "linker_symbols \<Rightarrow> boot_information \<Rightarrow> mb2_area list \<Rightarrow> phys_extent list \<Rightarrow> nat set" where
  "usable_frames syms boot_info areas reserved = {n.
    (\<exists>a \<in> set areas. ar_typ a = MbAvailable \<and> {4096 * n..<4096 * n + 4096} \<subseteq> {unat (ar_start a)..<unat (ar_start a) + unat (ar_size a)})
    \<and> (\<forall>x \<in> {4096 * n..<4096 * n + 4096}. (\<forall>e \<in> set reserved. x \<notin> addrs e)
      \<and> x \<notin> {unat (KERNEL_PHYS_BEGIN_SYM syms)..<unat (KERNEL_PHYS_END_SYM syms)}
      \<and> x \<notin> {unat (bi_start boot_info)..<unat (bi_start boot_info) + unat (bi_total_size boot_info)}
      \<and> x \<notin> {0..<1024 * 1024})}"

section \<open>Marking the map\<close>

lemma mark_kernel_areas_eq:
  assumes "marker_law MK" "mark_rounds rs ks es" "regions_ok rs" "areas_ok ks" "length rs + 2 * length ks + 1 < fuel"
  shows "mark_kernel_areas MK fuel rs ks = ret es"
proof -
  obtain vr fr vk fk where "put_back_law (mk_r MK) vr fr" "put_back_law (mk_k MK) vk fk" "array_vec_law (mk_v MK)"
    using assms(1) by (auto simp: marker_law_def)
  from mark_kernel_areas_rounds [OF this assms(3-5)] show ?thesis
    using mark_rounds_det [OF assms(2)] by (auto simp: runs_iff)
qed

lemma mark_rounds_supported:
  assumes "mark_rounds rs ks es" "regions_ok rs" "areas_ok ks" "list_all supported rs"
  shows "list_all supported es" "regions_ok es" "length es \<le> 2 * (length rs + length ks)"
proof -
  show ok: "regions_ok es" using mark_rounds_marked [OF assms(1-3)] by (simp add: marked_def)
  have "r_hi e \<le> 2 ^ 37" if "e \<in> set es" for e
    using mark_rounds_from [OF assms(1-3) that] assms(4) by (auto simp: list_all_iff supported_def intro: order_trans)
  moreover have "valid_extent (me_extent e)" if "e \<in> set es" for e
    using ok that by (auto simp: regions_ok_def areas_ok_def list_all_iff)
  ultimately show "list_all supported es" by (simp add: list_all_iff supported_def)
  show "length es \<le> 2 * (length rs + length ks)"
    using mark_rounds_length [OF assms(1-3)] rounds_left_le by (rule order_trans [OF _ mult_le_mono2])
qed

lemma area_entry_simps [simp]:
  "area_ok a \<Longrightarrow> r_lo (area_entry a) = unat (ar_start a)" "area_ok a \<Longrightarrow> r_hi (area_entry a) = unat (ar_start a) + unat (ar_size a)"
  "area_ok a \<Longrightarrow> me_type (area_entry a) = Available \<longleftrightarrow> ar_typ a = MbAvailable"
  by (auto simp: area_entry_def area_ok_def area_type_def r_lo_def r_hi_def lo_def hi_def ln_def a_nat_Address l_nat_Length split: mb2_area_type.splits)

lemma translate_ok:
  "bi_memory_areas bi = Some areas \<Longrightarrow> list_all area_ok areas \<Longrightarrow> length areas \<le> 128 \<Longrightarrow>
    \<exists>m. translate_memory_map bi = ret m \<and> from_entries (map area_entry areas) = ret m"
  using translate_areas_eq [of areas "map area_entry areas"] by (simp add: translate_memory_map_def from_entries_eq)

section \<open>The whole of \<^verbatim>\<open>init\<close>\<close>

lemma kernel_extent_ok:
  assumes "KERNEL_PHYS_BEGIN_SYM syms < KERNEL_PHYS_END_SYM syms"
  obtains k where "get_kernel_phys_extent syms = ret k" "valid_extent k"
    "addrs k = {unat (KERNEL_PHYS_BEGIN_SYM syms)..<unat (KERNEL_PHYS_END_SYM syms)}" "hi k = unat (KERNEL_PHYS_END_SYM syms)"
proof -
  obtain k where k: "get_kernel_phys_extent syms = ret k"
    using assms by (simp add: get_kernel_phys_extent_def from_raw_range_exclusive_def from_range_exclusive_def u_sub_def checked_sub_def less_imp_le)
  note a = get_kernel_phys_extent_eq [OF assms k]
  have "unat (KERNEL_PHYS_BEGIN_SYM syms) < unat (KERNEL_PHYS_END_SYM syms)" using assms by (simp add: word_less_nat_alt)
  then have "hi k = unat (KERNEL_PHYS_END_SYM syms)"
    using a valid_extentD(1) [OF a(1)] unfolding addrs_def by (simp add: Ico_eq_Ico)
  then show ?thesis using that k a by blast
qed

text \<open>The extents \<^verbatim>\<open>init\<close> reserves besides the ones it is given.\<close>

lemma own_extents_ok:
  assumes "memory_ok boot_info areas reserved"
  obtains b mb :: phys_extent where "extent_from_raw (bi_start boot_info) (bi_total_size boot_info) = ret b" "extent_from_raw 0 (1024 * 1024) = ret mb"
    "valid_extent b" "addrs b = {unat (bi_start boot_info)..<unat (bi_start boot_info) + unat (bi_total_size boot_info)}" "hi b \<le> 2 ^ 37"
    "valid_extent mb" "addrs mb = {0..<1024 * 1024}" "hi mb \<le> 2 ^ 37"
proof -
  obtain b where b: "extent_from_raw (bi_start boot_info) (bi_total_size boot_info) = ret (b :: phys_extent)"
    using assms by (auto simp: memory_ok_def extent_from_raw_def extent_new_eq a_nat_Address l_nat_Length unat_eq_zero)
  obtain mb where mb: "extent_from_raw 0 (1024 * 1024) = ret (mb :: phys_extent)"
    by (simp add: extent_from_raw_def extent_new_eq a_nat_Address l_nat_Length)
  show ?thesis
    by (rule that [OF b mb]) (use extent_from_raw_valid [OF b] extent_from_raw_valid [OF mb] assms in \<open>auto simp: addrs_def hi_def memory_ok_def\<close>)
qed

lemma touched_supported: "valid_extent e \<Longrightarrow> hi e \<le> 2 ^ 37 \<Longrightarrow> touched e \<subseteq> {..<33554432}"
  by (auto simp: touched_eq valid_extent_def)

text \<open>The bitmap after filling and reserving.\<close>

lemma fill_and_reserve_ok:
  assumes m: "from_entries es = ret m" and es: "list_all supported es" "regions_ok es" "es \<noteq> []" "length es \<le> 128"
    and exact: "\<forall>e \<in> set es. me_type e = Available \<longrightarrow> exact_entry e"
    and len: "length bm = unat MAX_MEMORY_FRAMES div 8" and xs: "\<forall>e \<in> set xs. valid_extent e \<and> hi e \<le> 2 ^ 37"
  shows "\<exists>bm' a. fill_bitmap_from_map bm m = ret bm' \<and> reserve_extents (bitmap_new bm') xs = ret a \<and> bitmap_inv a
    \<and> known_frames a = {..<2 ^ 25} \<and> free_frames a = \<Union> (whole_frames ` {e \<in> set es. me_type e = Available}) - \<Union> (touched ` set xs)"
proof -
  have len': "length bm = 4194304" using len by (simp add: unat_MAX_MEMORY_FRAMES)
  have "last es \<in> set es" using es(3) by simp
  then have "r_hi (last es) \<le> 137438953472" using es(1) supportedD(2) by (auto simp: list_all_iff)
  then have "r_hi (last es) + 32768 < 2 ^ 64" "(r_hi (last es) + 32767) div 32768 \<le> length bm" by (auto simp: len')
  from fill_bitmap_exact [OF m es(2-4) this exact] obtain bm' where bm': "fill_bitmap_from_map bm m = ret bm'"
    "length bm' = 4194304" "free_bits bm' = \<Union> (whole_frames ` {e \<in> set es. me_type e = Available})"
    by (auto simp: runs_iff len')
  let ?a = "bitmap_new bm'"
  have a: "bitmap_inv ?a" "known_frames ?a = {..<33554432}" "free_frames ?a = free_bits bm'"
    using bm'(2) by (simp_all add: bitmap_new_def bitmap_inv_def known_frames_def free_frames_def)
  have "\<forall>e \<in> set xs. valid_extent e \<and> touched e \<subseteq> known_frames ?a" using xs touched_supported unfolding a(2) by blast
  from reserve_extents_ok [OF a(1) this] show ?thesis using bm' a by (auto simp: runs_iff)
qed

lemma usable_frames_eq:
  assumes mem: "memory_ok boot_info areas reserved" and r1: "mark_rounds (map area_entry areas) reserved es1" and r2: "mark_rounds es1 [k] es"
    and k: "valid_extent k" "addrs k = {unat (KERNEL_PHYS_BEGIN_SYM syms)..<unat (KERNEL_PHYS_END_SYM syms)}"
    and b: "addrs b = {unat (bi_start boot_info)..<unat (bi_start boot_info) + unat (bi_total_size boot_info)}"
    and mb: "addrs mb = {0..<1024 * 1024}"
  shows "\<Union> (whole_frames ` {e \<in> set es. me_type e = Available}) - \<Union> (touched ` set (reserved @ [k, b, mb]))
    = usable_frames syms boot_info areas reserved" (is "?L = ?R")
proof (rule set_eqI)
  fix n :: nat
  let ?X = "{4096 * n..<4096 * n + 4096}"
  have m: "regions_ok (map area_entry areas)" "areas_ok reserved" "list_all area_ok areas" using mem by (auto simp: memory_ok_def)
  have ok1: "regions_ok es1" using mark_rounds_marked [OF r1 m(1,2)] by (simp add: marked_def)
  have clean: "(\<forall>e \<in> set (reserved @ [k, b, mb]). n \<notin> touched e) \<longleftrightarrow>
      (\<forall>x \<in> ?X. (\<forall>e \<in> set reserved. x \<notin> addrs e) \<and> x \<notin> addrs k \<and> x \<notin> addrs b \<and> x \<notin> addrs mb)"
    unfolding touched_def by auto
  have avail: "(\<exists>e \<in> set es. me_type e = Available \<and> n \<in> whole_frames e) \<longleftrightarrow>
      (\<exists>a \<in> set areas. ar_typ a = MbAvailable \<and> ?X \<subseteq> {unat (ar_start a)..<unat (ar_start a) + unat (ar_size a)})"
    if "\<forall>e \<in> set (reserved @ [k, b, mb]). n \<notin> touched e"
  proof -
    have "(\<exists>e \<in> set es. me_type e = Available \<and> n \<in> whole_frames e) \<longleftrightarrow> (\<exists>e \<in> set es1. me_type e = Available \<and> n \<in> whole_frames e)"
      using mark_rounds_frames [OF r2 ok1, of n] k(1) that by simp
    also have "\<dots> \<longleftrightarrow> (\<exists>r \<in> set (map area_entry areas). me_type r = Available \<and> n \<in> whole_frames r)"
      using mark_rounds_frames [OF r1 m(1,2), of n] that by simp
    also have "\<dots> \<longleftrightarrow> (\<exists>a \<in> set areas. ar_typ a = MbAvailable \<and> unat (ar_start a) \<le> 4096 * n \<and> 4096 * n + 4096 \<le> unat (ar_start a) + unat (ar_size a))"
      using m(3) by (auto simp: whole_frames_iff list_all_iff)
    finally show ?thesis by (simp add: ivl_subset)
  qed
  have "n \<in> ?L \<longleftrightarrow> (\<forall>e \<in> set (reserved @ [k, b, mb]). n \<notin> touched e) \<and> (\<exists>e \<in> set es. me_type e = Available \<and> n \<in> whole_frames e)"
    by blast
  also have "\<dots> \<longleftrightarrow> (\<forall>e \<in> set (reserved @ [k, b, mb]). n \<notin> touched e)
      \<and> (\<exists>a \<in> set areas. ar_typ a = MbAvailable \<and> ?X \<subseteq> {unat (ar_start a)..<unat (ar_start a) + unat (ar_size a)})"
    using avail by (rule conj_cong [OF refl])
  also have "\<dots> \<longleftrightarrow> n \<in> ?R" unfolding clean k(2) b mb usable_frames_def mem_Collect_eq by (rule conj_commute)
  finally show "n \<in> ?L \<longleftrightarrow> n \<in> ?R" .
qed

text \<open>The map at the end of \<^verbatim>\<open>init\<close>, and the allocator made from it.\<close>

lemma regions_ok_without_first:
  assumes "regions_ok (as @ c # bs)" "list_all supported (as @ c # bs)" "used \<le> room c" "0 < room c"
  shows "regions_ok (as @ without_first used c # bs)" "list_all supported (as @ without_first used c # bs)"
proof -
  have c: "supported c" using assms(2) by simp
  note w = without_first_range [OF c assms(3,4)]
  show "list_all supported (as @ without_first used c # bs)" using assms(2) w(2) by simp
  show "regions_ok (as @ without_first used c # bs)"
    using assms(1) supportedD(4) [OF w(2)] w(4,7) by (auto simp: regions_ok_append intro: order_trans)
qed

lemma init_allocator_ok:
  assumes m: "from_entries (as @ without_first used c # bs) = ret m" and es: "list_all supported (as @ c # bs)" "regions_ok (as @ c # bs)" "length (as @ c # bs) \<le> 128"
    and c: "chosen need as c" "used \<le> need" "round_up 8 (first_frame c + need) \<le> round_down 8 (end_frame c)"
    and exact: "\<forall>e \<in> set (as @ bs). me_type e = Available \<longrightarrow> exact_entry e"
    and len: "length bm = unat MAX_MEMORY_FRAMES div 8" and xs: "\<forall>e \<in> set xs. valid_extent e \<and> hi e \<le> 2 ^ 37"
  shows "\<exists>bm' a. fill_bitmap_from_map bm m = ret bm' \<and> reserve_extents (bitmap_new bm') xs = ret a \<and> bitmap_inv a \<and> known_frames a = {..<2 ^ 25}
    \<and> free_frames a = \<Union> (whole_frames ` {e \<in> set (as @ c # bs). me_type e = Available}) - \<Union> (touched ` set xs) - {first_frame c..<first_frame c + used}"
proof -
  have c': "supported c" "me_type c = Available" "2 ^ 20 \<le> r_lo c" "need \<le> room c" "used \<le> room c" "0 < room c"
    using c(1,2) es(1) by (auto simp: chosen_def)
  note ok = regions_ok_without_first [OF es(2,1) c'(5,6)]
  have "exact_entry (without_first used c)" by (rule without_first_exact [OF c'(1) c(2) c'(4,6,3) c(3)])
  then have "\<forall>e \<in> set (as @ without_first used c # bs). me_type e = Available \<longrightarrow> exact_entry e" using exact by auto
  from fill_and_reserve_ok [OF m ok(2,1) _ _ this len xs] es(3) obtain bm' a where a: "fill_bitmap_from_map bm m = ret bm'"
    "reserve_extents (bitmap_new bm') xs = ret a" "bitmap_inv a" "known_frames a = {..<2 ^ 25}"
    "free_frames a = \<Union> (whole_frames ` {e \<in> set (as @ without_first used c # bs). me_type e = Available}) - \<Union> (touched ` set xs)" by auto
  then show ?thesis unfolding available_without_first [OF es(2) c'(1,5,6,2)] by blast
qed

text \<open>The stages up to the page tables: the two maps, the frames set aside, and the checks on them.\<close>

lemma init_maps_ok:
  assumes MK: "marker_law MK" and mem: "memory_ok boot_info areas reserved" and k: "valid_extent k"
    and marked: "mark_rounds (map area_entry areas) reserved es1" "mark_rounds es1 [k] es"
  shows "list_all supported es" "regions_ok es" "length es \<le> 128"
    "mark_kernel_areas MK (length (map area_entry areas) + 2 * length reserved + 2) (map area_entry areas) reserved = ret es1"
    "mark_kernel_areas MK (length es1 + 4) es1 [k] = ret es"
    "\<exists>m. translate_memory_map boot_info = ret m \<and> from_entries (map area_entry areas) = ret m" "\<exists>m. from_entries es = ret m"
proof -
  have m: "bi_memory_areas boot_info = Some areas" "list_all area_ok areas" "regions_ok (map area_entry areas)"
    "list_all supported (map area_entry areas)" "areas_ok reserved" "length areas + length reserved \<le> 31" using mem by (auto simp: memory_ok_def)
  note s1 = mark_rounds_supported [OF marked(1) m(3,5,4)]
  have ks: "areas_ok [k]" using k by simp
  note s2 = mark_rounds_supported [OF marked(2) s1(2) ks s1(1)]
  have len: "length es \<le> 128" "length areas \<le> 128" using s1(3) s2(3) m(6) by simp_all
  show "list_all supported es" "regions_ok es" "length es \<le> 128" by (fact s2 len)+
  show "mark_kernel_areas MK (length (map area_entry areas) + 2 * length reserved + 2) (map area_entry areas) reserved = ret es1"
    by (rule mark_kernel_areas_eq [OF MK marked(1) m(3,5)]) simp
  show "mark_kernel_areas MK (length es1 + 4) es1 [k] = ret es" by (rule mark_kernel_areas_eq [OF MK marked(2) s1(2) ks]) simp
  show "\<exists>m. translate_memory_map boot_info = ret m \<and> from_entries (map area_entry areas) = ret m" by (rule translate_ok [OF m(1,2) len(2)])
  show "\<exists>m. from_entries es = ret m" using len(1) by (simp add: from_entries_eq)
qed

text \<open>The stages from the choice of the frames to the map they leave.\<close>

lemma init_tables_ok:
  assumes FL: "flags_law FL" and img: "image_ok syms root_ptr" and k: "get_kernel_phys_extent syms = ret k"
    and m1: "from_entries (as @ c # bs) = ret m1" and es: "list_all supported (as @ c # bs)" "regions_ok (as @ c # bs)" "length (as @ c # bs) \<le> 128"
    and orig: "map_entries m0 = ret orig" "list_all supported orig"
    and ss: "bi_elf_sections boot_info = Some ss" "\<forall>s \<in> set ss. section_ok s" and mem: "\<forall>v. length (pt_entries (memory v)) = 512"
    and plan: "plan_ok syms (template_mappings orig ss) as c bs" and used: "used = card (tables_for (template_mappings orig ss))"
  obtains fs m2 mp m3 where "take_init_frames m1 = ret (length as, fs, m2)" "check_init_frames syms fs = ret ()"
    "create_page_table_template FL syms boot_info m0 bump_allocate first_gb_translator memory (bump_new fs) = ret mp"
    "\<forall>q. lookup_page first_gb_translator mp q = entry_after (template_mappings orig ss) q None"
    "restore_init_frames m2 (length as) (bump_unwrap (mp_frames mp)) = ret m3" "from_entries (as @ without_first used c # bs) = ret m3"
proof -
  define need where "need = total_frames (as @ c # bs) div 256"
  have i: "KERNEL_PHYS_BEGIN_SYM syms < KERNEL_PHYS_END_SYM syms" "KERNEL_VIRT_BASE syms = 0xffffffff80000000" using img by (auto simp: image_ok_def)
  have p: "chosen need as c" "first_frame c + need \<le> 2 ^ 18" "unat (KERNEL_PHYS_END_SYM syms) \<le> 4096 * first_frame c" "used \<le> need"
    using plan by (auto simp: plan_ok_def Let_def need_def used)
  have ke: "valid_extent k" "hi k = unat (KERNEL_PHYS_END_SYM syms)" by (rule kernel_extent_ok [OF i(1)]; use k in simp)+
  have c: "supported c" "need \<le> room c" "0 < need" using p(1) es(1) by (auto simp: chosen_def)
  obtain m2 where m2: "take_init_frames m1 = ret (length as, frame_range_at (first_frame c) need, m2)" "from_entries (as @ without_first need c # bs) = ret m2"
    using take_init_frames_ok [OF m1 es need_def p(1)] by blast
  have chk: "check_init_frames syms (frame_range_at (first_frame c) need) = ret ()"
    by (rule check_init_frames_ok [OF c(3) p(2) k ke(1)]) (simp add: ke(2) p(3))
  have pos: "0 < first_frame c" using p(3) i(1) by (cases "first_frame c") (auto simp: word_less_nat_alt)
  obtain mp where mp: "create_page_table_template FL syms boot_info m0 bump_allocate first_gb_translator memory (bump_new (frame_range_at (first_frame c) need)) = ret mp"
    "\<forall>q. lookup_page first_gb_translator mp q = entry_after (template_mappings orig ss) q None"
    "bump_upto (first_frame c + need) (mp_frames mp)" "card (bump_frames (mp_frames mp)) = need - used"
    using init_template_ok [OF FL i(2) orig ss mem pos c(3) p(2) p(4) [unfolded used]] by (auto simp: runs_iff used)
  obtain m3 where "restore_init_frames m2 (length as) (bump_unwrap (mp_frames mp)) = ret m3" "from_entries (as @ without_first used c # bs) = ret m3"
    using restore_init_frames_ok [OF m2(2) c(1-3) mp(3,4) p(4)] by blast
  then show ?thesis by (rule that [OF m2(1) chk mp(1,2)])
qed

lemma install_ok:
  assumes "image_ok syms root_ptr" "cr3_law cr3_frame"
  shows "set_up_initial_page_table syms cr3_frame root_ptr t st = ret (st\<lparr>km_init_page_table := t, km_cr3 := Some (root_ptr - KERNEL_VIRT_BASE syms)\<rparr>)"
proof -
  let ?p = "root_ptr - KERNEL_VIRT_BASE syms"
  have i: "KERNEL_VIRT_BASE syms = 0xffffffff80000000" "KERNEL_VIRT_BASE syms \<le> root_ptr" "4096 dvd unat root_ptr" using assms(1) by (auto simp: image_ok_def)
  have u: "unat ?p = unat root_ptr - 0xffffffff80000000" using unat_sub_exact [of "KERNEL_VIRT_BASE syms" root_ptr] i(1,2) by (simp add: word_le_nat_alt)
  moreover have "4096 dvd unat root_ptr - 0xffffffff80000000" using i(3) by (intro dvd_diff_nat) simp_all
  moreover have "unat root_ptr - 0xffffffff80000000 < 2 ^ 52"
    by (rule le_less_trans [OF diff_le_mono [OF less_imp_le [OF unat_u64_less]]]) simp
  ultimately have "cr3_frame ?p = ret ?p" using assms(2) by (simp add: cr3_law_def)
  moreover have "kernel_ptr_to_phys_addr syms root_ptr = ret (Address ?p)"
    using i(2) by (simp add: kernel_ptr_to_phys_addr_def get_kernel_virt_base_def nat_view a_nat_Address word_le_nat_alt address_sub_def checked_sub_def from_zero_def)
  ultimately show ?thesis by (simp add: set_up_initial_page_table_def install_page_table_def)
qed

lemma mm_init_ok:
  assumes laws: "marker_law MK" "flags_law FL" "cr3_law cr3_frame"
    and st: "fresh_mm st" and img: "image_ok syms root_ptr" and mem: "memory_ok boot_info areas reserved"
    and ss: "bi_elf_sections boot_info = Some ss" "\<forall>s \<in> set ss. section_ok s"
    and marked: "get_kernel_phys_extent syms = ret k" "mark_rounds (map area_entry areas) reserved es1" "mark_rounds es1 [k] (as @ c # bs)"
    and plan: "plan_ok syms (template_mappings (map area_entry areas) ss) as c bs"
  shows "runs (mm_init MK FL syms cr3_frame root_ptr boot_info reserved st) (\<lambda>st'.
    (\<exists>a. km_frame_allocator st' = Some a \<and> bitmap_inv a \<and> known_frames a = {..<2 ^ 25}
      \<and> free_frames a = usable_frames syms boot_info areas reserved
          - {first_frame c..<first_frame c + card (tables_for (template_mappings (map area_entry areas) ss))})
    \<and> (\<forall>q. lookup_page first_gb_translator \<lparr>mp_level_4 = km_init_page_table st', mp_memory = km_tables st', mp_frames = ()\<rparr> q
        = entry_after (template_mappings (map area_entry areas) ss) q None)
    \<and> km_cr3 st' = Some (root_ptr - KERNEL_VIRT_BASE syms)
    \<and> mm_init MK FL syms cr3_frame root_ptr boot_info reserved st' = throw AssertFailed)"
proof -
  let ?orig = "map area_entry areas" and ?es = "as @ c # bs" and ?M = "template_mappings (map area_entry areas) ss"
  define used where "used = card (tables_for ?M)"
  have i: "KERNEL_PHYS_BEGIN_SYM syms < KERNEL_PHYS_END_SYM syms" "unat (KERNEL_PHYS_END_SYM syms) \<le> 2 ^ 37" using img by (auto simp: image_ok_def)
  have p: "chosen (total_frames ?es div 256) as c" "used \<le> total_frames ?es div 256"
    "round_up 8 (first_frame c + total_frames ?es div 256) \<le> round_down 8 (end_frame c)" "\<forall>e \<in> set (as @ bs). me_type e = Available \<longrightarrow> exact_entry e"
    using plan by (auto simp: plan_ok_def Let_def used_def)
  have k: "valid_extent k" "addrs k = {unat (KERNEL_PHYS_BEGIN_SYM syms)..<unat (KERNEL_PHYS_END_SYM syms)}" "hi k = unat (KERNEL_PHYS_END_SYM syms)"
    by (rule kernel_extent_ok [OF i(1)]; use marked(1) in simp)+
  have s: "\<not> km_initialized st" "km_frame_allocator st = None" "length (km_frame_bitmap st) = unat MAX_MEMORY_FRAMES div 8"
    "\<forall>v. length (pt_entries (km_tables st v)) = 512" and orig: "list_all supported ?orig" using st mem by (auto simp: fresh_mm_def memory_ok_def)
  note es = init_maps_ok [OF laws(1) mem k(1) marked(2,3)]
  obtain m0 m1 where m0: "translate_memory_map boot_info = ret m0" "from_entries ?orig = ret m0" and m1: "from_entries ?es = ret m1"
    using es(6,7) by blast
  obtain fs m2 mp m3 where t: "take_init_frames m1 = ret (length as, fs, m2)" "check_init_frames syms fs = ret ()"
    "create_page_table_template FL syms boot_info m0 bump_allocate first_gb_translator (km_tables st) (bump_new fs) = ret mp"
    "\<forall>q. lookup_page first_gb_translator mp q = entry_after ?M q None"
    "restore_init_frames m2 (length as) (bump_unwrap (mp_frames mp)) = ret m3" "from_entries (as @ without_first used c # bs) = ret m3"
    by (rule init_tables_ok [OF laws(2) img marked(1) m1 es(1-3) from_entries_entries [OF m0(2)] orig ss s(4) plan used_def])
  obtain b mb :: phys_extent where b: "extent_from_raw (bi_start boot_info) (bi_total_size boot_info) = ret b" "extent_from_raw 0 (1024 * 1024) = ret mb"
    "valid_extent b" "addrs b = {unat (bi_start boot_info)..<unat (bi_start boot_info) + unat (bi_total_size boot_info)}" "hi b \<le> 2 ^ 37"
    "valid_extent mb" "addrs mb = {0..<1024 * 1024}" "hi mb \<le> 2 ^ 37" by (rule own_extents_ok [OF mem])
  have xs: "\<forall>e \<in> set (reserved @ [k, b, mb]). valid_extent e \<and> hi e \<le> 2 ^ 37"
    using mem k i(2) b by (auto simp: memory_ok_def areas_ok_def list_all_iff)
  obtain bm a where a: "fill_bitmap_from_map (km_frame_bitmap st) m3 = ret bm" "reserve_extents (bitmap_new bm) (reserved @ [k, b, mb]) = ret a"
    "bitmap_inv a" "known_frames a = {..<2 ^ 25}" "free_frames a = usable_frames syms boot_info areas reserved - {first_frame c..<first_frame c + used}"
    using init_allocator_ok [OF t(6) es(1-3) p s(3) xs] unfolding usable_frames_eq [OF mem marked(2,3) k(1,2) b(4,7)] by blast
  let ?st' = "st\<lparr>km_initialized := True, km_tables := mp_memory mp, km_frame_bitmap := bm, km_frame_allocator := Some a,
    km_init_page_table := mp_level_4 mp, km_cr3 := Some (root_ptr - KERNEL_VIRT_BASE syms)\<rparr>"
  have "mm_init MK FL syms cr3_frame root_ptr boot_info reserved st = ret ?st'"
    unfolding mm_init_def Let_def using s(1,2) marked(1) m0(1) es(4,5) m1 t(1-3,5) a(1,2) b(1,2) from_entries_entries [OF m0(2)]
    by (simp add: install_ok [OF img laws(3)])
  moreover have "mm_init MK FL syms cr3_frame root_ptr boot_info reserved ?st' = throw AssertFailed" by (simp add: mm_init_def)
  ultimately show ?thesis using a(3-5) t(4) by (simp add: lookup_page_frames used_def)
qed

section \<open>Properties\<close>


text \<open>A machine with 32 MiB, a kernel at 1 MiB and a module at 3 MiB.\<close>

abbreviation small_piece :: "memory_type \<Rightarrow> nat \<Rightarrow> nat \<Rightarrow> map_entry" where
  "small_piece ty u v \<equiv> \<lparr>me_extent = extent_of u (v - u), me_type = ty\<rparr>"

lemma small_machine_marked:
  "mark_rounds [small_piece Available 0 0x2000000] [extent_of 0x300000 0x2000]
    [small_piece Available 0 0x300000, small_piece KernelLoad 0x300000 0x302000, small_piece Available 0x302000 0x2000000]"
  "mark_rounds [small_piece Available 0 0x300000, small_piece KernelLoad 0x300000 0x302000, small_piece Available 0x302000 0x2000000]
    [extent_of 0x100000 0x100000] ([small_piece Available 0 0x100000, small_piece KernelLoad 0x100000 0x200000] @ small_piece Available 0x200000 0x300000
      # [small_piece KernelLoad 0x300000 0x302000, small_piece Available 0x302000 0x2000000])"
proof -
  note [simp] = mark_round_def markable_def piece_def r_lo_def r_hi_def
  let ?k = "extent_of 0x300000 0x2000" and ?A = "small_piece Available" and ?K = "small_piece KernelLoad"
  have 1: "mark_rounds [?A 0x302000 0x2000000] [?k] ([?A 0x302000 0x2000000] @ [])" by (rule rounds_step [OF _ rounds_done]) simp
  have 2: "mark_rounds [?A 0 0x2000000] [?k] ([?A 0 0x300000, ?K 0x300000 0x302000] @ [?A 0x302000 0x2000000] @ [])"
    by (rule rounds_step [OF _ 1]) simp
  then show "mark_rounds [?A 0 0x2000000] [?k] [?A 0 0x300000, ?K 0x300000 0x302000, ?A 0x302000 0x2000000]" by simp
  let ?k = "extent_of 0x100000 0x100000"
  have 1: "mark_rounds [?A 0x302000 0x2000000] [] ([?A 0x302000 0x2000000] @ [])" by (rule rounds_step [OF _ rounds_done]) simp
  have 2: "mark_rounds [?K 0x300000 0x302000, ?A 0x302000 0x2000000] [] ([?K 0x300000 0x302000] @ [?A 0x302000 0x2000000] @ [])"
    by (rule rounds_step [OF _ 1]) simp
  have 3: "mark_rounds [?A 0x200000 0x300000, ?K 0x300000 0x302000, ?A 0x302000 0x2000000] [?k]
      ([?A 0x200000 0x300000] @ [?K 0x300000 0x302000] @ [?A 0x302000 0x2000000] @ [])" by (rule rounds_step [OF _ 2]) simp
  have 4: "mark_rounds [?A 0 0x300000, ?K 0x300000 0x302000, ?A 0x302000 0x2000000] [?k]
      ([?A 0 0x100000, ?K 0x100000 0x200000] @ [?A 0x200000 0x300000] @ [?K 0x300000 0x302000] @ [?A 0x302000 0x2000000] @ [])"
    by (rule rounds_step [OF _ 3]) simp
  then show "mark_rounds [?A 0 0x300000, ?K 0x300000 0x302000, ?A 0x302000 0x2000000] [?k]
      ([?A 0 0x100000, ?K 0x100000 0x200000] @ ?A 0x200000 0x300000 # [?K 0x300000 0x302000, ?A 0x302000 0x2000000])" by simp
qed

lemma small_machine_plan:
  assumes "card (tables_for M) \<le> 32" "KERNEL_PHYS_END_SYM syms = 0x200000"
  shows "plan_ok syms M [small_piece Available 0 0x100000, small_piece KernelLoad 0x100000 0x200000] (small_piece Available 0x200000 0x300000)
    [small_piece KernelLoad 0x300000 0x302000, small_piece Available 0x302000 0x2000000]"
proof -
  let ?as = "[small_piece Available 0 0x100000, small_piece KernelLoad 0x100000 0x200000]" and ?c = "small_piece Available 0x200000 0x300000"
    and ?bs = "[small_piece KernelLoad 0x300000 0x302000, small_piece Available 0x302000 0x2000000]"
  have need: "total_frames (?as @ ?c # ?bs) div 256 = 32" by (simp add: total_frames_def touched_eq valid_extent_def)
  note [simp] = first_frame_def end_frame_def room_def r_lo_def r_hi_def round_up_def round_down_def
  have "chosen 32 ?as ?c" by (simp add: chosen_def)
  moreover have "\<forall>e \<in> set (?as @ ?bs). me_type e = Available \<longrightarrow> exact_entry e" by (simp add: exact_entry_def exact_range_def)
  ultimately show ?thesis using assms unfolding plan_ok_def Let_def need by simp
qed

definition small_syms :: linker_symbols where
  "small_syms = \<lparr>KERNEL_PHYS_BEGIN_SYM = 0x100000, KERNEL_PHYS_END_SYM = 0x200000, KERNEL_VIRT_BASE = 0xffffffff80000000\<rparr>"

definition small_areas :: "mb2_area list" where
  "small_areas = [\<lparr>ar_start = 0, ar_size = 0x2000000, ar_typ = MbAvailable\<rparr>]"

definition small_info :: boot_information where
  "small_info = \<lparr>bi_start = 0x9000, bi_total_size = 0x800, bi_memory_areas = Some small_areas, bi_elf_sections = Some []\<rparr>"

definition small_mm :: kernel_mm where
  "small_mm = \<lparr>km_initialized = False, km_frame_allocator = None, km_frame_bitmap = replicate 4194304 0,
     km_tables = (\<lambda>_. page_table_zero), km_init_page_table = page_table_zero, km_cr3 = None\<rparr>"

lemma small_machine_entries: "map area_entry small_areas = [small_piece Available 0 0x2000000]"
  by (simp add: small_areas_def area_entry_def area_type_def extent_of_def addr_of_def mlen_of_def)

lemma small_machine_ok:
  "cr3_law ret" "fresh_mm small_mm" "image_ok small_syms 0xffffffff80180000" "memory_ok small_info small_areas [extent_of 0x300000 0x2000]"
  "get_kernel_phys_extent small_syms = ret (extent_of 0x100000 0x100000)" "bi_elf_sections small_info = Some []"
proof -
  show "cr3_law ret" by (simp add: cr3_law_def)
  show "fresh_mm small_mm" by (simp add: small_mm_def fresh_mm_def unat_MAX_MEMORY_FRAMES page_table_zero_def)
  show "image_ok small_syms 0xffffffff80180000" by (simp add: image_ok_def small_syms_def)
  have v: "valid_extent (extent_of 0 0x2000000 :: phys_extent)" "valid_extent (extent_of 0x300000 0x2000 :: phys_extent)" by (simp_all add: valid_extent_def)
  have "list_all area_ok small_areas" by (simp add: small_areas_def area_ok_def)
  then show "memory_ok small_info small_areas [extent_of 0x300000 0x2000]"
    unfolding memory_ok_def using v by (simp add: small_machine_entries supported_def r_hi_def small_info_def) (simp add: small_areas_def)
  show "get_kernel_phys_extent small_syms = ret (extent_of 0x100000 0x100000)"
    by (simp add: small_syms_def get_kernel_phys_extent_def from_raw_range_exclusive_def from_range_exclusive_def u_sub_def checked_sub_def
        extent_of_def addr_of_def mlen_of_def)
  show "bi_elf_sections small_info = Some []" by (simp add: small_info_def)
qed

lemma small_machine_tables: "card (tables_for (template_mappings (map area_entry small_areas) [])) \<le> 32"
proof -
  have "valid_extent (extent_of 0 0x2000000 :: phys_extent)" by (simp add: valid_extent_def)
  then have "card (tables_for (template_mappings (map area_entry small_areas) [])) \<le> template_tables 8192 2048"
    by (intro card_template_tables) (simp_all add: small_machine_entries sections_below_def)
  also have "\<dots> \<le> 32" by (simp add: template_tables_def)
  finally show ?thesis .
qed

lemma small_machine_plan_ok:
  "plan_ok small_syms (template_mappings (map area_entry small_areas) []) [small_piece Available 0 0x100000, small_piece KernelLoad 0x100000 0x200000]
    (small_piece Available 0x200000 0x300000) [small_piece KernelLoad 0x300000 0x302000, small_piece Available 0x302000 0x2000000]"
  by (rule small_machine_plan [OF small_machine_tables]) (simp add: small_syms_def)

lemma small_machine_first_frame: "first_frame \<lparr>me_extent = extent_of 0x200000 0x100000, me_type = Available\<rparr> = 512"
  by (simp add: first_frame_def r_lo_def round_up_def round_down_def)

lemma small_machine_usable:
  "n \<in> {600..<604} \<Longrightarrow> n \<in> usable_frames small_syms small_info small_areas [extent_of 0x300000 0x2000]"
  "0x180 \<notin> usable_frames small_syms small_info small_areas [extent_of 0x300000 0x2000]"
  "0x301 \<notin> usable_frames small_syms small_info small_areas [extent_of 0x300000 0x2000]"
  by (auto simp: usable_frames_def addrs_def small_syms_def small_info_def small_areas_def)


end
