(* ===== verification/Sched.thy ===== *)
theory Sched
  imports Kernel_MM
begin

text \<open>
  \<^verbatim>\<open>src/sched.rs\<close>: kernel tasks, the ready list, and the context switch.

  The memory the scheduler works on is typed: task descriptors by their address and machine words by
  theirs. The assembly functions work on a record of the registers they touch, and a transfer of control is
  the address jumped to with the registers it happens with. The addresses of the functions whose address
  the code takes are an argument (\<open>code_addrs\<close>), as is \<^verbatim>\<open>size_of::<Task>()\<close>, which Rust leaves to the compiler.
  Mutexes and \<^verbatim>\<open>without_interrupts\<close> are left out: the kernel has one processor, and no function holds a lock when it
  transfers control.
\<close>

section \<open>Model\<close>

subsection \<open>State\<close>

type_synonym task_ptr = usize

record task =
  stack_frames :: owned_frame_range
  rsp :: "usize option"
  prev_in_list :: "task_ptr option"
  next_in_list :: "task_ptr option"

record scheduler =
  ready_list_head :: "task_ptr option"

record sched_state =
  CURRENT_TASK :: "task_ptr option"
  IDLE_TASK :: "task_ptr option"
  SCHEDULER :: "scheduler option"
  task_memory :: "task_ptr \<Rightarrow> task option"
  word_memory :: "usize \<Rightarrow> usize"
  frame_allocator_cell :: frame_cell

text \<open>The registers of the assembly code, and where it jumps.\<close>

record regs =
  r_rsp :: usize
  r_rax :: usize
  r_rdi :: usize
  r_rbp :: usize
  r_rbx :: usize
  r_r12 :: usize
  r_r13 :: usize
  r_r14 :: usize
  r_r15 :: usize
  r_flags :: usize

record code_addrs =
  ca_clean_quit_task :: usize
  ca_restore_task_state :: usize
  ca_task_init_trampoline :: usize
  ca_kernel_main_init_fn :: usize
  ca_idle_task_fn :: usize

type_synonym jump = "usize \<times> regs"

text \<open>Access through a \<^verbatim>\<open>TaskPtr\<close>; \<^verbatim>\<open>NonZeroUsize::new\<close>.\<close>

definition deref :: "sched_state \<Rightarrow> task_ptr \<Rightarrow> task rust" where
  "deref st p = (case task_memory st p of None \<Rightarrow> throw BadPointer | Some t \<Rightarrow> ret t)"

definition put_task :: "sched_state \<Rightarrow> task_ptr \<Rightarrow> task \<Rightarrow> sched_state" where
  "put_task st p t = st\<lparr>task_memory := (task_memory st)(p \<mapsto> t)\<rparr>"

definition put_word :: "sched_state \<Rightarrow> usize \<Rightarrow> usize \<Rightarrow> sched_state" where
  "put_word st p w = st\<lparr>word_memory := (word_memory st)(p := w)\<rparr>"

definition non_zero :: "usize \<Rightarrow> usize option" where
  "non_zero n = (if n = 0 then None else Some n)"

text \<open>\<^verbatim>\<open>task.rsp.take().unwrap().get()\<close>\<close>

definition take_rsp :: "sched_state \<Rightarrow> task_ptr \<Rightarrow> (usize \<times> sched_state) rust" where
  "take_rsp st p =
     bnd (deref st p) (\<lambda>t.
     bnd (unwrap (rsp t)) (\<lambda>r.
     ret (r, put_task st p (t\<lparr>rsp := None\<rparr>))))"

subsection \<open>The stack writer\<close>

record stack_writer =
  sw_ptr :: usize

definition stack_writer_new :: "usize \<Rightarrow> stack_writer" where
  "stack_writer_new ptr = \<lparr>sw_ptr = ptr\<rparr>"

text \<open>\<open>put\<close> is \<^verbatim>\<open>write_unaligned\<close> of the value at an address, \<open>sz\<close> the value's size.\<close>

definition stack_writer_push ::
  "usize \<Rightarrow> (sched_state \<Rightarrow> usize \<Rightarrow> sched_state) \<Rightarrow> stack_writer \<Rightarrow> sched_state
    \<Rightarrow> (usize \<times> stack_writer \<times> sched_state) rust" where
  "stack_writer_push sz put self st =
     bnd (rassert (sz \<noteq> 0)) (\<lambda>_.
     let val_ptr = sw_ptr self - sz; st = put st val_ptr in
     ret (val_ptr, self\<lparr>sw_ptr := val_ptr\<rparr>, st))"

definition into_ptr :: "stack_writer \<Rightarrow> usize" where
  "into_ptr self = sw_ptr self"

subsection \<open>The ready list\<close>

definition pop_next_ready_task :: "sched_state \<Rightarrow> (task_ptr \<times> sched_state) rust" where
  "pop_next_ready_task st =
     bnd (unwrap (SCHEDULER st)) (\<lambda>scheduler.
     case ready_list_head scheduler of
       Some list_head \<Rightarrow>
         bnd (deref st list_head) (\<lambda>head_task.
         ret (list_head, put_task (st\<lparr>SCHEDULER := Some (scheduler\<lparr>ready_list_head := next_in_list head_task\<rparr>)\<rparr>)
           list_head (head_task\<lparr>next_in_list := None, prev_in_list := None\<rparr>)))
     | None \<Rightarrow> bnd (unwrap (IDLE_TASK st)) (\<lambda>t. ret (t, st)))"

text \<open>The loop to the end of the list, which would not end on a cyclic one; the first argument bounds it.\<close>

primrec list_tail :: "nat \<Rightarrow> sched_state \<Rightarrow> task_ptr \<Rightarrow> task_ptr rust" where
  "list_tail 0 st p = throw Diverges"
| "list_tail (Suc fuel) st p =
     bnd (deref st p) (\<lambda>t.
     case next_in_list t of None \<Rightarrow> ret p | Some n \<Rightarrow> list_tail fuel st n)"

definition add_task_to_ready_list :: "nat \<Rightarrow> sched_state \<Rightarrow> task_ptr \<Rightarrow> sched_state rust" where
  "add_task_to_ready_list fuel st task =
     bnd (unwrap (SCHEDULER st)) (\<lambda>scheduler.
     case ready_list_head scheduler of
       Some h \<Rightarrow>
         bnd (list_tail fuel st h) (\<lambda>tail.
         bnd (deref st task) (\<lambda>t.
         let st = put_task st task (t\<lparr>prev_in_list := Some tail\<rparr>) in
         bnd (deref st tail) (\<lambda>tt.
         ret (put_task st tail (tt\<lparr>next_in_list := Some task\<rparr>)))))
     | None \<Rightarrow> ret (st\<lparr>SCHEDULER := Some (scheduler\<lparr>ready_list_head := Some task\<rparr>)\<rparr>))"

subsection \<open>The context switch\<close>

definition asm_push :: "sched_state \<Rightarrow> regs \<Rightarrow> usize \<Rightarrow> sched_state \<times> regs" where
  "asm_push st r w = (put_word st (r_rsp r - 8) w, r\<lparr>r_rsp := r_rsp r - 8\<rparr>)"

definition asm_pop :: "sched_state \<Rightarrow> regs \<Rightarrow> usize \<times> regs" where
  "asm_pop st r = (word_memory st (r_rsp r), r\<lparr>r_rsp := r_rsp r + 8\<rparr>)"

definition asm_ret :: "sched_state \<Rightarrow> regs \<Rightarrow> jump" where
  "asm_ret st r = asm_pop st r"

text \<open>
  \<^verbatim>\<open>switch_to\<close>, entered with the return address on the stack. \<open>prev\<close> is the task whose \<^verbatim>\<open>rsp\<close> field \<^verbatim>\<open>prev_rsp\<close> points to.
\<close>

definition switch_to :: "sched_state \<Rightarrow> regs \<Rightarrow> usize \<Rightarrow> task_ptr \<Rightarrow> usize \<Rightarrow> (sched_state \<times> jump) rust" where
  "switch_to st r next_rsp prev restore_fn =
     (let (st, r) = asm_push st r (r_flags r);
          (st, r) = asm_push st r (r_rbp r);
          (st, r) = asm_push st r (r_rbx r);
          (st, r) = asm_push st r (r_r12 r);
          (st, r) = asm_push st r (r_r13 r);
          (st, r) = asm_push st r (r_r14 r);
          (st, r) = asm_push st r (r_r15 r);
          (st, r) = asm_push st r restore_fn in
      bnd (if r_rax r = 0 then ret st
        else bnd (deref st prev) (\<lambda>t. ret (put_task st prev (t\<lparr>rsp := non_zero (r_rsp r)\<rparr>)))) (\<lambda>st.
      ret (st, asm_ret st (r\<lparr>r_rsp := next_rsp, r_rdi := next_rsp\<rparr>))))"

definition restore_task_state :: "sched_state \<Rightarrow> regs \<Rightarrow> jump" where
  "restore_task_state st r =
     (let (w, r) = asm_pop st r; r = r\<lparr>r_r15 := w\<rparr>;
          (w, r) = asm_pop st r; r = r\<lparr>r_r14 := w\<rparr>;
          (w, r) = asm_pop st r; r = r\<lparr>r_r13 := w\<rparr>;
          (w, r) = asm_pop st r; r = r\<lparr>r_r12 := w\<rparr>;
          (w, r) = asm_pop st r; r = r\<lparr>r_rbx := w\<rparr>;
          (w, r) = asm_pop st r; r = r\<lparr>r_rbp := w\<rparr>;
          (w, r) = asm_pop st r; r = r\<lparr>r_flags := w\<rparr> in
      asm_ret st r)"

definition task_init_trampoline :: "sched_state \<Rightarrow> regs \<Rightarrow> jump" where
  "task_init_trampoline st r = (let (w, r) = asm_pop st r in asm_ret st (r\<lparr>r_rdi := w\<rparr>))"

subsection \<open>Yielding and quitting\<close>

text \<open>The part of \<^verbatim>\<open>yield_current\<close> under the lock: the next and the previous task.\<close>

definition reschedule :: "nat \<Rightarrow> sched_state \<Rightarrow> (task_ptr \<times> task_ptr \<times> sched_state) rust" where
  "reschedule fuel st =
     bnd (unwrap (CURRENT_TASK st)) (\<lambda>prev_task.
     bnd (add_task_to_ready_list fuel (st\<lparr>CURRENT_TASK := None\<rparr>) prev_task) (\<lambda>st.
     bnd (pop_next_ready_task st) (\<lambda>(next_task, st).
     ret (next_task, prev_task, st\<lparr>CURRENT_TASK := Some next_task\<rparr>))))"

text \<open>\<^verbatim>\<open>yield_current\<close>: \<^verbatim>\<open>None\<close> is a plain return. \<open>r\<close> are the registers at the call of \<^verbatim>\<open>switch_to\<close>.\<close>

definition yield_current :: "code_addrs \<Rightarrow> nat \<Rightarrow> sched_state \<Rightarrow> regs \<Rightarrow> (sched_state \<times> jump option) rust" where
  "yield_current ca fuel st r =
     bnd (reschedule fuel st) (\<lambda>(next_task, prev_task, st).
     if next_task = prev_task then ret (st, None)
     else
       bnd (take_rsp st next_task) (\<lambda>(next_rsp, st).
       bnd (deref st prev_task) (\<lambda>_.
       bnd (switch_to st r next_rsp prev_task (ca_restore_task_state ca)) (\<lambda>(st, j).
       ret (st, Some j)))))"

definition quit_current :: "code_addrs \<Rightarrow> sched_state \<Rightarrow> regs \<Rightarrow> (sched_state \<times> jump) rust" where
  "quit_current ca st r =
     bnd (unwrap (CURRENT_TASK st)) (\<lambda>old_task.
     bnd (pop_next_ready_task (st\<lparr>CURRENT_TASK := None\<rparr>)) (\<lambda>(next_task, st).
     bnd (take_rsp st next_task) (\<lambda>(next_task_stack, st).
     bnd (stack_writer_push 8 (\<lambda>st p. put_word st p (ca_clean_quit_task ca)) (stack_writer_new next_task_stack) st) (\<lambda>(_, sw, st).
     let next_task_stack = into_ptr sw in
     ret (st, asm_ret st (r\<lparr>r_rax := next_task_stack, r_rdi := old_task, r_rsp := next_task_stack\<rparr>))))))"

text \<open>The value read from the old stack is dropped at the end, which frees the stack's frames.\<close>

definition clean_quit_task :: "sched_state \<Rightarrow> task_ptr \<Rightarrow> sched_state rust" where
  "clean_quit_task st task =
     bnd (deref st task) (\<lambda>t.
     bnd (rassert (next_in_list t = None)) (\<lambda>_.
     bnd (rassert (prev_in_list t = None)) (\<lambda>_.
     bnd (rassert (rsp t = None)) (\<lambda>_.
     bnd (drop_owned_frames (frame_allocator_cell st) (stack_frames t)) (\<lambda>cell.
     ret (st\<lparr>frame_allocator_cell := cell\<rparr>))))))"

subsection \<open>Creating tasks\<close>

definition STACK_FRAMES_ORDER :: nat where
  "STACK_FRAMES_ORDER = 2"

definition STACK_FRAMES :: usize where
  "STACK_FRAMES = push_bit STACK_FRAMES_ORDER 2"

definition STACK_LEN :: usize where
  "STACK_LEN = STACK_FRAMES * len_raw PAGE_SIZE"

definition create_task ::
  "code_addrs \<Rightarrow> usize \<Rightarrow> sched_state \<Rightarrow> usize \<Rightarrow> usize \<Rightarrow> (task_ptr \<times> sched_state) rust" where
  "create_task ca size_of_task st task_fn context =
     bnd (allocate_owned_frames (frame_allocator_cell st) 1) (\<lambda>(fs, cell).
     bnd (unwrap fs) (\<lambda>fs.
     let st = st\<lparr>frame_allocator_cell := cell\<rparr>;
         task = \<lparr>stack_frames = fs, rsp = None, prev_in_list = None, next_in_list = None\<rparr> in
     bnd (phys_to_virt (frame_start (fr_first (ofr_frames (stack_frames task))))) (\<lambda>stack_bottom.
     bnd (address_add stack_bottom (Length STACK_LEN)) (\<lambda>stack_top.
     bnd (stack_writer_push size_of_task (\<lambda>st p. put_task st p task) (stack_writer_new (addr_raw stack_top)) st) (\<lambda>(task_ptr, sw, st).
     bnd (stack_writer_push 8 (\<lambda>st p. put_word st p 0) sw st) (\<lambda>(_, sw, st).
     bnd (stack_writer_push 8 (\<lambda>st p. put_word st p task_fn) sw st) (\<lambda>(_, sw, st).
     bnd (stack_writer_push 8 (\<lambda>st p. put_word st p context) sw st) (\<lambda>(_, sw, st).
     bnd (stack_writer_push 8 (\<lambda>st p. put_word st p (ca_task_init_trampoline ca)) sw st) (\<lambda>(_, sw, st).
     bnd (deref st task_ptr) (\<lambda>t.
     let st = put_task st task_ptr (t\<lparr>rsp := non_zero (into_ptr sw)\<rparr>) in
     bnd (unwrap (non_zero task_ptr)) (\<lambda>p. ret (p, st))))))))))))"

text \<open>\<open>size_of_context\<close> is \<^verbatim>\<open>size_of_val(&context)\<close>.\<close>

definition create_task_typed ::
  "code_addrs \<Rightarrow> usize \<Rightarrow> usize \<Rightarrow> sched_state \<Rightarrow> usize \<Rightarrow> usize \<Rightarrow> (task_ptr \<times> sched_state) rust" where
  "create_task_typed ca size_of_task size_of_context st task_fn context =
     bnd (rassert (size_of_context = 8)) (\<lambda>_. create_task ca size_of_task st task_fn context)"

definition spawn_kthread ::
  "code_addrs \<Rightarrow> usize \<Rightarrow> nat \<Rightarrow> sched_state \<Rightarrow> usize \<Rightarrow> usize \<Rightarrow> sched_state rust" where
  "spawn_kthread ca size_of_task fuel st task_fn context =
     bnd (create_task ca size_of_task st task_fn context) (\<lambda>(task, st).
     add_task_to_ready_list fuel st task)"

definition init_kernel_main_thread ::
  "code_addrs \<Rightarrow> usize \<Rightarrow> sched_state \<Rightarrow> regs \<Rightarrow> usize \<Rightarrow> (sched_state \<times> jump) rust" where
  "init_kernel_main_thread ca size_of_task st r kernel_main =
     bnd (create_task_typed ca size_of_task 8 st (ca_kernel_main_init_fn ca) kernel_main) (\<lambda>(main_task, st).
     bnd (if CURRENT_TASK st \<noteq> None then throw Explicit else ret ()) (\<lambda>_.
     let st = st\<lparr>CURRENT_TASK := Some main_task, SCHEDULER := Some \<lparr>ready_list_head = None\<rparr>\<rparr> in
     bnd (take_rsp st main_task) (\<lambda>(stack_top, st).
     ret (st, asm_ret st (r\<lparr>r_rsp := stack_top\<rparr>)))))"

text \<open>\<^verbatim>\<open>kernel_main_init_fn\<close>, up to its call of \<^verbatim>\<open>kernel_main\<close>, the address returned.\<close>

definition kernel_main_init_fn ::
  "code_addrs \<Rightarrow> usize \<Rightarrow> sched_state \<Rightarrow> usize \<Rightarrow> (usize \<times> sched_state) rust" where
  "kernel_main_init_fn ca size_of_task st kernel_main =
     bnd (create_task ca size_of_task st (ca_idle_task_fn ca) 0) (\<lambda>(idle_task, st).
     ret (kernel_main, st\<lparr>IDLE_TASK := Some idle_task\<rparr>))"

section \<open>The ready list as a queue\<close>

text \<open>The list of tasks behind a link, as in the abstraction of linked lists on a heap.\<close>

fun chain :: "(task_ptr \<Rightarrow> task option) \<Rightarrow> task_ptr option \<Rightarrow> task_ptr list \<Rightarrow> bool" where
  "chain M p [] \<longleftrightarrow> p = None"
| "chain M p (x # xs) \<longleftrightarrow> p = Some x \<and> (\<exists>t. M x = Some t \<and> chain M (next_in_list t) xs)"

definition ready_queue_is :: "sched_state \<Rightarrow> task_ptr list \<Rightarrow> bool" where
  "ready_queue_is st xs \<longleftrightarrow> distinct xs \<and> (\<exists>s. SCHEDULER st = Some s \<and> chain (task_memory st) (ready_list_head s) xs)"

text \<open>A task that is in no list, and a change of links only.\<close>

definition unlinked :: "sched_state \<Rightarrow> task_ptr \<Rightarrow> bool" where
  "unlinked st p \<longleftrightarrow> (\<exists>t. task_memory st p = Some t \<and> next_in_list t = None)"

definition task_core :: "task \<Rightarrow> usize option \<times> owned_frame_range" where
  "task_core t = (rsp t, stack_frames t)"

definition same_but_links :: "sched_state \<Rightarrow> sched_state \<Rightarrow> bool" where
  "same_but_links st st' \<longleftrightarrow> (\<forall>p. map_option task_core (task_memory st' p) = map_option task_core (task_memory st p))
    \<and> word_memory st' = word_memory st \<and> CURRENT_TASK st' = CURRENT_TASK st \<and> IDLE_TASK st' = IDLE_TASK st
    \<and> frame_allocator_cell st' = frame_allocator_cell st"

lemma chain_other: "p \<notin> set xs \<Longrightarrow> chain (M(p := t)) q xs = chain M q xs"
  by (induction xs arbitrary: q) auto

lemma chain_prev: "M p = Some t \<Longrightarrow> next_in_list t' = next_in_list t \<Longrightarrow> chain (M(p \<mapsto> t')) q xs = chain M q xs"
  by (induction xs arbitrary: q) auto

lemma chain_tail:
  "chain (task_memory st) (Some x) (x # xs) \<Longrightarrow> length xs < fuel \<Longrightarrow> list_tail fuel st x = ret (last (x # xs))"
proof (induction xs arbitrary: x fuel)
  case Nil
  then show ?case by (cases fuel) (auto simp: deref_def)
next
  case (Cons y xs)
  then obtain f t where f: "fuel = Suc f" "task_memory st x = Some t" "next_in_list t = Some y"
    "chain (task_memory st) (Some y) (y # xs)" by (cases fuel) auto
  have "list_tail f st y = ret (last (y # xs))" using Cons.IH [OF f(4)] Cons.prems(2) f(1) by simp
  then show ?case using f by (simp add: deref_def)
qed

lemma chain_in_memory: "chain M q xs \<Longrightarrow> x \<in> set xs \<Longrightarrow> \<exists>t. M x = Some t"
  by (induction xs arbitrary: q) auto

lemma chain_append:
  assumes "chain M q (xs @ [z])" "distinct (xs @ [z])" "M z = Some tz" "M p = Some tp" "next_in_list tp = None" "p \<notin> set (xs @ [z])"
  shows "chain (M(z \<mapsto> tz\<lparr>next_in_list := Some p\<rparr>)) q (xs @ [z, p])"
  using assms by (induction xs arbitrary: q) auto

lemma add_task_ok:
  assumes q: "ready_queue_is st xs" and t: "unlinked st p" "p \<notin> set xs" and f: "length xs < fuel"
  shows "\<exists>st'. add_task_to_ready_list fuel st p = ret st' \<and> ready_queue_is st' (xs @ [p]) \<and> same_but_links st st'
    \<and> (\<forall>y. y \<notin> set xs \<longrightarrow> unlinked st y \<longrightarrow> unlinked st' y)"
proof -
  obtain s tp where s: "SCHEDULER st = Some s" "chain (task_memory st) (ready_list_head s) xs" "distinct xs"
    and tp: "task_memory st p = Some tp" "next_in_list tp = None"
    using q t by (auto simp: ready_queue_is_def unlinked_def)
  show ?thesis
  proof (cases xs rule: rev_cases)
    case Nil
    then show ?thesis using s tp
      by (simp add: add_task_to_ready_list_def ready_queue_is_def same_but_links_def unlinked_def)
  next
    case (snoc ys z)
    then have "xs \<noteq> []" by simp
    then obtain x xs' where xs: "xs = x # xs'" by (meson list.exhaust)
    then have x: "ready_list_head s = Some x" using s(2) by simp
    have tail: "list_tail fuel st x = ret z"
      using chain_tail [of st x xs' fuel] s(2) f xs snoc by (metis last_snoc length_Cons Suc_lessD chain.simps(2))
    obtain tz where tz: "task_memory st z = Some tz" using chain_in_memory [OF s(2), of z] snoc by auto
    have zp: "z \<noteq> p" using t(2) snoc by auto
    let ?st1 = "put_task st p (tp\<lparr>prev_in_list := Some z\<rparr>)"
    let ?st2 = "put_task ?st1 z (tz\<lparr>next_in_list := Some p\<rparr>)"
    have "add_task_to_ready_list fuel st p = ret ?st2"
      using s(1) x tail tp(1) tz zp by (simp add: add_task_to_ready_list_def deref_def put_task_def)
    moreover have "chain (task_memory ?st1) (ready_list_head s) (ys @ [z])"
      using s(2) snoc tp by (simp add: put_task_def chain_prev)
    then have "chain (task_memory ?st2) (ready_list_head s) (ys @ [z, p])"
      using chain_append [of "task_memory ?st1" "ready_list_head s" ys z tz p "tp\<lparr>prev_in_list := Some z\<rparr>"] s(3) snoc tz zp tp(2) t(2)
      by (simp add: put_task_def)
    then have "ready_queue_is ?st2 (xs @ [p])" using s snoc t(2) by (auto simp: ready_queue_is_def put_task_def)
    moreover have "same_but_links st ?st2" using tp tz zp by (simp add: same_but_links_def put_task_def task_core_def)
    moreover have "\<forall>y. y \<notin> set xs \<longrightarrow> unlinked st y \<longrightarrow> unlinked ?st2 y" using snoc tp by (auto simp: unlinked_def put_task_def)
    ultimately show ?thesis by blast
  qed
qed

lemma pop_task_ok:
  assumes "ready_queue_is st (x # xs)"
  shows "\<exists>st'. pop_next_ready_task st = ret (x, st') \<and> ready_queue_is st' xs \<and> unlinked st' x \<and> same_but_links st st'"
proof -
  obtain s t where s: "SCHEDULER st = Some s" "ready_list_head s = Some x" "task_memory st x = Some t"
    "chain (task_memory st) (next_in_list t) xs" "distinct (x # xs)"
    using assms by (auto simp: ready_queue_is_def)
  then show ?thesis
    by (auto simp: pop_next_ready_task_def deref_def put_task_def ready_queue_is_def unlinked_def same_but_links_def
        task_core_def chain_other)
qed

section \<open>Round robin\<close>

text \<open>
  What the scheduler needs of its ready list: tasks leave it in the order in which they entered, and nothing
  else of the state changes.
\<close>

locale ready_queue =
  fixes queue :: "'s \<Rightarrow> 't list \<Rightarrow> bool" and loose :: "'s \<Rightarrow> 't \<Rightarrow> bool" and keeps :: "'s \<Rightarrow> 's \<Rightarrow> bool"
    and enq :: "nat \<Rightarrow> 's \<Rightarrow> 't \<Rightarrow> 's rust" and deq :: "'s \<Rightarrow> ('t \<times> 's) rust"
  assumes enq_ok: "queue s xs \<Longrightarrow> loose s t \<Longrightarrow> t \<notin> set xs \<Longrightarrow> length xs < fuel \<Longrightarrow>
      \<exists>s'. enq fuel s t = ret s' \<and> queue s' (xs @ [t]) \<and> keeps s s' \<and> (\<forall>y. y \<notin> set xs \<longrightarrow> loose s y \<longrightarrow> loose s' y)"
    and deq_ok: "queue s (x # xs) \<Longrightarrow> \<exists>s'. deq s = ret (x, s') \<and> queue s' xs \<and> loose s' x \<and> keeps s s'"
    and keeps_trans: "keeps s1 s2 \<Longrightarrow> keeps s2 s3 \<Longrightarrow> keeps s1 s3"
begin

text \<open>The task at the front gets its turn, and the one that had it goes to the back.\<close>

lemma turn:
  assumes "queue s xs" "loose s t" "t \<notin> set xs" "length xs < fuel"
  shows "\<exists>s'. bnd (enq fuel s t) deq = ret (hd (xs @ [t]), s') \<and> queue s' (tl (xs @ [t]))
    \<and> loose s' (hd (xs @ [t])) \<and> keeps s s'"
proof -
  obtain s1 where s1: "enq fuel s t = ret s1" "queue s1 (xs @ [t])" "keeps s s1" using enq_ok [OF assms] by blast
  moreover have "xs @ [t] = hd (xs @ [t]) # tl (xs @ [t])" by simp
  ultimately show ?thesis using deq_ok [of s1 "hd (xs @ [t])" "tl (xs @ [t])"] keeps_trans [OF s1(3)] by fastforce
qed

end

interpretation rq: ready_queue ready_queue_is unlinked same_but_links add_task_to_ready_list pop_next_ready_task
proof
  show "\<And>s1 s2 s3. same_but_links s1 s2 \<Longrightarrow> same_but_links s2 s3 \<Longrightarrow> same_but_links s1 s3"
    by (simp add: same_but_links_def)
qed (fact add_task_ok pop_task_ok)+

text \<open>
  The state between two yields: \<open>c\<close> runs, \<open>xs\<close> are ready in this order, and each of them has a saved stack pointer.
\<close>

definition sched_ok :: "sched_state \<Rightarrow> task_ptr \<Rightarrow> task_ptr list \<Rightarrow> bool" where
  "sched_ok st c xs \<longleftrightarrow> CURRENT_TASK st = Some c \<and> ready_queue_is st xs \<and> unlinked st c \<and> c \<notin> set xs
    \<and> (\<forall>x \<in> set xs. \<exists>t r. task_memory st x = Some t \<and> rsp t = Some r)"

lemma ready_queue_is_cong:
  "SCHEDULER st' = SCHEDULER st \<Longrightarrow> (\<And>p. map_option next_in_list (task_memory st' p) = map_option next_in_list (task_memory st p))
    \<Longrightarrow> ready_queue_is st' xs = ready_queue_is st xs"
proof -
  assume a: "SCHEDULER st' = SCHEDULER st" "\<And>p. map_option next_in_list (task_memory st' p) = map_option next_in_list (task_memory st p)"
  have e: "(\<exists>t. task_memory st' x = Some t \<and> P (next_in_list t)) = (\<exists>t. task_memory st x = Some t \<and> P (next_in_list t))" for x P
    using a(2) [of x] by (cases "task_memory st x"; cases "task_memory st' x") auto
  have "chain (task_memory st') q xs = chain (task_memory st) q xs" for q
  proof (induction xs arbitrary: q)
    case (Cons x xs)
    then show ?case using e [of x "\<lambda>q. chain (task_memory st) q xs"] by simp
  qed simp
  then show ?thesis by (simp add: ready_queue_is_def a(1))
qed

lemma reschedule_ok:
  assumes ok: "sched_ok st c xs" and f: "length xs < fuel"
  shows "\<exists>st'. reschedule fuel st = ret (hd (xs @ [c]), c, st') \<and> CURRENT_TASK st' = Some (hd (xs @ [c]))
    \<and> ready_queue_is st' (tl (xs @ [c])) \<and> unlinked st' (hd (xs @ [c]))
    \<and> same_but_links (st\<lparr>CURRENT_TASK := Some (hd (xs @ [c]))\<rparr>) st'"
proof -
  let ?st = "st\<lparr>CURRENT_TASK := None\<rparr>"
  have "ready_queue_is ?st xs" "unlinked ?st c" "c \<notin> set xs"
    using ok by (simp_all add: sched_ok_def ready_queue_is_def unlinked_def)
  from rq.turn [OF this f] obtain st1 where st1: "bnd (add_task_to_ready_list fuel ?st c) pop_next_ready_task = ret (hd (xs @ [c]), st1)"
    "ready_queue_is st1 (tl (xs @ [c]))" "unlinked st1 (hd (xs @ [c]))" "same_but_links ?st st1" by blast
  have "reschedule fuel st = bnd (bnd (add_task_to_ready_list fuel ?st c) pop_next_ready_task)
      (\<lambda>(next_task, st). ret (next_task, c, st\<lparr>CURRENT_TASK := Some next_task\<rparr>))"
    using ok by (simp add: reschedule_def sched_ok_def bnd_assoc)
  then have "reschedule fuel st = ret (hd (xs @ [c]), c, st1\<lparr>CURRENT_TASK := Some (hd (xs @ [c]))\<rparr>)" by (simp add: st1(1))
  then show ?thesis using st1(2-4)
    by (auto simp: ready_queue_is_def unlinked_def same_but_links_def)
qed

text \<open>What the eight pushes of \<^verbatim>\<open>switch_to\<close> leave in memory.\<close>

definition saved_frame :: "regs \<Rightarrow> usize \<Rightarrow> (usize \<Rightarrow> usize) \<Rightarrow> usize \<Rightarrow> usize" where
  "saved_frame r fn W = W(r_rsp r - 8 := r_flags r, r_rsp r - 16 := r_rbp r, r_rsp r - 24 := r_rbx r, r_rsp r - 32 := r_r12 r,
     r_rsp r - 40 := r_r13 r, r_rsp r - 48 := r_r14 r, r_rsp r - 56 := r_r15 r, r_rsp r - 64 := fn)"

lemma switch_to_eq:
  "switch_to st r next_rsp prev fn =
    (let st1 = st\<lparr>word_memory := saved_frame r fn (word_memory st)\<rparr> in
     bnd (if r_rax r = 0 then ret st1
       else bnd (deref st1 prev) (\<lambda>t. ret (put_task st1 prev (t\<lparr>rsp := non_zero (r_rsp r - 64)\<rparr>)))) (\<lambda>st2.
     ret (st2, asm_ret st2 (r\<lparr>r_rsp := next_rsp, r_rdi := next_rsp\<rparr>))))"
  by (simp add: switch_to_def asm_push_def put_word_def saved_frame_def Let_def diff_diff_eq)

text \<open>A stack that still holds these words leads through the restoring function back to the call.\<close>

lemma restore_saved:
  assumes "\<forall>i \<le> 8. word_memory st (r_rsp r - 8 * of_nat i) = saved_frame r fn W (r_rsp r - 8 * of_nat i)"
  shows "asm_ret st (r2\<lparr>r_rsp := r_rsp r - 64\<rparr>) = (fn, r2\<lparr>r_rsp := r_rsp r - 56\<rparr>)"
    "restore_task_state st (r2\<lparr>r_rsp := r_rsp r - 56\<rparr>) = (W (r_rsp r), r2\<lparr>r_rsp := r_rsp r + 8, r_rbp := r_rbp r, r_rbx := r_rbx r,
        r_r12 := r_r12 r, r_r13 := r_r13 r, r_r14 := r_r14 r, r_r15 := r_r15 r, r_flags := r_flags r\<rparr>)"
proof -
  let ?a = "r_rsp r"
  have w: "word_memory st (?a - 8 * of_nat i) = saved_frame r fn W (?a - 8 * of_nat i)" if "i \<le> 8" for i using assms that by simp
  have v: "word_memory st ?a = W ?a" "word_memory st (?a - 8) = r_flags r" "word_memory st (?a - 16) = r_rbp r"
    "word_memory st (?a - 24) = r_rbx r" "word_memory st (?a - 32) = r_r12 r" "word_memory st (?a - 40) = r_r13 r"
    "word_memory st (?a - 48) = r_r14 r" "word_memory st (?a - 56) = r_r15 r" "word_memory st (?a - 64) = fn"
    using w [of 0] w [of 1] w [of 2] w [of 3] w [of 4] w [of 5] w [of 6] w [of 7] w [of 8] by (simp_all add: saved_frame_def)
  have pop: "asm_pop st (x\<lparr>r_rsp := b\<rparr>) = (word_memory st b, x\<lparr>r_rsp := b + 8\<rparr>)" for x b by (simp add: asm_pop_def)
  show "asm_ret st (r2\<lparr>r_rsp := ?a - 64\<rparr>) = (fn, r2\<lparr>r_rsp := ?a - 56\<rparr>)" by (simp add: asm_ret_def pop v)
  show "restore_task_state st (r2\<lparr>r_rsp := ?a - 56\<rparr>) = (W ?a, r2\<lparr>r_rsp := ?a + 8, r_rbp := r_rbp r, r_rbx := r_rbx r,
        r_r12 := r_r12 r, r_r13 := r_r13 r, r_r14 := r_r14 r, r_r15 := r_r15 r, r_flags := r_flags r\<rparr>)"
    by (simp add: restore_task_state_def asm_ret_def asm_pop_def v Let_def)
qed

lemma yield_current_ok:
  assumes ok: "sched_ok st c xs" and f: "length xs < fuel" and r: "r_rax r \<noteq> 0" "r_rsp r \<noteq> 64"
  shows "\<exists>st' j. yield_current ca fuel st r = ret (st', j) \<and> sched_ok st' (hd (xs @ [c])) (tl (xs @ [c]))"
proof -
  let ?n = "hd (xs @ [c])"
  obtain st1 where st1: "reschedule fuel st = ret (?n, c, st1)" "CURRENT_TASK st1 = Some ?n"
    "ready_queue_is st1 (tl (xs @ [c]))" "unlinked st1 ?n" "same_but_links (st\<lparr>CURRENT_TASK := Some ?n\<rparr>) st1"
    using reschedule_ok [OF ok f] by blast
  show ?thesis
  proof (cases xs)
    case Nil
    then show ?thesis using st1 by (simp add: yield_current_def sched_ok_def)
  next
    case (Cons x ys)
    have nc: "x \<noteq> c" "distinct (x # ys)" "c \<notin> set ys" using ok Cons by (auto simp: sched_ok_def ready_queue_is_def)
    have core: "map_option task_core (task_memory st1 p) = map_option task_core (task_memory st p)" for p
      using st1(5) by (simp add: same_but_links_def)
    obtain tx rx where tx: "task_memory st1 x = Some tx" "rsp tx = Some rx"
      using ok Cons core [of x] by (auto simp: sched_ok_def task_core_def)
    obtain tc where tc: "task_memory st1 c = Some tc" using ok core [of c] by (auto simp: sched_ok_def unlinked_def)
    let ?st2 = "put_task st1 x (tx\<lparr>rsp := None\<rparr>)"
    let ?st3 = "?st2\<lparr>word_memory := saved_frame r (ca_restore_task_state ca) (word_memory ?st2)\<rparr>"
    let ?st4 = "put_task ?st3 c (tc\<lparr>rsp := Some (r_rsp r - 64)\<rparr>)"
    have nz: "non_zero (r_rsp r - 64) = Some (r_rsp r - 64)" using r(2) by (simp add: non_zero_def)
    have "\<exists>j. yield_current ca fuel st r = ret (?st4, j)"
      using st1(1) Cons nc(1) tx tc r(1) nz
      by (simp add: yield_current_def take_rsp_def deref_def switch_to_eq put_task_def Let_def)
    moreover have "ready_queue_is ?st4 (ys @ [c])"
      using st1(3) Cons tx tc by (subst ready_queue_is_cong [of _ st1]) (auto simp: put_task_def)
    moreover have "unlinked ?st4 x" using st1(4) Cons tx nc(1) by (auto simp: unlinked_def put_task_def)
    moreover have "\<forall>y \<in> set (ys @ [c]). \<exists>t r. task_memory ?st4 y = Some t \<and> rsp t = Some r"
    proof
      fix y assume y: "y \<in> set (ys @ [c])"
      show "\<exists>t r. task_memory ?st4 y = Some t \<and> rsp t = Some r"
      proof (cases "y = c")
        case False
        then have "y \<noteq> x" "y \<in> set xs" using y nc Cons by auto
        then obtain t r where "task_memory st y = Some t" "rsp t = Some r" using ok unfolding sched_ok_def by blast
        then show ?thesis using core [of y] False \<open>y \<noteq> x\<close> by (auto simp: task_core_def put_task_def)
      qed (simp add: put_task_def)
    qed
    moreover have "CURRENT_TASK ?st4 = Some x" using st1(2) Cons by (simp add: put_task_def)
    ultimately show ?thesis using Cons nc by (auto simp: sched_ok_def)
  qed
qed

text \<open>A run of yields; \<open>rs\<close> are the registers at each of them.\<close>

primrec yield_run :: "code_addrs \<Rightarrow> nat \<Rightarrow> sched_state \<Rightarrow> regs list \<Rightarrow> sched_state rust" where
  "yield_run ca fuel st [] = ret st"
| "yield_run ca fuel st (r # rs) = bnd (yield_current ca fuel st r) (\<lambda>(st, _). yield_run ca fuel st rs)"

lemma yield_run_ok:
  "sched_ok st c xs \<Longrightarrow> length xs < fuel \<Longrightarrow> \<forall>r \<in> set rs. r_rax r \<noteq> 0 \<and> r_rsp r \<noteq> 64 \<Longrightarrow>
    \<exists>st'. yield_run ca fuel st rs = ret st' \<and> sched_ok st' (hd (rotate (length rs) (c # xs))) (tl (rotate (length rs) (c # xs)))"
proof (induction rs arbitrary: st c xs)
  case (Cons r rs)
  obtain st1 j where st1: "yield_current ca fuel st r = ret (st1, j)" "sched_ok st1 (hd (xs @ [c])) (tl (xs @ [c]))"
    using yield_current_ok [OF Cons.prems(1,2)] Cons.prems(3) by fastforce
  have e: "hd (xs @ [c]) # tl (xs @ [c]) = rotate1 (c # xs)" by simp
  have "length (tl (xs @ [c])) < fuel" using Cons.prems(2) by simp
  from Cons.IH [OF st1(2) this] Cons.prems(3) show ?case
    using st1(1) unfolding e by (simp add: rotate1_rotate_swap [symmetric] del: rotate1.simps)
qed simp

text \<open>
  What \<^verbatim>\<open>create_task\<close> does when the two frames from \<open>f\<close> are handed out: the descriptor is at \<open>p\<close>, below the top of
  the stack, and the four words are below it.
\<close>

definition new_task_ptr :: "usize \<Rightarrow> nat \<Rightarrow> task_ptr" where
  "new_task_ptr size_of_task f = of_nat (phys_base + 4096 * f + 32768) - size_of_task"

lemma unat_new_task_ptr:
  "f < 33554432 \<Longrightarrow> unat n \<le> 32768 \<Longrightarrow> unat (new_task_ptr n f) = phys_base + 4096 * f + 32768 - unat n"
proof -
  assume f: "f < 33554432" and n: "unat n \<le> 32768"
  let ?t = "phys_base + 4096 * f + 32768"
  have "?t < 18446744073709551616" using f by (simp add: phys_base_def)
  then have t: "unat (of_nat ?t :: usize) = ?t" by (intro unat_of_nat_eq) simp
  then have "unat n \<le> unat (of_nat ?t :: usize)" using n by linarith
  then have "unat (of_nat ?t - n) = unat (of_nat ?t :: usize) - unat n" by (simp only: unat_sub_exact word_le_nat_alt)
  then show ?thesis unfolding new_task_ptr_def t .
qed

lemma create_task_eq:
  assumes cell: "frame_allocator_cell st = Some a" "bitmap_inv a" "8 * length (bitmap a) \<le> 33554432"
    and g: "free_group (free_frames a) 1 g" and n: "n \<noteq> 0" "unat n \<le> 32736"
  shows "\<exists>fr a'. allocate_range a 1 = ret (Some fr, a') \<and> unat (fr_count fr) = 2 \<and> fidx (fr_first fr) \<in> free_frames a
    \<and> fidx (fr_first fr) < 33554432
    \<and> (let p = new_task_ptr n (fidx (fr_first fr)) in
       create_task ca n st fn ctx = ret (p, st\<lparr>frame_allocator_cell := Some a',
         task_memory := (task_memory st)(p \<mapsto> \<lparr>stack_frames = \<lparr>ofr_frames = fr\<rparr>, rsp = Some (p - 32), prev_in_list = None, next_in_list = None\<rparr>),
         word_memory := (word_memory st)(p - 8 := 0, p - 16 := fn, p - 24 := ctx, p - 32 := ca_task_init_trampoline ca)\<rparr>))"
proof -
  obtain fr a' where r: "allocate_range a (of_nat 1) = ret (Some fr, a')" "wf_frame_range fr"
    "free_group (free_frames a) 1 (fidx (fr_first fr))" "unat (fr_count fr) = 2 ^ 1"
    using ba.alloc_some [OF cell(2) _ g] by (auto simp: sound_orders_def)
  let ?f = "fidx (fr_first fr)" and ?p = "new_task_ptr n (fidx (fr_first fr))"
  have f: "?f \<in> free_frames a" using r(3) by (auto simp: free_group_def)
  then have f2: "?f < 33554432" using ba.free_known [of a] cell(3) by (auto simp: known_frames_def)
  have st: "a_nat (frame_start (fr_first fr)) = 4096 * ?f" using r(2) frame_start_nat by (simp add: wf_frame_range_def)
  have v: "phys_to_virt (frame_start (fr_first fr)) = ret (addr_of (phys_base + 4096 * ?f))" using f2 by (simp add: phys_to_virt_eq st)
  have sl: "STACK_LEN = 32768" by (simp add: STACK_LEN_def STACK_FRAMES_def STACK_FRAMES_ORDER_def PAGE_SIZE_def)
  have top: "address_add (addr_of (phys_base + 4096 * ?f) :: virt_address) (Length 32768) = ret (addr_of (phys_base + 4096 * ?f + 32768))"
    using f2 by (simp add: address_add_eq l_nat_Length phys_base_def)
  have up: "unat ?p = phys_base + 4096 * ?f + 32768 - unat n" using unat_new_task_ptr [OF f2] n(2) by simp
  have "?p \<noteq> 0" "?p - 32 \<noteq> 0" using up n(2) by (auto simp: phys_base_def)
  then have nz: "non_zero ?p = Some ?p" "non_zero (?p - 32) = Some (?p - 32)" by (simp_all add: non_zero_def)
  have p: "of_nat (phys_base + 4096 * ?f + 32768) - n = ?p" by (simp only: new_task_ptr_def)
  have d: "?p - 8 - 8 = ?p - 16" "?p - 16 - 8 = ?p - 24" "?p - 24 - 8 = ?p - 32" by simp_all
  have "create_task ca n st fn ctx = ret (?p, st\<lparr>frame_allocator_cell := Some a',
         task_memory := (task_memory st)(?p \<mapsto> \<lparr>stack_frames = \<lparr>ofr_frames = fr\<rparr>, rsp = Some (?p - 32), prev_in_list = None, next_in_list = None\<rparr>),
         word_memory := (word_memory st)(?p - 8 := 0, ?p - 16 := fn, ?p - 24 := ctx, ?p - 32 := ca_task_init_trampoline ca)\<rparr>)"
    using r(1) n(1) nz
    by (simp add: create_task_def allocate_owned_frames_def allocate_frames_def cell(1) owned_frame_range.make_def v sl top
        stack_writer_push_def stack_writer_new_def into_ptr_def addr_raw_addr_of p d put_task_def put_word_def deref_def Let_def
        del: of_nat_add of_nat_mult)
  then show ?thesis using r f f2 by (auto simp: Let_def)
qed

lemma spawn_kthread_ok:
  assumes ok: "sched_ok st c xs" and f: "length xs < fuel"
    and cell: "frame_allocator_cell st = Some a" "bitmap_inv a" "8 * length (bitmap a) \<le> 33554432"
    and g: "free_group (free_frames a) 1 g" and n: "n \<noteq> 0" "unat n \<le> 32736"
    and fresh: "\<forall>i \<in> free_frames a. new_task_ptr n i \<notin> set (c # xs)"
  shows "\<exists>st' p t. spawn_kthread ca n fuel st fn ctx = ret st' \<and> sched_ok st' c (xs @ [p]) \<and> task_memory st' p = Some t \<and> rsp t = Some (p - 32)
    \<and> word_memory st' = (word_memory st)(p - 8 := 0, p - 16 := fn, p - 24 := ctx, p - 32 := ca_task_init_trampoline ca)"
proof -
  obtain fr a' where fr: "fidx (fr_first fr) \<in> free_frames a"
    and eq: "let p = new_task_ptr n (fidx (fr_first fr)) in
       create_task ca n st fn ctx = ret (p, st\<lparr>frame_allocator_cell := Some a',
         task_memory := (task_memory st)(p \<mapsto> \<lparr>stack_frames = \<lparr>ofr_frames = fr\<rparr>, rsp = Some (p - 32), prev_in_list = None, next_in_list = None\<rparr>),
         word_memory := (word_memory st)(p - 8 := 0, p - 16 := fn, p - 24 := ctx, p - 32 := ca_task_init_trampoline ca)\<rparr>)"
    using create_task_eq [OF cell g n] by blast
  define p where "p = new_task_ptr n (fidx (fr_first fr))"
  define t where "t = \<lparr>stack_frames = \<lparr>ofr_frames = fr\<rparr>, rsp = Some (p - 32), prev_in_list = None, next_in_list = None\<rparr>"
  define W where "W = (word_memory st)(p - 8 := 0, p - 16 := fn, p - 24 := ctx, p - 32 := ca_task_init_trampoline ca)"
  let ?st1 = "st\<lparr>frame_allocator_cell := Some a', task_memory := (task_memory st)(p \<mapsto> t), word_memory := W\<rparr>"
  have eq': "create_task ca n st fn ctx = ret (p, ?st1)" using eq unfolding Let_def p_def [symmetric] t_def [symmetric] W_def .
  have p: "p \<noteq> c" "p \<notin> set xs" using fresh fr by (auto simp: p_def)
  have q: "ready_queue_is ?st1 xs" using ok p(2) by (simp add: sched_ok_def ready_queue_is_def chain_other)
  have u: "unlinked ?st1 p" by (simp add: unlinked_def t_def)
  obtain st' where st': "add_task_to_ready_list fuel ?st1 p = ret st'" "ready_queue_is st' (xs @ [p])" "same_but_links ?st1 st'"
    "\<forall>y. y \<notin> set xs \<longrightarrow> unlinked ?st1 y \<longrightarrow> unlinked st' y"
    using rq.enq_ok [OF q u p(2) f] by blast
  have core: "map_option task_core (task_memory st' x) = map_option task_core (task_memory ?st1 x)" for x
    using st'(3) by (simp add: same_but_links_def)
  obtain t' where t': "task_memory st' p = Some t'" "rsp t' = Some (p - 32)" using core [of p] by (auto simp: task_core_def t_def)
  have saved: "\<exists>t r. task_memory st' x = Some t \<and> rsp t = Some r" if x: "x \<in> set (xs @ [p])" for x
  proof (cases "x = p")
    case False
    then obtain t r where "task_memory st x = Some t" "rsp t = Some r" using x ok by (auto simp: sched_ok_def)
    then show ?thesis using core [of x] False by (auto simp: task_core_def)
  qed (use t' in simp)
  have "unlinked st' c" using st'(4) ok p by (auto simp: sched_ok_def unlinked_def)
  then have "sched_ok st' c (xs @ [p])" using st'(2,3) ok p saved by (auto simp: sched_ok_def same_but_links_def)
  moreover have "spawn_kthread ca n fuel st fn ctx = ret st'" by (simp add: spawn_kthread_def eq' st'(1))
  moreover have "word_memory st' = W" using st'(3) by (simp add: same_but_links_def)
  ultimately show ?thesis using t' by (auto simp: W_def)
qed

section \<open>Properties\<close>


definition two_tasks :: sched_state where
  "two_tasks = (let fs = \<lparr>ofr_frames = frame_range_at 2 2\<rparr> in
     \<lparr>CURRENT_TASK = Some 0x1000, IDLE_TASK = None, SCHEDULER = Some \<lparr>ready_list_head = Some 0x2000\<rparr>,
      task_memory = [0x1000 \<mapsto> \<lparr>stack_frames = fs, rsp = None, prev_in_list = None, next_in_list = None\<rparr>,
        0x2000 \<mapsto> \<lparr>stack_frames = fs, rsp = Some 0x1f00, prev_in_list = None, next_in_list = None\<rparr>],
      word_memory = (\<lambda>_. 0), frame_allocator_cell = None\<rparr>)"

definition some_regs :: "usize \<Rightarrow> regs" where
  "some_regs a = \<lparr>r_rsp = 0x0f00, r_rax = a, r_rdi = 0, r_rbp = 1, r_rbx = 2, r_r12 = 3, r_r13 = 4, r_r14 = 5, r_r15 = 6, r_flags = 7\<rparr>"

lemma two_tasks_ok: "sched_ok two_tasks 0x1000 [0x2000]"
  by (simp add: sched_ok_def two_tasks_def ready_queue_is_def unlinked_def Let_def)




text \<open>
  C37. \<^verbatim>\<open>switch_to\<close> is meant to skip saving the stack pointer when \<^verbatim>\<open>prev_rsp\<close> is null, but it tests \<^verbatim>\<open>rax\<close>, which holds no
  argument. When \<^verbatim>\<open>rax\<close> happens to be zero, the task that yields is in the ready list without a saved stack
  pointer, and the scheduler panics when its turn comes.
\<close>

theorem switch_to_loses_task:
  assumes "sched_ok st c (x # xs)" "length xs + 1 < fuel" "task_memory st c = Some tc" "rsp tc = None" "r_rax r = 0"
  shows "runs (yield_current ca fuel st r) (\<lambda>(st', j). CURRENT_TASK st' = Some x \<and> ready_queue_is st' (xs @ [c])
    \<and> take_rsp st' c = throw UnwrapNone)"
proof -
  obtain st1 where st1: "reschedule fuel st = ret (x, c, st1)" "CURRENT_TASK st1 = Some x"
    "ready_queue_is st1 (xs @ [c])" "same_but_links (st\<lparr>CURRENT_TASK := Some x\<rparr>) st1"
    using reschedule_ok [OF assms(1)] assms(2) by auto
  have xc: "x \<noteq> c" using assms(1) by (auto simp: sched_ok_def)
  have core: "map_option task_core (task_memory st1 p) = map_option task_core (task_memory st p)" for p
    using st1(4) by (simp add: same_but_links_def)
  obtain tx rx where tx: "task_memory st1 x = Some tx" "rsp tx = Some rx"
    using assms(1) core [of x] by (auto simp: sched_ok_def task_core_def)
  obtain tc' where tc: "task_memory st1 c = Some tc'" "rsp tc' = None" using assms(3,4) core [of c] by (auto simp: task_core_def)
  let ?st2 = "put_task st1 x (tx\<lparr>rsp := None\<rparr>)"
  let ?st3 = "?st2\<lparr>word_memory := saved_frame r (ca_restore_task_state ca) (word_memory ?st2)\<rparr>"
  have "\<exists>j. yield_current ca fuel st r = ret (?st3, j)"
    using st1(1) xc tx tc(1) assms(5)
    by (simp add: yield_current_def take_rsp_def deref_def switch_to_eq put_task_def Let_def)
  moreover have "ready_queue_is ?st3 (xs @ [c])"
    using st1(3) tx by (subst ready_queue_is_cong [of _ st1]) (auto simp: put_task_def)
  moreover have "take_rsp ?st3 c = throw UnwrapNone" using tc xc by (simp add: take_rsp_def deref_def put_task_def)
  moreover have "CURRENT_TASK ?st3 = Some x" using st1(2) by (simp add: put_task_def)
  ultimately show ?thesis by auto
qed

theorem switch_to_loses_task_witness:
  "runs (yield_current \<lparr>ca_clean_quit_task = 1, ca_restore_task_state = 2, ca_task_init_trampoline = 3, ca_kernel_main_init_fn = 4, ca_idle_task_fn = 5\<rparr>
      2 two_tasks (some_regs 0)) (\<lambda>(st', j). CURRENT_TASK st' = Some 0x2000 \<and> ready_queue_is st' [0x1000] \<and> take_rsp st' 0x1000 = throw UnwrapNone)"
  using switch_to_loses_task [OF two_tasks_ok, of 2 _ "some_regs 0"]
  by (simp add: some_regs_def two_tasks_def Let_def)

lemma no_current_task:
  "CURRENT_TASK st = None \<Longrightarrow> yield_current ca fuel st r = throw UnwrapNone"
  "CURRENT_TASK st = None \<Longrightarrow> quit_current ca st r = throw UnwrapNone"
  by (simp_all add: yield_current_def reschedule_def quit_current_def)

text \<open>
  C38. \<^verbatim>\<open>quit_current\<close> switches to the next ready task through \<^verbatim>\<open>clean_quit_task\<close>, which gets the old task, passes its
  assertions and frees the old stack, and leaves the next task's stack as it was saved. But nothing sets
  \<^verbatim>\<open>CURRENT_TASK\<close> to the task that runs now: its next \<^verbatim>\<open>yield_current\<close> or \<^verbatim>\<open>quit_current\<close> panics.
\<close>

theorem quit_current_leaves_no_current_task:
  assumes "sched_ok st c (x # xs)" "task_memory st c = Some tc" "rsp tc = None" "prev_in_list tc = None"
    and "task_memory st x = Some tx" "rsp tx = Some sp"
  shows "runs (quit_current ca st r) (\<lambda>(st', pc, r'). pc = ca_clean_quit_task ca \<and> r_rdi r' = c \<and> r_rsp r' = sp
    \<and> clean_quit_task st' c = bnd (drop_owned_frames (frame_allocator_cell st) (stack_frames tc)) (\<lambda>cell. ret (st'\<lparr>frame_allocator_cell := cell\<rparr>))
    \<and> CURRENT_TASK st' = None \<and> yield_current ca fuel st' r2 = throw UnwrapNone \<and> quit_current ca st' r2 = throw UnwrapNone)"
proof -
  have xc: "x \<noteq> c" using assms(1) by (auto simp: sched_ok_def)
  obtain s where s: "CURRENT_TASK st = Some c" "SCHEDULER st = Some s" "ready_list_head s = Some x" "next_in_list tc = None"
    using assms(1,2) by (auto simp: sched_ok_def ready_queue_is_def unlinked_def)
  obtain st' r' where q: "quit_current ca st r = ret (st', ca_clean_quit_task ca, r')"
    and r': "r_rdi r' = c" "r_rsp r' = sp"
    and st': "CURRENT_TASK st' = None" "task_memory st' c = Some tc" "frame_allocator_cell st' = frame_allocator_cell st"
    using s assms(2-6) xc
    by (simp add: quit_current_def pop_next_ready_task_def deref_def take_rsp_def put_task_def put_word_def
        stack_writer_push_def stack_writer_new_def into_ptr_def asm_ret_def asm_pop_def Let_def)
  have "clean_quit_task st' c = bnd (drop_owned_frames (frame_allocator_cell st) (stack_frames tc)) (\<lambda>cell. ret (st'\<lparr>frame_allocator_cell := cell\<rparr>))"
    using st' assms(3,4) s(4) by (simp add: clean_quit_task_def deref_def)
  then show ?thesis unfolding q using r' st'(1) by (simp add: no_current_task)
qed

theorem quit_current_leaves_no_current_task_witness:
  "runs (quit_current \<lparr>ca_clean_quit_task = 1, ca_restore_task_state = 2, ca_task_init_trampoline = 3, ca_kernel_main_init_fn = 4, ca_idle_task_fn = 5\<rparr>
      two_tasks (some_regs 0)) (\<lambda>(st', pc, r'). pc = 1 \<and> r_rdi r' = 0x1000 \<and> r_rsp r' = 0x1f00 \<and> CURRENT_TASK st' = None)"
proof -
  have "runs (quit_current \<lparr>ca_clean_quit_task = 1, ca_restore_task_state = 2, ca_task_init_trampoline = 3, ca_kernel_main_init_fn = 4, ca_idle_task_fn = 5\<rparr>
      two_tasks (some_regs 0)) (\<lambda>(st', pc, r'). pc = ca_clean_quit_task \<lparr>ca_clean_quit_task = 1, ca_restore_task_state = 2, ca_task_init_trampoline = 3, ca_kernel_main_init_fn = 4, ca_idle_task_fn = 5\<rparr>
      \<and> r_rdi r' = 0x1000 \<and> r_rsp r' = 0x1f00
      \<and> clean_quit_task st' 0x1000 = bnd (drop_owned_frames (frame_allocator_cell two_tasks) (stack_frames (the (task_memory two_tasks 0x1000)))) (\<lambda>cell. ret (st'\<lparr>frame_allocator_cell := cell\<rparr>))
      \<and> CURRENT_TASK st' = None
      \<and> yield_current \<lparr>ca_clean_quit_task = 1, ca_restore_task_state = 2, ca_task_init_trampoline = 3, ca_kernel_main_init_fn = 4, ca_idle_task_fn = 5\<rparr> 0 st' (some_regs 0) = throw UnwrapNone
      \<and> quit_current \<lparr>ca_clean_quit_task = 1, ca_restore_task_state = 2, ca_task_init_trampoline = 3, ca_kernel_main_init_fn = 4, ca_idle_task_fn = 5\<rparr> st' (some_regs 0) = throw UnwrapNone)"
    by (rule quit_current_leaves_no_current_task [OF two_tasks_ok, where tx = "the (task_memory two_tasks 0x2000)"])
      (simp_all add: two_tasks_def Let_def)
  then show ?thesis by (rule runs_mono) auto
qed



text \<open>
  C39. \<^verbatim>\<open>create_task\<close> owns the two frames \<open>f\<close> and \<open>f + 1\<close>, but \<^verbatim>\<open>STACK_LEN\<close> is eight frames: the descriptor and the first
  words of the stack are written to frame \<open>f + 7\<close>, which the task does not own and which the allocator still
  considers free if it was free before.
\<close>

theorem create_task_overruns:
  assumes "frame_allocator_cell st = Some a" "bitmap_inv a" "8 * length (bitmap a) \<le> 33554432"
    and "free_group (free_frames a) 1 g" "n \<noteq> 0" "unat n \<le> 4064"
  shows "runs (create_task ca n st task_fn context) (\<lambda>(p, st'). \<exists>t f a'. task_memory st' p = Some t
    \<and> range_frames (ofr_frames (stack_frames t)) = {f, f + 1}
    \<and> (\<forall>d \<in> {0, 8, 16, 24, 32}. unat (p - d) div 4096 = phys_base div 4096 + (f + 7))
    \<and> frame_allocator_cell st' = Some a' \<and> (f + 7 \<in> free_frames a' \<longleftrightarrow> f + 7 \<in> free_frames a))"
proof -
  have n: "unat n \<le> 32736" using assms(6) by simp
  obtain fr a' where r: "allocate_range a 1 = ret (Some fr, a')" "unat (fr_count fr) = 2" "fidx (fr_first fr) < 33554432"
    and eq: "let p = new_task_ptr n (fidx (fr_first fr)) in
       create_task ca n st task_fn context = ret (p, st\<lparr>frame_allocator_cell := Some a',
         task_memory := (task_memory st)(p \<mapsto> \<lparr>stack_frames = \<lparr>ofr_frames = fr\<rparr>, rsp = Some (p - 32), prev_in_list = None, next_in_list = None\<rparr>),
         word_memory := (word_memory st)(p - 8 := 0, p - 16 := task_fn, p - 24 := context, p - 32 := ca_task_init_trampoline ca)\<rparr>)"
    using create_task_eq [OF assms(1-5) n] by blast
  let ?f = "fidx (fr_first fr)" and ?p = "new_task_ptr n (fidx (fr_first fr))"
  have up: "unat ?p = phys_base + 4096 * ?f + 32768 - unat n" using unat_new_task_ptr [OF r(3)] n by simp
  have n0: "0 < unat n" using assms(5) by (simp add: unat_gt_0)
  have fr7: "unat (?p - d) div 4096 = phys_base div 4096 + (?f + 7)" if d: "unat d \<le> 32" for d
  proof -
    have "unat d \<le> unat ?p" using up d n by (simp add: phys_base_def)
    then have "unat (?p - d) = unat ?p - unat d" by (simp only: unat_sub_exact word_le_nat_alt)
    also have "\<dots> = 4096 * (phys_base div 4096 + (?f + 7)) + (4096 - unat n - unat d)"
      using up d assms(6) by (simp add: phys_base_def)
    finally show ?thesis using n0 by simp
  qed
  have "\<forall>d \<in> {0, 8, 16, 24, 32}. unat (?p - d) div 4096 = phys_base div 4096 + (?f + 7)" by (intro ballI fr7) auto
  moreover have "range_frames fr = {?f, ?f + 1}" using r(2) by (auto simp: range_frames_def)
  moreover have "free_frames a' = free_frames a - range_frames fr"
    using ba.alloc_some [OF assms(2) _ assms(4)] r(1) by (auto simp: sound_orders_def)
  ultimately show ?thesis using eq by (simp add: Let_def)
qed

theorem create_task_overruns_witness:
  "runs (create_task \<lparr>ca_clean_quit_task = 1, ca_restore_task_state = 2, ca_task_init_trampoline = 3, ca_kernel_main_init_fn = 4, ca_idle_task_fn = 5\<rparr>
      72 (two_tasks\<lparr>frame_allocator_cell := Some \<lparr>bitmap = [0x0F, 0xFF]\<rparr>\<rparr>) 7 8)
    (\<lambda>(p, st'). \<exists>t f. task_memory st' p = Some t \<and> range_frames (ofr_frames (stack_frames t)) = {f, f + 1}
      \<and> unat p div 4096 = phys_base div 4096 + (f + 7))"
proof -
  let ?a = "\<lparr>bitmap = [0x0F, 0xFF]\<rparr>"
  have "{2..<4} = {2, 3 :: nat}" by auto
  moreover have "{2, 3} \<subseteq> free_frames ?a" by (simp add: free_frames_def free_bits_def)
  ultimately have g: "free_group (free_frames ?a) 1 2" by (simp add: free_group_def)
  show ?thesis by (rule runs_mono [OF create_task_overruns [OF _ _ _ g]]) (auto simp: bitmap_inv_def)
qed

end
