(* ===== verification/Interrupts.thy ===== *)
theory Interrupts
  imports Rust_Prelude
begin

text \<open>
  \<^verbatim>\<open>src/idt.rs\<close> and \<^verbatim>\<open>src/pic.rs\<close>: the interrupt descriptor table and the two interrupt controllers.

  The table type of the \<^verbatim>\<open>x86_64\<close> crate is a list of 256 entries, its named fields the entries with the vector
  numbers of the architecture; \<open>indexable\<close>, the numbers for which its \<^verbatim>\<open>Index\<close> does not panic, is an argument. Port
  input and output is an argument as well (\<open>port_io\<close>), on a state \<open>'h\<close> that stands for the hardware and all else the
  kernel's handlers act on; so is what a handler does (\<open>call\<close>). A handler runs while \<^verbatim>\<open>IRQ_HANDLERS\<close> is locked, so it
  cannot change that table. What the code relies on of the controllers is \<open>pic_8259\<close>, from their data sheet.
\<close>

section \<open>Model\<close>

subsection \<open>The interrupt descriptor table\<close>

datatype handler_fn = Divide_error_handler | Debug_handler | Nmi_handler | Breakpoint_handler | Overflow_handler
  | Bound_range_exceeded_handler | Invalid_opcode_handler | Device_not_available_handler | Double_fault_handler
  | Invalid_tss_handler | Segment_not_present_handler | Stack_segment_fault_handler | General_protection_fault_handler
  | Page_fault_handler | X87_floating_point_handler | Alignment_check_handler | Machine_check_handler
  | Simd_floating_point_handler | Virtualization_handler | Security_exception_handler | Unrecognized_exception_handler
  | Handle_irq u8

datatype idt_entry = Missing | Handler handler_fn

record idt_state =
  IDT :: "idt_entry list"
  IS_INITIALIZED :: bool
  idt_loaded :: bool

definition idt_new :: idt_state where
  "idt_new = \<lparr>IDT = replicate 256 Missing, IS_INITIALIZED = False, idt_loaded = False\<rparr>"

text \<open>\<^verbatim>\<open>idt[i] = ...\<close> and \<^verbatim>\<open>idt[i].set_handler_fn(...)\<close>\<close>

definition set_entry :: "(nat \<Rightarrow> bool) \<Rightarrow> nat \<Rightarrow> idt_entry \<Rightarrow> idt_entry list \<Rightarrow> idt_entry list rust" where
  "set_entry indexable i e idt = (if indexable i then store idt i e else throw OutOfBounds)"

text \<open>The fields that have a name, with their vectors, in the order in which \<^verbatim>\<open>init_impl\<close> sets them.\<close>

definition named_before :: "(nat \<times> handler_fn) list" where
  "named_before = [(0, Divide_error_handler), (1, Debug_handler), (2, Nmi_handler), (3, Breakpoint_handler), (4, Overflow_handler),
     (5, Bound_range_exceeded_handler), (6, Invalid_opcode_handler), (7, Device_not_available_handler), (8, Double_fault_handler)]"

definition named_after :: "(nat \<times> handler_fn) list" where
  "named_after = [(10, Invalid_tss_handler), (11, Segment_not_present_handler), (12, Stack_segment_fault_handler),
     (13, General_protection_fault_handler), (14, Page_fault_handler), (16, X87_floating_point_handler), (17, Alignment_check_handler),
     (18, Machine_check_handler), (19, Simd_floating_point_handler), (20, Virtualization_handler), (30, Security_exception_handler)]"

definition set_named :: "(nat \<times> handler_fn) list \<Rightarrow> idt_entry list \<Rightarrow> idt_entry list" where
  "set_named fs idt = foldl (\<lambda>idt (i, f). idt[i := Handler f]) idt fs"

primrec clear_entries :: "(nat \<Rightarrow> bool) \<Rightarrow> nat list \<Rightarrow> idt_entry list \<Rightarrow> idt_entry list rust" where
  "clear_entries indexable [] idt = ret idt"
| "clear_entries indexable (i # is) idt = bnd (set_entry indexable i Missing idt) (clear_entries indexable is)"

definition idt_init_impl :: "(nat \<Rightarrow> bool) \<Rightarrow> idt_state \<Rightarrow> idt_state rust" where
  "idt_init_impl indexable st =
     bnd (rassert (\<not> IS_INITIALIZED st)) (\<lambda>_.
     bnd (set_entry indexable 9 (Handler Unrecognized_exception_handler) (set_named named_before (IDT st))) (\<lambda>idt.
     bnd (clear_entries indexable [32..<256] (set_named named_after idt)) (\<lambda>idt.
     ret \<lparr>IDT = idt, IS_INITIALIZED = True, idt_loaded = True\<rparr>)))"

definition install_interrupt_handler :: "(nat \<Rightarrow> bool) \<Rightarrow> u8 \<Rightarrow> handler_fn option \<Rightarrow> idt_entry list \<Rightarrow> idt_entry list rust" where
  "install_interrupt_handler indexable num maybe_handler idt =
     (case maybe_handler of
       Some handler \<Rightarrow> set_entry indexable (unat num) (Handler handler) idt
     | None \<Rightarrow> set_entry indexable (unat num) Missing idt)"

text \<open>The text at the front of each default handler's panic message.\<close>

fun panic_text :: "handler_fn \<Rightarrow> string" where
  "panic_text Divide_error_handler = ''divide error 0''"
| "panic_text Debug_handler = ''debug 1''"
| "panic_text Nmi_handler = ''NMI 2''"
| "panic_text Breakpoint_handler = ''breakpoint 3''"
| "panic_text Overflow_handler = ''overflow 4''"
| "panic_text Bound_range_exceeded_handler = ''bound range exceeded 5''"
| "panic_text Invalid_opcode_handler = ''invalid opcode 6''"
| "panic_text Device_not_available_handler = ''device not available 7''"
| "panic_text Double_fault_handler = ''double fault 8''"
| "panic_text Invalid_tss_handler = ''invalid TSS 10''"
| "panic_text Segment_not_present_handler = ''segment not present 11''"
| "panic_text Stack_segment_fault_handler = ''stack segment fault 12''"
| "panic_text General_protection_fault_handler = ''general protection fault 13''"
| "panic_text Page_fault_handler = ''page fault 14''"
| "panic_text X87_floating_point_handler = ''x87 floating point 16''"
| "panic_text Alignment_check_handler = ''alignment check 17''"
| "panic_text Machine_check_handler = ''machine check 18''"
| "panic_text Simd_floating_point_handler = ''SIMD floating point 19''"
| "panic_text Virtualization_handler = ''virtualization 20''"
| "panic_text Security_exception_handler = ''security exception 30''"
| "panic_text Unrecognized_exception_handler = ''unrecognized exception''"
| "panic_text (Handle_irq n) = []"

subsection \<open>The interrupt controllers\<close>

type_synonym port = "16 word"

record 'h port_io =
  out8 :: "port \<Rightarrow> u8 \<Rightarrow> 'h \<Rightarrow> 'h"
  in8 :: "port \<Rightarrow> 'h \<Rightarrow> u8 \<times> 'h"

record pic_regs =
  cmd_1 :: port
  cmd_2 :: port
  data_1 :: port
  data_2 :: port

definition PIC_REGS :: pic_regs where
  "PIC_REGS = \<lparr>cmd_1 = 0x20, cmd_2 = 0xa0, data_1 = 0x21, data_2 = 0xa1\<rparr>"

definition IRQ_INTERRUPT_OFFSET :: u8 where
  "IRQ_INTERRUPT_OFFSET = 32"

definition IRQS_PER_PIC :: u8 where
  "IRQS_PER_PIC = 8"

definition PIC_COMMAND_READ_ISR :: u8 where
  "PIC_COMMAND_READ_ISR = 0x0b"

definition PIC_COMMAND_ACKNOWLEDGE_IRQ :: u8 where
  "PIC_COMMAND_ACKNOWLEDGE_IRQ = 0x20"

text \<open>The sixteen calls of \<^verbatim>\<open>install_interrupt_handler\<close>.\<close>

primrec install_irq_entries :: "(nat \<Rightarrow> bool) \<Rightarrow> u8 list \<Rightarrow> idt_entry list \<Rightarrow> idt_entry list rust" where
  "install_irq_entries indexable [] idt = ret idt"
| "install_irq_entries indexable (n # ns) idt =
     bnd (u_add IRQ_INTERRUPT_OFFSET n) (\<lambda>v.
     bnd (install_interrupt_handler indexable v (Some (Handle_irq n)) idt) (install_irq_entries indexable ns))"

definition pic_init_impl :: "'h port_io \<Rightarrow> (nat \<Rightarrow> bool) \<Rightarrow> 'h \<Rightarrow> idt_entry list \<Rightarrow> ('h \<times> idt_entry list) rust" where
  "pic_init_impl io indexable h idt =
     bnd (u_add IRQ_INTERRUPT_OFFSET IRQS_PER_PIC) (\<lambda>off2.
     let h = out8 io (cmd_1 PIC_REGS) 0x11 h;
         h = out8 io (cmd_2 PIC_REGS) 0x11 h;
         h = out8 io (data_1 PIC_REGS) IRQ_INTERRUPT_OFFSET h;
         h = out8 io (data_2 PIC_REGS) off2 h;
         h = out8 io (data_1 PIC_REGS) 4 h;
         h = out8 io (data_2 PIC_REGS) 2 h;
         h = out8 io (data_1 PIC_REGS) 1 h;
         h = out8 io (data_2 PIC_REGS) 1 h;
         h = out8 io (data_1 PIC_REGS) 0xff h;
         h = out8 io (data_2 PIC_REGS) 0xff h in
     bnd (install_irq_entries indexable [0, 1, 2, 3, 4, 5, 6, 7, 8, 9, 10, 11, 12, 13, 14, 15] idt) (\<lambda>idt.
     ret (h, idt)))"

record ('f, 'h) irq_state =
  IRQ_HANDLERS :: "'f option list"
  hw :: 'h

definition set_mask :: "'h port_io \<Rightarrow> port \<Rightarrow> u8 \<Rightarrow> bool \<Rightarrow> 'h \<Rightarrow> 'h rust" where
  "set_mask io data_port irq_line on h =
     (let (old_mask, h) = in8 io data_port h in
      bnd (u_shl 1 (unat irq_line)) (\<lambda>b.
      let new_mask = (if on then old_mask OR b else old_mask AND NOT b) in
      ret (out8 io data_port new_mask h)))"

definition install_irq_handler :: "'h port_io \<Rightarrow> u8 \<Rightarrow> 'f option \<Rightarrow> ('f, 'h) irq_state \<Rightarrow> ('f, 'h) irq_state rust" where
  "install_irq_handler io irq_num maybe_handler st =
     bnd (u_mul IRQS_PER_PIC 2) (\<lambda>irqs.
     bnd (rassert (irq_num < irqs)) (\<lambda>_.
     bnd (case maybe_handler of
         Some handler \<Rightarrow>
           bnd (index (IRQ_HANDLERS st) (unat irq_num)) (\<lambda>h.
           bnd (rassert (Option.is_none h)) (\<lambda>_.
           store (IRQ_HANDLERS st) (unat irq_num) (Some handler)))
       | None \<Rightarrow> store (IRQ_HANDLERS st) (unat irq_num) None) (\<lambda>handlers.
     let should_mask_irq = Option.is_none maybe_handler; irq_chip = (if irq_num < 8 then 0 else 1) in
     bnd (u_mul 8 irq_chip) (\<lambda>k.
     bnd (u_sub irq_num k) (\<lambda>irq_line.
     bnd (if irq_chip = 0 then set_mask io (data_1 PIC_REGS) irq_line should_mask_irq (hw st)
       else set_mask io (data_2 PIC_REGS) irq_line should_mask_irq (hw st)) (\<lambda>h.
     ret \<lparr>IRQ_HANDLERS = handlers, hw = h\<rparr>))))))"

definition is_spurious :: "'h port_io \<Rightarrow> u8 \<Rightarrow> 'h \<Rightarrow> bool \<times> 'h" where
  "is_spurious io irq_num h =
     (if irq_num \<noteq> 7 \<and> irq_num \<noteq> 15 then (False, h)
      else
        let (isr, h) = (if irq_num = 7 then in8 io (data_1 PIC_REGS) (out8 io (cmd_1 PIC_REGS) PIC_COMMAND_READ_ISR h)
              else in8 io (data_2 PIC_REGS) (out8 io (cmd_2 PIC_REGS) PIC_COMMAND_READ_ISR h));
            spurious = (isr AND 0x80 \<noteq> 0);
            h = (if irq_num = 15 then out8 io (cmd_1 PIC_REGS) PIC_COMMAND_ACKNOWLEDGE_IRQ h else h) in
        (spurious, h))"

definition acknowledge_irq :: "'h port_io \<Rightarrow> u8 \<Rightarrow> 'h \<Rightarrow> 'h" where
  "acknowledge_irq io irq_num h =
     (let h = (if irq_num \<ge> 8 then out8 io (cmd_2 PIC_REGS) PIC_COMMAND_ACKNOWLEDGE_IRQ h else h) in
      out8 io (cmd_1 PIC_REGS) PIC_COMMAND_ACKNOWLEDGE_IRQ h)"

definition handle_irq ::
  "'h port_io \<Rightarrow> ('f \<Rightarrow> 's \<Rightarrow> 'h \<Rightarrow> 'h rust) \<Rightarrow> u8 \<Rightarrow> 's \<Rightarrow> ('f, 'h) irq_state \<Rightarrow> ('f, 'h) irq_state rust" where
  "handle_irq io call irq_num stack st =
     (let (spurious, h) = is_spurious io irq_num (hw st); st = st\<lparr>hw := h\<rparr> in
      if spurious then ret st
      else
        bnd (index (IRQ_HANDLERS st) (unat irq_num)) (\<lambda>handler.
        bnd (case handler of Some f \<Rightarrow> call f stack (hw st) | None \<Rightarrow> throw Explicit) (\<lambda>h.
        ret (st\<lparr>hw := acknowledge_irq io irq_num h\<rparr>))))"

text \<open>The functions the table refers to: the default handlers panic, and \<^verbatim>\<open>handle_irq0\<close> to \<^verbatim>\<open>handle_irq15\<close> call \<^verbatim>\<open>handle_irq\<close>.\<close>

definition run_handler ::
  "'h port_io \<Rightarrow> ('f \<Rightarrow> 's \<Rightarrow> 'h \<Rightarrow> 'h rust) \<Rightarrow> handler_fn \<Rightarrow> 's \<Rightarrow> ('f, 'h) irq_state \<Rightarrow> ('f, 'h) irq_state rust" where
  "run_handler io call f stack st =
     (case f of Handle_irq n \<Rightarrow> handle_irq io call n stack st | _ \<Rightarrow> throw Explicit)"

section \<open>The interrupt controllers' documented behaviour\<close>

text \<open>
  What an 8259 does with its two ports: the command \<open>0x11\<close> starts an initialisation that takes the next three
  data writes, otherwise the data port is the interrupt mask; the command \<open>0x20\<close> ends an interrupt. Reading the
  data port gives the mask, whatever register a command has selected: that selection is for reads of the
  command port.
\<close>

record pic_chip =
  icw :: nat
  imr :: u8
  eois :: nat

definition chip_command :: "u8 \<Rightarrow> pic_chip \<Rightarrow> pic_chip" where
  "chip_command v c = (if v = 0x11 then c\<lparr>icw := 3, imr := 0\<rparr> else if v = 0x20 then c\<lparr>eois := Suc (eois c)\<rparr> else c)"

definition chip_data :: "u8 \<Rightarrow> pic_chip \<Rightarrow> pic_chip" where
  "chip_data v c = (if 0 < icw c then c\<lparr>icw := icw c - 1\<rparr> else c\<lparr>imr := v\<rparr>)"

definition pic_8259 :: "'h port_io \<Rightarrow> ('h \<Rightarrow> pic_chip) \<Rightarrow> ('h \<Rightarrow> pic_chip) \<Rightarrow> bool" where
  "pic_8259 io c1 c2 \<longleftrightarrow> (\<forall>h v.
     c1 (out8 io 0x20 v h) = chip_command v (c1 h) \<and> c2 (out8 io 0x20 v h) = c2 h
   \<and> c1 (out8 io 0x21 v h) = chip_data v (c1 h) \<and> c2 (out8 io 0x21 v h) = c2 h
   \<and> c1 (out8 io 0xa0 v h) = c1 h \<and> c2 (out8 io 0xa0 v h) = chip_command v (c2 h)
   \<and> c1 (out8 io 0xa1 v h) = c1 h \<and> c2 (out8 io 0xa1 v h) = chip_data v (c2 h)
   \<and> fst (in8 io 0x21 h) = imr (c1 h) \<and> c1 (snd (in8 io 0x21 h)) = c1 h \<and> c2 (snd (in8 io 0x21 h)) = c2 h
   \<and> fst (in8 io 0xa1 h) = imr (c2 h) \<and> c1 (snd (in8 io 0xa1 h)) = c1 h \<and> c2 (snd (in8 io 0xa1 h)) = c2 h)"

text \<open>The code's invariant: a line is masked exactly when it has no handler.\<close>

definition masks_ok :: "('h \<Rightarrow> pic_chip) \<Rightarrow> ('h \<Rightarrow> pic_chip) \<Rightarrow> ('f, 'h) irq_state \<Rightarrow> bool" where
  "masks_ok c1 c2 st \<longleftrightarrow> length (IRQ_HANDLERS st) = 16 \<and> icw (c1 (hw st)) = 0 \<and> icw (c2 (hw st)) = 0
   \<and> (\<forall>n < 8. (bit (imr (c1 (hw st))) n \<longleftrightarrow> IRQ_HANDLERS st ! n = None) \<and> (bit (imr (c2 (hw st))) n \<longleftrightarrow> IRQ_HANDLERS st ! (8 + n) = None))"

text \<open>
  The second controller's interrupts come through line 2 of the first one, as \<^verbatim>\<open>init_impl\<close> configures them (the data
  \<^verbatim>\<open>4\<close> and \<^verbatim>\<open>2\<close>). \<open>line_open\<close>: the processor sees the line.
\<close>

definition line_open :: "pic_chip \<Rightarrow> pic_chip \<Rightarrow> nat \<Rightarrow> bool" where
  "line_open c1 c2 n \<longleftrightarrow> (if n < 8 then \<not> bit (imr c1) n else \<not> bit (imr c1) 2 \<and> \<not> bit (imr c2) (n - 8))"

lemmas pic_const_defs = PIC_REGS_def IRQ_INTERRUPT_OFFSET_def IRQS_PER_PIC_def PIC_COMMAND_READ_ISR_def PIC_COMMAND_ACKNOWLEDGE_IRQ_def

lemma pic_8259D:
  assumes "pic_8259 io c1 c2"
  shows "c1 (out8 io 0x20 v h) = chip_command v (c1 h)" "c2 (out8 io 0x20 v h) = c2 h"
    "c1 (out8 io 0x21 v h) = chip_data v (c1 h)" "c2 (out8 io 0x21 v h) = c2 h"
    "c1 (out8 io 0xa0 v h) = c1 h" "c2 (out8 io 0xa0 v h) = chip_command v (c2 h)"
    "c1 (out8 io 0xa1 v h) = c1 h" "c2 (out8 io 0xa1 v h) = chip_data v (c2 h)"
    "fst (in8 io 0x21 h) = imr (c1 h)" "c1 (snd (in8 io 0x21 h)) = c1 h" "c2 (snd (in8 io 0x21 h)) = c2 h"
    "fst (in8 io 0xa1 h) = imr (c2 h)" "c1 (snd (in8 io 0xa1 h)) = c1 h" "c2 (snd (in8 io 0xa1 h)) = c2 h"
  using assms by (simp_all add: pic_8259_def)

subsection \<open>Masks\<close>

lemma set_mask_eq:
  assumes "unat line < 8"
  shows "set_mask io p line on h =
    ret (out8 io p (if on then fst (in8 io p h) OR push_bit (unat line) 1 else fst (in8 io p h) AND NOT (push_bit (unat line) 1)) (snd (in8 io p h)))"
  using assms by (simp add: set_mask_def u_shl_def Let_def split: prod.split)

lemma bit_set_mask:
  assumes "k < 8" "n < 8"
  shows "bit ((if on then (m :: u8) OR push_bit k 1 else m AND NOT (push_bit k 1))) n \<longleftrightarrow> (if n = k then on else bit m n)"
  using assms by (auto simp: bit_or_iff bit_and_iff bit_not_iff bit_exp_iff)

text \<open>Where \<^verbatim>\<open>install_irq_handler\<close> finds the line.\<close>

lemma install_irq_handler_eq:
  assumes "length (IRQ_HANDLERS st) = 16"
  shows "install_irq_handler io n maybe st =
    (if unat n \<ge> 16 \<or> maybe \<noteq> None \<and> IRQ_HANDLERS st ! unat n \<noteq> None then throw AssertFailed
     else bnd (if unat n < 8 then set_mask io 0x21 n (maybe = None) (hw st) else set_mask io 0xa1 (n - 8) (maybe = None) (hw st))
       (\<lambda>h. ret \<lparr>IRQ_HANDLERS = (IRQ_HANDLERS st)[unat n := maybe], hw = h\<rparr>))"
proof -
  have 1: "u_mul IRQS_PER_PIC 2 = ret 16" "u_mul 8 0 = ret (0 :: u8)" "u_mul 8 1 = ret (8 :: u8)"
    by (simp_all add: u_mul_def checked_mul_def IRQS_PER_PIC_def)
  have 2: "u_sub n 0 = ret n" "\<not> unat n < 8 \<Longrightarrow> u_sub n 8 = ret (n - 8)"
    by (simp_all add: u_sub_def checked_sub_def word_le_nat_alt)
  have 3: "n < 16 \<longleftrightarrow> unat n < 16" "n < 8 \<longleftrightarrow> unat n < 8" by (simp_all add: word_less_nat_alt)
  show ?thesis using assms 2
    by (cases maybe; cases "unat n < 8") (auto simp: install_irq_handler_def 1 3 rassert_def index_def store_def PIC_REGS_def Let_def Option.is_none_def)
qed

lemma install_irq_handler_masks:
  assumes io: "pic_8259 io c1 c2" and ok: "masks_ok c1 c2 st" and n: "unat n < 16" and free: "maybe = None \<or> IRQ_HANDLERS st ! unat n = None"
  shows "runs (install_irq_handler io n maybe st) (\<lambda>st'. masks_ok c1 c2 st' \<and> IRQ_HANDLERS st' = (IRQ_HANDLERS st)[unat n := maybe])"
proof (cases "unat n < 8")
  case True
  then show ?thesis using ok free n
    by (simp add: install_irq_handler_eq masks_ok_def set_mask_eq pic_8259D [OF io] chip_data_def bit_set_mask nth_list_update)
next
  case False
  then have m: "unat (n - 8) = unat n - 8" by (subst unat_sub_exact) (simp_all add: word_le_nat_alt)
  then have "unat (n - 8) < 8" using n by simp
  then show ?thesis using ok free n False
    by (auto simp: install_irq_handler_eq masks_ok_def set_mask_eq pic_8259D [OF io] chip_data_def bit_set_mask nth_list_update m)
qed

subsection \<open>The table after initialisation\<close>

definition exception_vectors :: "(nat \<times> handler_fn) list" where
  "exception_vectors = named_before @ [(9, Unrecognized_exception_handler)] @ named_after"

definition vector_entry :: "nat \<Rightarrow> idt_entry" where
  "vector_entry v = (if v < 32 then (case map_of exception_vectors v of None \<Rightarrow> Missing | Some f \<Rightarrow> Handler f)
     else if v < 48 then Handler (Handle_irq (of_nat (v - 32))) else Missing)"

definition decimal :: "nat \<Rightarrow> string" where
  "decimal n = (if n < 10 then [char_of (48 + n)] else [char_of (48 + n div 10), char_of (48 + n mod 10)])"

lemma length_set_named [simp]: "length (set_named fs idt) = length idt"
  by (induction fs arbitrary: idt) (auto simp: set_named_def)

lemma nth_set_named:
  "distinct (map fst fs) \<Longrightarrow> v < length idt \<Longrightarrow> set_named fs idt ! v = (case map_of fs v of None \<Rightarrow> idt ! v | Some f \<Rightarrow> Handler f)"
proof (induction fs arbitrary: idt)
  case (Cons p fs)
  obtain i f where p: "p = (i, f)" by (cases p)
  have "set_named (p # fs) idt = set_named fs (idt[i := Handler f])" by (simp add: set_named_def p)
  moreover have "map_of fs i = None" using Cons.prems(1) p by (auto simp: map_of_eq_None_iff)
  ultimately show ?case using Cons.IH [of "idt[i := Handler f]"] Cons.prems p by (auto simp: nth_list_update split: option.splits)
qed (simp add: set_named_def)

lemma clear_entries_ok:
  "\<forall>i \<in> set is. indexable i \<and> i < length idt \<Longrightarrow> \<exists>idt'. clear_entries indexable is idt = ret idt' \<and> length idt' = length idt
    \<and> (\<forall>v < length idt. idt' ! v = (if v \<in> set is then Missing else idt ! v))"
proof (induction "is" arbitrary: idt)
  case (Cons i "is")
  then obtain idt' where "clear_entries indexable is (idt[i := Missing]) = ret idt'" "length idt' = length idt"
    "\<forall>v < length idt. idt' ! v = (if v \<in> set is then Missing else idt[i := Missing] ! v)"
    using Cons.IH [of "idt[i := Missing]"] by auto
  then show ?case using Cons.prems by (auto simp: set_entry_def store_def nth_list_update)
qed simp

lemma install_irq_entries_ok:
  "\<forall>n \<in> set ns. indexable (32 + unat n) \<and> 32 + unat n < length idt \<Longrightarrow> length idt = 256 \<Longrightarrow>
   \<exists>idt'. install_irq_entries indexable ns idt = ret idt' \<and> length idt' = length idt
    \<and> (\<forall>v < length idt. idt' ! v = (if v \<in> (\<lambda>n. 32 + unat n) ` set ns then Handler (Handle_irq (of_nat (v - 32))) else idt ! v))"
proof (induction ns arbitrary: idt)
  case (Cons n ns)
  let ?idt = "idt[32 + unat n := Handler (Handle_irq n)]"
  have "unat (32 + n) = 32 + unat n" using Cons.prems by (subst unat_add_exact) auto
  then have step: "install_irq_entries indexable (n # ns) idt = install_irq_entries indexable ns ?idt"
    using Cons.prems by (simp add: IRQ_INTERRUPT_OFFSET_def u_add_def checked_add_def install_interrupt_handler_def set_entry_def store_def)
  obtain idt' where idt': "install_irq_entries indexable ns ?idt = ret idt'" "length idt' = length ?idt"
    "\<forall>v < length ?idt. idt' ! v = (if v \<in> (\<lambda>n. 32 + unat n) ` set ns then Handler (Handle_irq (of_nat (v - 32))) else ?idt ! v)"
    using Cons.IH [of ?idt] Cons.prems by auto
  then show ?case unfolding step by (auto simp: nth_list_update)
qed simp

lemma idt_init_impl_ok:
  assumes "length (IDT st) = 256" "\<not> IS_INITIALIZED st" "\<forall>v < 32. IDT st ! v = Missing" "indexable 9" "\<forall>v \<in> {32..<256}. indexable v"
  shows "\<exists>st'. idt_init_impl indexable st = ret st' \<and> IS_INITIALIZED st' \<and> idt_loaded st' \<and> length (IDT st') = 256
    \<and> (\<forall>v < 256. IDT st' ! v = (if v < 32 then vector_entry v else Missing))"
proof -
  let ?idt1 = "(set_named named_before (IDT st))[9 := Handler Unrecognized_exception_handler]"
  have d: "distinct (map fst named_before)" "distinct (map fst named_after)" by (simp_all add: named_before_def named_after_def)
  have l: "length (set_named named_after ?idt1) = 256" using assms(1) by simp
  define vs where "vs = [32..<256 :: nat]"
  have vs: "set vs = {32..<256}" unfolding vs_def by (rule set_upt)
  obtain idt' where idt': "clear_entries indexable vs (set_named named_after ?idt1) = ret idt'" "length idt' = 256"
    "\<forall>v < 256. idt' ! v = (if v \<in> {32..<256} then Missing else set_named named_after ?idt1 ! v)"
    using clear_entries_ok [of vs indexable "set_named named_after ?idt1"] assms(5) l unfolding vs by auto
  have low: "set_named named_after ?idt1 ! v = vector_entry v" if v: "v < 32" for v
  proof -
    have "set_named named_after ?idt1 ! v = (case map_of named_after v of None \<Rightarrow> ?idt1 ! v | Some f \<Rightarrow> Handler f)"
      using v assms(1) by (intro nth_set_named [OF d(2)]) simp
    moreover have "set_named named_before (IDT st) ! v = (case map_of named_before v of None \<Rightarrow> Missing | Some f \<Rightarrow> Handler f)"
      using v assms(1,3) by (subst nth_set_named [OF d(1)]) (auto split: option.split)
    moreover have "map_of named_after 9 = None" "map_of named_before 9 = None" by (simp_all add: named_after_def named_before_def)
    moreover have "map_of named_before v = None \<or> map_of named_after v = None" by (auto simp: named_before_def named_after_def)
    ultimately show ?thesis using v assms(1)
      by (auto simp: vector_entry_def exception_vectors_def map_add_def nth_list_update split: option.splits)
  qed
  have "idt_init_impl indexable st = ret \<lparr>IDT = idt', IS_INITIALIZED = True, idt_loaded = True\<rparr>"
    unfolding idt_init_impl_def vs_def [symmetric] using assms(1,2,4) idt'(1) by (simp add: set_entry_def store_def)
  then show ?thesis using idt'(2,3) low by auto
qed

lemma pic_init_impl_ok:
  assumes io: "pic_8259 io c1 c2" and idt: "length idt = 256" and ix: "\<forall>v \<in> {32..<256}. indexable v"
  shows "\<exists>h' idt'. pic_init_impl io indexable h idt = ret (h', idt') \<and> masks_ok c1 c2 \<lparr>IRQ_HANDLERS = replicate 16 (None :: 'f option), hw = h'\<rparr>
    \<and> eois (c1 h') = eois (c1 h) \<and> eois (c2 h') = eois (c2 h)
    \<and> length idt' = 256 \<and> (\<forall>v < 256. idt' ! v = (if 32 \<le> v \<and> v < 48 then Handler (Handle_irq (of_nat (v - 32))) else idt ! v))"
proof -
  define ns :: "u8 list" where "ns = [0, 1, 2, 3, 4, 5, 6, 7, 8, 9, 10, 11, 12, 13, 14, 15]"
  have "ns = map of_nat [0..<16]" unfolding ns_def by code_simp
  then have "unat ` set ns = (\<lambda>i. unat (of_nat i :: u8)) ` {0..<16}" by (simp only: set_map set_upt image_image)
  also have "\<dots> = id ` {0..<16}" by (rule image_cong) (simp_all add: unat_of_nat_eq)
  finally have un: "unat ` set ns = {0..<16}" by simp
  then have ns: "\<forall>n \<in> set ns. unat n < 16" by auto
  have img: "(\<lambda>n. 32 + unat n) ` set ns = {32..<48}"
  proof -
    have "(\<lambda>n. 32 + unat n) ` set ns = (+) 32 ` (unat ` set ns)" by (simp only: image_image)
    also have "\<dots> = {32..<48}" unfolding un by simp
    finally show ?thesis .
  qed
  obtain idt' where idt': "install_irq_entries indexable ns idt = ret idt'" "length idt' = 256"
    "\<forall>v < 256. idt' ! v = (if v \<in> {32..<48} then Handler (Handle_irq (of_nat (v - 32))) else idt ! v)"
    using install_irq_entries_ok [of ns indexable idt] ix idt ns unfolding img by fastforce
  have off: "u_add IRQ_INTERRUPT_OFFSET IRQS_PER_PIC = ret 40" by (simp add: u_add_def checked_add_def pic_const_defs)
  let ?h1 = "out8 io 0x21 4 (out8 io 0xa1 40 (out8 io 0x21 32 (out8 io 0xa0 0x11 (out8 io 0x20 0x11 h))))"
  let ?h = "out8 io 0xa1 0xff (out8 io 0x21 0xff (out8 io 0xa1 1 (out8 io 0x21 1 (out8 io 0xa1 2 ?h1))))"
  have "pic_init_impl io indexable h idt = ret (?h, idt')"
    unfolding pic_init_impl_def off ns_def [symmetric] using idt'(1) by (simp add: pic_const_defs Let_def)
  moreover have c: "c1 ?h = (c1 h)\<lparr>icw := 0, imr := 0xff\<rparr>" "c2 ?h = (c2 h)\<lparr>icw := 0, imr := 0xff\<rparr>"
    by (simp_all add: pic_8259D [OF io] chip_command_def chip_data_def)
  have ones: "bit (0xff :: u8) n" if "n < 8" for n using that by (simp add: numeral_eq_Suc less_Suc_eq) auto
  have "masks_ok c1 c2 \<lparr>IRQ_HANDLERS = replicate 16 (None :: 'f option), hw = ?h\<rparr>"
    using ones by (simp add: masks_ok_def c nth_append)
  ultimately show ?thesis using idt'(2,3) c by auto
qed

section \<open>Properties\<close>

text \<open>
  Initialisation, on controllers that behave as documented. \<^verbatim>\<open>idt::init\<close> then \<^verbatim>\<open>pic::init\<close> return; each exception
  vector has the handler whose message ends in its number (vector 9 the handler for unrecognized exceptions),
  the vectors 32 to 47 the sixteen interrupt handlers, and every other vector none; every line is masked, and the
  table of handlers being empty this is the invariant of \<^verbatim>\<open>pic.rs\<close>. A second \<^verbatim>\<open>idt::init\<close> panics.
\<close>

lemma interrupt_init_correct:
  assumes "pic_8259 io c1 c2" "indexable 9" "\<forall>v \<in> {32..<256}. indexable v"
  shows "runs (idt_init_impl indexable idt_new) (\<lambda>st. IS_INITIALIZED st \<and> idt_loaded st \<and> idt_init_impl indexable st = throw AssertFailed
    \<and> runs (pic_init_impl io indexable h (IDT st)) (\<lambda>(h', idt). length idt = 256 \<and> (\<forall>v < 256. idt ! v = vector_entry v)
      \<and> masks_ok c1 c2 \<lparr>IRQ_HANDLERS = replicate 16 (None :: 'f option), hw = h'\<rparr>))
    \<and> (\<forall>(v, f) \<in> set (named_before @ named_after). \<exists>t. panic_text f = t @ decimal v)"
proof (intro conjI)
  obtain st where st: "idt_init_impl indexable idt_new = ret st" "IS_INITIALIZED st" "idt_loaded st" "length (IDT st) = 256"
    "\<forall>v < 256. IDT st ! v = (if v < 32 then vector_entry v else Missing)"
    using idt_init_impl_ok [of idt_new indexable] assms(2,3) by (auto simp: idt_new_def)
  obtain h' idt where p: "pic_init_impl io indexable h (IDT st) = ret (h', idt)" "masks_ok c1 c2 \<lparr>IRQ_HANDLERS = replicate 16 (None :: 'f option), hw = h'\<rparr>"
    "length idt = 256" "\<forall>v < 256. idt ! v = (if 32 \<le> v \<and> v < 48 then Handler (Handle_irq (of_nat (v - 32))) else IDT st ! v)"
    using pic_init_impl_ok [OF assms(1) st(4) assms(3)] by blast
  have "\<forall>v < 256. idt ! v = vector_entry v" using p(4) st(5) by (auto simp: vector_entry_def)
  then show "runs (idt_init_impl indexable idt_new) (\<lambda>st. IS_INITIALIZED st \<and> idt_loaded st \<and> idt_init_impl indexable st = throw AssertFailed
    \<and> runs (pic_init_impl io indexable h (IDT st)) (\<lambda>(h', idt). length idt = 256 \<and> (\<forall>v < 256. idt ! v = vector_entry v)
      \<and> masks_ok c1 c2 \<lparr>IRQ_HANDLERS = replicate 16 (None :: 'f option), hw = h'\<rparr>))"
    using st p by (simp add: idt_init_impl_def [of _ st] rassert_def)
  have "list_all (\<lambda>(v, f). drop (length (panic_text f) - length (decimal v)) (panic_text f) = decimal v) (named_before @ named_after)"
    by code_simp
  then show "\<forall>(v, f) \<in> set (named_before @ named_after). \<exists>t. panic_text f = t @ decimal v"
    unfolding list_all_iff by (metis (mono_tags, lifting) append_take_drop_id case_prodI2 case_prodD)
qed

text \<open>Two controllers and nothing else, as an instance of the hypothesis.\<close>

definition two_chips :: "(pic_chip \<times> pic_chip) port_io" where
  "two_chips = \<lparr>
     out8 = (\<lambda>p v (a, b). if p = 0x20 then (chip_command v a, b) else if p = 0x21 then (chip_data v a, b)
       else if p = 0xa0 then (a, chip_command v b) else if p = 0xa1 then (a, chip_data v b) else (a, b)),
     in8 = (\<lambda>p (a, b). (if p = 0x21 then imr a else if p = 0xa1 then imr b else 0, (a, b)))\<rparr>"

definition fresh_chips :: "pic_chip \<times> pic_chip" where
  "fresh_chips = (\<lparr>icw = 0, imr = 0xff, eois = 0\<rparr>, \<lparr>icw = 0, imr = 0xff, eois = 0\<rparr>)"

lemma two_chips_ok: "pic_8259 two_chips fst snd"
  by (simp add: pic_8259_def two_chips_def)

text \<open>
  C14. \<^verbatim>\<open>install_irq_handler\<close> keeps the invariant that a line is masked exactly when it has no handler. It panics for a
  line above 15 and for a line that already has a handler, and otherwise changes that line only. But the
  processor sees a line of the second controller only when line 2 of the first one is open too, which needs a
  handler for line 2 itself: installing a handler for a line from 8 on does not make it reachable.
\<close>

theorem install_irq_handler_correct:
  assumes "pic_8259 io c1 c2" "masks_ok c1 c2 st"
  shows "(if unat n \<ge> 16 \<or> maybe \<noteq> None \<and> IRQ_HANDLERS st ! unat n \<noteq> None then install_irq_handler io n maybe st = throw AssertFailed
      else runs (install_irq_handler io n maybe st) (\<lambda>st'. masks_ok c1 c2 st' \<and> IRQ_HANDLERS st' = (IRQ_HANDLERS st)[unat n := maybe]))
    \<and> (\<forall>k < 16. line_open (c1 (hw st)) (c2 (hw st)) k \<longleftrightarrow>
        IRQ_HANDLERS st ! k \<noteq> None \<and> (8 \<le> k \<longrightarrow> IRQ_HANDLERS st ! 2 \<noteq> None))"
proof (intro conjI allI impI)
  show "if unat n \<ge> 16 \<or> maybe \<noteq> None \<and> IRQ_HANDLERS st ! unat n \<noteq> None then install_irq_handler io n maybe st = throw AssertFailed
      else runs (install_irq_handler io n maybe st) (\<lambda>st'. masks_ok c1 c2 st' \<and> IRQ_HANDLERS st' = (IRQ_HANDLERS st)[unat n := maybe])"
    using install_irq_handler_masks [OF assms, of n maybe] assms(2) by (auto simp: install_irq_handler_eq masks_ok_def)
next
  fix k :: nat
  assume k: "k < 16"
  show "line_open (c1 (hw st)) (c2 (hw st)) k \<longleftrightarrow> IRQ_HANDLERS st ! k \<noteq> None \<and> (8 \<le> k \<longrightarrow> IRQ_HANDLERS st ! 2 \<noteq> None)"
  proof (cases "k < 8")
    case False
    then have "k - 8 < 8" "8 + (k - 8) = k" using k by auto
    then show ?thesis using assms(2) False unfolding line_open_def masks_ok_def by fastforce
  qed (use assms(2) in \<open>auto simp: line_open_def masks_ok_def\<close>)
qed

definition idle_irqs :: "(nat, pic_chip \<times> pic_chip) irq_state" where
  "idle_irqs = \<lparr>IRQ_HANDLERS = replicate 16 None, hw = fresh_chips\<rparr>"

lemma idle_irqs_ok: "masks_ok fst snd idle_irqs"
proof -
  have "bit (0xff :: u8) n" if "n < 8" for n using that by (simp add: numeral_eq_Suc less_Suc_eq) auto
  then show ?thesis by (simp add: masks_ok_def idle_irqs_def fresh_chips_def)
qed

theorem install_irq_handler_correct_witness:
  "runs (install_irq_handler two_chips 1 (Some 7) idle_irqs) (\<lambda>st'. masks_ok fst snd st' \<and> IRQ_HANDLERS st' = (replicate 16 None)[1 := Some 7])"
  using install_irq_handler_correct [OF two_chips_ok idle_irqs_ok, of 1 "Some 7"] by (simp add: idle_irqs_def)

lemma and_0x80: "(w :: u8) AND 0x80 \<noteq> 0 \<longleftrightarrow> bit w 7"
proof -
  have b: "bit (0x80 :: u8) n \<longleftrightarrow> n = 7" for n using bit_exp_iff [of 7 n, where 'a = u8] by auto
  have "w AND 0x80 \<noteq> 0 \<longleftrightarrow> (\<exists>n < 8. bit (w AND 0x80) n)" using bit_word_eqI [of "w AND 0x80" 0] by auto
  then show ?thesis unfolding bit_and_iff b by simp
qed

lemma is_spurious_eq:
  assumes io: "pic_8259 io c1 c2" and ok: "masks_ok c1 c2 st"
  shows "\<exists>h. is_spurious io n (hw st) = ((n = 7 \<or> n = 15) \<and> IRQ_HANDLERS st ! unat n = None, h)
    \<and> c1 h = (c1 (hw st))\<lparr>eois := eois (c1 (hw st)) + (if n = 15 then 1 else 0)\<rparr> \<and> c2 h = c2 (hw st)"
proof -
  have m: "bit (imr (c1 (hw st))) 7 \<longleftrightarrow> IRQ_HANDLERS st ! 7 = None" "bit (imr (c2 (hw st))) 7 \<longleftrightarrow> IRQ_HANDLERS st ! 15 = None"
    using ok by (auto simp: masks_ok_def)
  consider "n = 7" | "n = 15" | "n \<noteq> 7" "n \<noteq> 15" by blast
  then show ?thesis
    by cases (auto simp: is_spurious_def pic_const_defs Let_def split_beta pic_8259D [OF io] chip_command_def and_0x80 m)
qed

text \<open>
  C15. \<^verbatim>\<open>handle_irq\<close>, with handlers that return and leave the controllers alone. A line with a handler has it called
  once and is acknowledged at its controllers. Because \<^verbatim>\<open>is_spurious\<close> reads the in-service register through the
  data port, which gives the mask, an interrupt counts as spurious exactly when line 7 or 15 has no handler: a
  real spurious interrupt is handled and acknowledged like any other. Line 15 is acknowledged twice at the
  first controller. Without a handler every other line panics.
\<close>

theorem handle_irq_correct:
  assumes "pic_8259 io c1 c2" "masks_ok c1 c2 st" "unat n < 16"
    and "\<forall>f h. runs (call f stack h) (\<lambda>h'. c1 h' = c1 h \<and> c2 h' = c2 h)"
  shows "fst (is_spurious io n (hw st)) = ((n = 7 \<or> n = 15) \<and> IRQ_HANDLERS st ! unat n = None)
    \<and> (case IRQ_HANDLERS st ! unat n of
      None \<Rightarrow> (if n = 7 \<or> n = 15 then runs (handle_irq io call n stack st) (\<lambda>st'. masks_ok c1 c2 st' \<and> IRQ_HANDLERS st' = IRQ_HANDLERS st
            \<and> eois (c1 (hw st')) = eois (c1 (hw st)) + (if n = 15 then 1 else 0) \<and> eois (c2 (hw st')) = eois (c2 (hw st)))
          else handle_irq io call n stack st = throw Explicit)
    | Some f \<Rightarrow> runs (handle_irq io call n stack st) (\<lambda>st'. masks_ok c1 c2 st' \<and> IRQ_HANDLERS st' = IRQ_HANDLERS st
          \<and> (\<exists>h. call f stack (snd (is_spurious io n (hw st))) = ret h \<and> hw st' = acknowledge_irq io n h)
          \<and> eois (c1 (hw st')) = eois (c1 (hw st)) + (if n = 15 then 2 else 1)
          \<and> eois (c2 (hw st')) = eois (c2 (hw st)) + (if n \<ge> 8 then 1 else 0)))"
proof -
  obtain h where h: "is_spurious io n (hw st) = ((n = 7 \<or> n = 15) \<and> IRQ_HANDLERS st ! unat n = None, h)"
    "c1 h = (c1 (hw st))\<lparr>eois := eois (c1 (hw st)) + (if n = 15 then 1 else 0)\<rparr>" "c2 h = c2 (hw st)"
    using is_spurious_eq [OF assms(1,2)] by blast
  have i: "index (IRQ_HANDLERS st) (unat n) = ret (IRQ_HANDLERS st ! unat n)" using assms(2,3) by (simp add: index_def masks_ok_def)
  have ok: "masks_ok c1 c2 (st\<lparr>hw := h'\<rparr>)" if "imr (c1 h') = imr (c1 (hw st))" "icw (c1 h') = icw (c1 (hw st))"
    "imr (c2 h') = imr (c2 (hw st))" "icw (c2 h') = icw (c2 (hw st))" for h' using assms(2) that by (simp add: masks_ok_def)
  show ?thesis
  proof (cases "IRQ_HANDLERS st ! unat n")
    case None
    then show ?thesis using h i ok [of h] by (simp add: handle_irq_def)
  next
    case (Some f)
    obtain h2 where h2: "call f stack h = ret h2" "c1 h2 = c1 h" "c2 h2 = c2 h" using assms(4) by (auto simp: runs_iff)
    let ?h3 = "acknowledge_irq io n h2"
    have c: "c1 ?h3 = (c1 h)\<lparr>eois := eois (c1 h) + 1\<rparr>" "c2 ?h3 = (c2 h)\<lparr>eois := eois (c2 h) + (if n \<ge> 8 then 1 else 0)\<rparr>"
      using h2 by (auto simp: acknowledge_irq_def pic_const_defs pic_8259D [OF assms(1)] chip_command_def)
    have "handle_irq io call n stack st = ret (st\<lparr>hw := ?h3\<rparr>)" using h(1) i Some h2(1) by (simp add: handle_irq_def)
    then show ?thesis using Some h h2(1) c ok [of ?h3] by auto
  qed
qed

theorem handle_irq_correct_witness:
  "runs (bnd (install_irq_handler two_chips 15 (Some 7) idle_irqs) (handle_irq two_chips (\<lambda>f s h. ret h) 15 ()))
    (\<lambda>st'. eois (fst (hw st')) = 2 \<and> eois (snd (hw st')) = 1)"
proof -
  obtain st where st: "install_irq_handler two_chips 15 (Some 7) idle_irqs = ret st" "masks_ok fst snd st"
    "IRQ_HANDLERS st ! 15 = Some 7" "eois (fst (hw st)) = 0" "eois (snd (hw st)) = 0"
  proof -
    let ?st = "projr (install_irq_handler two_chips 15 (Some 7) idle_irqs)"
    have e: "install_irq_handler two_chips 15 (Some 7) idle_irqs = ret ?st"
      using install_irq_handler_masks [OF two_chips_ok idle_irqs_ok, of 15 "Some 7"] by (auto simp: runs_iff idle_irqs_def)
    show thesis
    proof (rule that [OF e])
      show "masks_ok fst snd ?st" "IRQ_HANDLERS ?st ! 15 = Some 7"
        using install_irq_handler_masks [OF two_chips_ok idle_irqs_ok, of 15 "Some 7"] by (auto simp: runs_iff idle_irqs_def)
      show "eois (fst (hw ?st)) = 0" "eois (snd (hw ?st)) = 0" by code_simp+
    qed
  qed
  show ?thesis using handle_irq_correct [OF two_chips_ok st(2), of 15 "\<lambda>f s h. ret h" "()"] st by (auto simp: runs_iff)
qed

end
