(* ===== verification/Console.thy ===== *)
theory Console
  imports Interrupts
begin

text \<open>
  \<^verbatim>\<open>shared/src/vga.rs\<close>, \<^verbatim>\<open>shared/src/log.rs\<close> and the panic handler of \<^verbatim>\<open>src/kmain.rs\<close>: the text screen and the log.

  A Rust string is the list of its characters, each a 32-bit word. The screen's memory is the list of its bytes,
  and an access outside is undefined behaviour. Positions on the screen are natural numbers: no number the
  code computes from a writer made by \<^verbatim>\<open>new\<close> exceeds 4160 (the properties below show that the offset stays at
  most 2000). \<^verbatim>\<open>fmt::Arguments\<close> is the list of the pieces it writes; a locked mutex spins for ever.
\<close>

section \<open>Model\<close>

type_synonym rust_char = u32
type_synonym rust_str = "rust_char list"

definition str :: "string \<Rightarrow> rust_str" where
  "str s = map (\<lambda>c. of_nat (of_char c)) s"

subsection \<open>The text screen\<close>

definition ROWS :: nat where
  "ROWS = 25"

definition COLS :: nat where
  "COLS = 80"

record vga_writer =
  vmem :: "u8 list"
  offset :: nat

definition poke :: "u8 list \<Rightarrow> nat \<Rightarrow> u8 \<Rightarrow> u8 list rust" where
  "poke mem i b = (if i < length mem then ret (mem[i := b]) else throw BadPointer)"

text \<open>\<^verbatim>\<open>core::ptr::copy\<close>\<close>

definition ptr_copy :: "u8 list \<Rightarrow> nat \<Rightarrow> nat \<Rightarrow> nat \<Rightarrow> u8 list rust" where
  "ptr_copy mem src dst n = (if src + n \<le> length mem \<and> dst + n \<le> length mem
     then ret (take dst mem @ take n (drop src mem) @ drop (dst + n) mem) else throw BadPointer)"

primrec clear_cells :: "nat \<Rightarrow> nat list \<Rightarrow> u8 list \<Rightarrow> u8 list rust" where
  "clear_cells line [] mem = ret mem"
| "clear_cells line (i # is) mem = bnd (poke mem (2 * (i + line * COLS)) 0) (clear_cells line is)"

definition clear_line :: "vga_writer \<Rightarrow> nat \<Rightarrow> vga_writer rust" where
  "clear_line self line =
     bnd (rassert (line < ROWS)) (\<lambda>_.
     bnd (clear_cells line [0..<COLS] (vmem self)) (\<lambda>mem. ret (self\<lparr>vmem := mem\<rparr>)))"

primrec clear_lines :: "nat list \<Rightarrow> vga_writer \<Rightarrow> vga_writer rust" where
  "clear_lines [] self = ret self"
| "clear_lines (i # is) self = bnd (clear_line self i) (clear_lines is)"

definition vga_clear :: "vga_writer \<Rightarrow> vga_writer rust" where
  "vga_clear self = bnd (clear_lines [0..<ROWS] self) (\<lambda>self. ret (self\<lparr>offset := 0\<rparr>))"

definition vga_new :: "u8 list \<Rightarrow> vga_writer rust" where
  "vga_new mem = vga_clear \<lparr>vmem = mem, offset = 0\<rparr>"

definition scroll :: "vga_writer \<Rightarrow> nat \<Rightarrow> vga_writer rust" where
  "scroll self lines =
     (if lines = 0 then ret self
      else
        let lines = min lines ROWS in
        if lines = ROWS then vga_clear self
        else
          bnd (ptr_copy (vmem self) (lines * COLS * 2) 0 ((ROWS - lines) * COLS * 2)) (\<lambda>mem.
          bnd (clear_lines [ROWS - lines..<ROWS] (self\<lparr>vmem := mem\<rparr>)) (\<lambda>self.
          ret (self\<lparr>offset := offset self - lines * COLS\<rparr>))))"

definition vga_byte :: "rust_char \<Rightarrow> u8" where
  "vga_byte c = (if c < 128 then ucast c else 0x3f)"

definition write_char :: "vga_writer \<Rightarrow> rust_char \<Rightarrow> vga_writer rust" where
  "write_char self c =
     bnd (if offset self \<ge> ROWS * COLS
       then bnd (scroll self 1) (\<lambda>self. bnd (rassert (offset self < ROWS * COLS)) (\<lambda>_. ret self))
       else ret self) (\<lambda>self.
     if c = 10 then ret (self\<lparr>offset := ((offset self + COLS) div COLS) * COLS\<rparr>)
     else
       bnd (poke (vmem self) (2 * offset self) (vga_byte c)) (\<lambda>mem.
       ret (self\<lparr>vmem := mem, offset := offset self + 1\<rparr>)))"

primrec vga_write_str :: "vga_writer \<Rightarrow> rust_str \<Rightarrow> vga_writer rust" where
  "vga_write_str self [] = ret self"
| "vga_write_str self (c # cs) = bnd (write_char self c) (\<lambda>self. vga_write_str self cs)"

subsection \<open>The log\<close>

datatype level = Error | Warn | Info | Debug | Trace

fun level_as_string :: "level \<Rightarrow> string" where
  "level_as_string Error = ''ERROR''"
| "level_as_string Warn = '' WARN''"
| "level_as_string Info = '' INFO''"
| "level_as_string Debug = ''DEBUG''"
| "level_as_string Trace = ''TRACE''"

record log_record =
  lr_level :: level
  lr_target :: rust_str
  lr_args :: "rust_str list"

record 'w log_sink =
  writer :: 'w
  locked :: bool

definition log_sink_new :: "'w \<Rightarrow> 'w log_sink" where
  "log_sink_new w = \<lparr>writer = w, locked = False\<rparr>"

primrec write_pieces :: "('w \<Rightarrow> rust_str \<Rightarrow> 'w rust) \<Rightarrow> 'w \<Rightarrow> rust_str list \<Rightarrow> 'w rust" where
  "write_pieces write_str w [] = ret w"
| "write_pieces write_str w (p # ps) = bnd (write_str w p) (\<lambda>w. write_pieces write_str w ps)"

definition log_sink_log :: "('w \<Rightarrow> rust_str \<Rightarrow> 'w rust) \<Rightarrow> 'w log_sink \<Rightarrow> log_record \<Rightarrow> 'w log_sink rust" where
  "log_sink_log write_str self r =
     (if locked self then throw Diverges
      else
        bnd (write_pieces write_str (writer self)
          ([str ''['', str (level_as_string (lr_level r)), str ''] '', lr_target r, str '': ''] @ lr_args r @ [[10]])) (\<lambda>w.
        ret (self\<lparr>writer := w\<rparr>)))"

definition sink_is_locked :: "'w log_sink \<Rightarrow> bool" where
  "sink_is_locked self = locked self"

definition tee_log :: "('a \<Rightarrow> log_record \<Rightarrow> 'a rust) \<Rightarrow> ('b \<Rightarrow> log_record \<Rightarrow> 'b rust) \<Rightarrow> 'a \<times> 'b \<Rightarrow> log_record \<Rightarrow> ('a \<times> 'b) rust" where
  "tee_log log0 log1 self r = bnd (log0 (fst self) r) (\<lambda>a. bnd (log1 (snd self) r) (\<lambda>b. ret (a, b)))"

definition tee_is_locked :: "('a \<Rightarrow> bool) \<Rightarrow> ('b \<Rightarrow> bool) \<Rightarrow> 'a \<times> 'b \<Rightarrow> bool" where
  "tee_is_locked locked0 locked1 self \<longleftrightarrow> locked0 (fst self) \<or> locked1 (snd self)"

text \<open>\<^verbatim>\<open>str::bytes\<close>: the UTF-8 encoding.\<close>

definition utf8 :: "rust_char \<Rightarrow> u8 list" where
  "utf8 c = (if c < 0x80 then [ucast c]
     else if c < 0x800 then [0xc0 OR ucast (drop_bit 6 c), 0x80 OR ucast (c AND 0x3f)]
     else if c < 0x10000 then [0xe0 OR ucast (drop_bit 12 c), 0x80 OR ucast (drop_bit 6 c AND 0x3f), 0x80 OR ucast (c AND 0x3f)]
     else [0xf0 OR ucast (drop_bit 18 c), 0x80 OR ucast (drop_bit 12 c AND 0x3f), 0x80 OR ucast (drop_bit 6 c AND 0x3f), 0x80 OR ucast (c AND 0x3f)])"

definition qemu_write_str :: "'h port_io \<Rightarrow> 'h \<Rightarrow> rust_str \<Rightarrow> 'h rust" where
  "qemu_write_str io h s = ret (fold (out8 io 0xe9) (concat (map utf8 s)) h)"

subsection \<open>The panic handler\<close>

text \<open>
  Without \<^verbatim>\<open>qemu_debugcon\<close>, up to the halt: \<open>target\<close> is the module path the macro \<^verbatim>\<open>error!\<close> puts in, \<open>info\<close> the pieces of
  the message. A logger that is locked is left alone, and a new writer takes its screen.
\<close>

definition panic_report :: "rust_str \<Rightarrow> rust_str list \<Rightarrow> vga_writer log_sink \<Rightarrow> u8 list rust" where
  "panic_report target info LOGGER =
     (if \<not> sink_is_locked LOGGER
      then bnd (log_sink_log vga_write_str LOGGER \<lparr>lr_level = Error, lr_target = target, lr_args = info\<rparr>) (\<lambda>s. ret (vmem (writer s)))
      else
        bnd (vga_new (vmem (writer LOGGER))) (\<lambda>w.
        bnd (write_pieces vga_write_str w info) (\<lambda>w. ret (vmem w))))"

section \<open>The screen as a window on a page\<close>

text \<open>
  The specification: text is set on a page that only grows, eighty cells a line, and the screen is the window on
  the end of the page. \<open>gone\<close> is the number of lines that have left the screen.
\<close>

definition put_char :: "u8 list \<Rightarrow> rust_char \<Rightarrow> u8 list" where
  "put_char page c = (if c = 10 then page @ replicate (80 - length page mod 80) 0 else page @ [vga_byte c])"

definition typeset :: "u8 list \<Rightarrow> rust_str \<Rightarrow> u8 list" where
  "typeset page s = foldl put_char page s"

definition gone :: "nat \<Rightarrow> nat" where
  "gone n = (n - 2000 + 79) div 80"

definition screen_text :: "u8 list \<Rightarrow> u8 list" where
  "screen_text mem = map (\<lambda>i. mem ! (2 * i)) [0..<2000]"

definition window :: "u8 list \<Rightarrow> nat \<Rightarrow> u8 list" where
  "window page k = take 2000 (drop (80 * k) page @ replicate 2000 0)"

definition shows_page :: "vga_writer \<Rightarrow> u8 list \<Rightarrow> bool" where
  "shows_page w page \<longleftrightarrow> length (vmem w) = 4000 \<and> offset w = length page - 80 * gone (length page)
    \<and> screen_text (vmem w) = window page (gone (length page))"

lemma clear_cells_ok:
  "length mem = 4000 \<Longrightarrow> line < 25 \<Longrightarrow> \<forall>i \<in> set is. i < 80 \<Longrightarrow>
   \<exists>mem'. clear_cells line is mem = ret mem' \<and> length mem' = 4000
     \<and> (\<forall>j < 2000. mem' ! (2 * j) = (if j \<in> (\<lambda>i. i + line * 80) ` set is then 0 else mem ! (2 * j)))"
proof (induction "is" arbitrary: mem)
  case (Cons i "is")
  let ?p = "2 * (i + line * 80)"
  have p: "?p < 4000" using Cons.prems by simp
  obtain mem' where m: "clear_cells line is (mem[?p := 0]) = ret mem'" "length mem' = 4000"
    "\<forall>j < 2000. mem' ! (2 * j) = (if j \<in> (\<lambda>i. i + line * 80) ` set is then 0 else mem[?p := 0] ! (2 * j))"
    using Cons.IH [of "mem[?p := 0]"] Cons.prems by auto
  have "mem[?p := 0] ! (2 * j) = (if j = i + line * 80 then 0 else mem ! (2 * j))" for j
    using p Cons.prems(1) by (auto simp: nth_list_update)
  then show ?case using m p Cons.prems(1) by (auto simp: poke_def COLS_def)
qed simp

lemma clear_line_ok:
  assumes "length (vmem w) = 4000" "line < 25"
  shows "\<exists>mem. clear_line w line = ret (w\<lparr>vmem := mem\<rparr>) \<and> length mem = 4000
    \<and> (\<forall>j < 2000. mem ! (2 * j) = (if j div 80 = line then 0 else vmem w ! (2 * j)))"
proof -
  obtain mem where m: "clear_cells line [0..<COLS] (vmem w) = ret mem" "length mem = 4000"
    "\<forall>j < 2000. mem ! (2 * j) = (if j \<in> (\<lambda>i. i + line * 80) ` {0..<80} then 0 else vmem w ! (2 * j))"
    using clear_cells_ok [OF assms, of "[0..<COLS]"] unfolding set_upt COLS_def by auto
  have "j \<in> (\<lambda>i. i + line * 80) ` {0..<80} \<longleftrightarrow> j div 80 = line" for j
  proof
    assume "j div 80 = line"
    then have "j = j mod 80 + line * 80" using mod_div_mult_eq [of j 80] by simp
    then show "j \<in> (\<lambda>i. i + line * 80) ` {0..<80}" by (rule image_eqI) simp
  qed auto
  then show ?thesis using m assms(2) by (auto simp: clear_line_def ROWS_def)
qed

lemma clear_lines_ok:
  "length (vmem w) = 4000 \<Longrightarrow> \<forall>l \<in> set ls. l < 25 \<Longrightarrow>
   \<exists>mem. clear_lines ls w = ret (w\<lparr>vmem := mem\<rparr>) \<and> length mem = 4000
     \<and> (\<forall>j < 2000. mem ! (2 * j) = (if j div 80 \<in> set ls then 0 else vmem w ! (2 * j)))"
proof (induction ls arbitrary: w)
  case (Cons l ls)
  obtain mem1 where m1: "clear_line w l = ret (w\<lparr>vmem := mem1\<rparr>)" "length mem1 = 4000"
    "\<forall>j < 2000. mem1 ! (2 * j) = (if j div 80 = l then 0 else vmem w ! (2 * j))"
    using clear_line_ok [of w l] Cons.prems by auto
  obtain mem where "clear_lines ls (w\<lparr>vmem := mem1\<rparr>) = ret (w\<lparr>vmem := mem1\<rparr>\<lparr>vmem := mem\<rparr>)" "length mem = 4000"
    "\<forall>j < 2000. mem ! (2 * j) = (if j div 80 \<in> set ls then 0 else mem1 ! (2 * j))"
    using Cons.IH [of "w\<lparr>vmem := mem1\<rparr>"] Cons.prems m1(2) by auto
  then show ?case using m1 by auto
next
  case Nil
  then show ?case by (intro exI [of _ "vmem w"]) simp
qed

lemma vga_clear_ok:
  assumes "length (vmem w) = 4000"
  shows "\<exists>mem. vga_clear w = ret \<lparr>vmem = mem, offset = 0\<rparr> \<and> length mem = 4000 \<and> (\<forall>j < 2000. mem ! (2 * j) = 0)"
proof -
  have "j div 80 \<in> {0..<25}" if "j < 2000" for j :: nat using that by (simp add: div_less_iff_less_mult)
  moreover obtain mem where "clear_lines [0..<ROWS] w = ret (w\<lparr>vmem := mem\<rparr>)" "length mem = 4000"
    "\<forall>j < 2000. mem ! (2 * j) = (if j div 80 \<in> {0..<25} then 0 else vmem w ! (2 * j))"
    using clear_lines_ok [OF assms, of "[0..<ROWS]"] unfolding set_upt ROWS_def by auto
  ultimately show ?thesis by (intro exI [of _ mem]) (simp add: vga_clear_def)
qed

lemma scroll_ok:
  assumes "length (vmem w) = 4000" "offset w \<le> 2000" "0 < n"
  shows "\<exists>mem. scroll w n = ret \<lparr>vmem = mem, offset = offset w - 80 * n\<rparr> \<and> length mem = 4000
    \<and> (\<forall>j < 2000. mem ! (2 * j) = (if j + 80 * n < 2000 then vmem w ! (2 * (j + 80 * n)) else 0))"
proof (cases "n < 25")
  case False
  obtain mem where "vga_clear w = ret \<lparr>vmem = mem, offset = 0\<rparr>" "length mem = 4000" "\<forall>j < 2000. mem ! (2 * j) = 0"
    using vga_clear_ok [OF assms(1)] by blast
  then show ?thesis using False assms(2,3) by (simp add: scroll_def ROWS_def)
next
  case True
  define m where "m = take 0 (vmem w) @ take ((25 - n) * 160) (drop (n * 160) (vmem w)) @ drop (0 + (25 - n) * 160) (vmem w)"
  have "n * 160 + (25 - n) * 160 = 4000" using True by (simp add: algebra_simps)
  then have copy: "ptr_copy (vmem w) (n * COLS * 2) 0 ((ROWS - n) * COLS * 2) = ret m" and len: "length m = 4000"
    using assms(1) True by (simp_all add: m_def ptr_copy_def COLS_def ROWS_def mult.assoc)
  have cell: "m ! (2 * j) = vmem w ! (2 * (j + 80 * n))" if "j + 80 * n < 2000" for j
  proof -
    have "2 * j < (25 - n) * 160" using that by (simp add: diff_mult_distrib)
    then show ?thesis using assms(1) that by (simp add: m_def nth_append algebra_simps)
  qed
  obtain mem where mem: "clear_lines [ROWS - n..<ROWS] (w\<lparr>vmem := m\<rparr>) = ret (w\<lparr>vmem := m\<rparr>\<lparr>vmem := mem\<rparr>)" "length mem = 4000"
    "\<forall>j < 2000. mem ! (2 * j) = (if j div 80 \<in> {25 - n..<25} then 0 else m ! (2 * j))"
    using clear_lines_ok [of "w\<lparr>vmem := m\<rparr>" "[ROWS - n..<ROWS]"] len unfolding set_upt ROWS_def by auto
  have row: "j div 80 \<in> {25 - n..<25} \<longleftrightarrow> \<not> j + 80 * n < 2000" if "j < 2000" for j
  proof -
    have "j div 80 < 25" using that by (simp add: div_less_iff_less_mult)
    moreover have "25 - n \<le> j div 80 \<longleftrightarrow> (25 - n) * 80 \<le> j" by (simp add: less_eq_div_iff_mult_less_eq)
    ultimately show ?thesis using True by auto
  qed
  have "scroll w n = ret \<lparr>vmem = mem, offset = offset w - 80 * n\<rparr>"
    using True assms(3) copy mem(1) by (simp add: scroll_def min_def ROWS_def [symmetric] mult.commute) (simp add: ROWS_def COLS_def)
  moreover have "\<forall>j < 2000. mem ! (2 * j) = (if j + 80 * n < 2000 then vmem w ! (2 * (j + 80 * n)) else 0)"
    using mem(3) row cell by simp
  ultimately show ?thesis using mem(2) by blast
qed

text \<open>The same cell by cell, with the number of lines that are gone as an argument.\<close>

definition page_cell :: "u8 list \<Rightarrow> nat \<Rightarrow> u8" where
  "page_cell page i = (if i < length page then page ! i else 0)"

definition shows_at :: "vga_writer \<Rightarrow> u8 list \<Rightarrow> nat \<Rightarrow> bool" where
  "shows_at w page k \<longleftrightarrow> length (vmem w) = 4000 \<and> length page = 80 * k + offset w
    \<and> (\<forall>j < 2000. vmem w ! (2 * j) = page_cell page (80 * k + j))"

lemma gone_eq:
  assumes "length page = 80 * k + n" "n \<le> 2000" "k = 0 \<or> 1920 < n"
  shows "gone (length page) = k"
proof (cases "k = 0")
  case False
  then have "length page - 2000 + 79 = k * 80 + (n - 1921)" using assms by auto
  then show ?thesis using assms(2) by (simp add: gone_def)
qed (use assms in \<open>simp add: gone_def\<close>)

lemma gone_window: "80 * gone n \<le> n \<and> n - 80 * gone n \<le> 2000 \<and> (gone n = 0 \<or> 1920 < n - 80 * gone n)"
proof (cases "n \<le> 2000")
  case False
  define q r where "q = (n - 2000 + 79) div 80" and "r = (n - 2000 + 79) mod 80"
  have "80 * q + r = n - 2000 + 79" "r < 80" by (simp_all add: q_def r_def)
  then show ?thesis using False unfolding gone_def q_def [symmetric] by auto
qed (simp add: gone_def)

lemma nth_window: "j < 2000 \<Longrightarrow> window page k ! j = page_cell page (80 * k + j)"
  by (auto simp: window_def page_cell_def nth_append less_diff_conv2 not_less)

lemma shows_page_iff: "shows_page w page \<longleftrightarrow> shows_at w page (gone (length page))"
proof -
  have "length (window page k) = 2000" for k by (simp add: window_def)
  then have "screen_text (vmem w) = window page k \<longleftrightarrow> (\<forall>j < 2000. vmem w ! (2 * j) = page_cell page (80 * k + j))" for k
    by (simp add: list_eq_iff_nth_eq screen_text_def nth_window)
  moreover have "offset w = length page - 80 * gone (length page) \<longleftrightarrow> length page = 80 * gone (length page) + offset w"
    using gone_window [of "length page"] by auto
  ultimately show ?thesis by (simp add: shows_page_def shows_at_def)
qed

lemma shows_atI: "shows_at w page k \<Longrightarrow> offset w \<le> 2000 \<Longrightarrow> k = 0 \<or> 1920 < offset w \<Longrightarrow> shows_page w page"
  using gone_eq [of page k "offset w"] by (simp add: shows_page_iff shows_at_def)

lemma scroll_shows:
  assumes "shows_at w page k" "offset w = 2000"
  shows "\<exists>w'. scroll w 1 = ret w' \<and> shows_at w' page (k + 1) \<and> offset w' = 1920"
proof -
  obtain mem where mem: "scroll w 1 = ret \<lparr>vmem = mem, offset = 1920\<rparr>" "length mem = 4000"
    "\<forall>j < 2000. mem ! (2 * j) = (if j + 80 < 2000 then vmem w ! (2 * (j + 80)) else 0)"
    using scroll_ok [of w 1] assms by (auto simp: shows_at_def)
  have "mem ! (2 * j) = page_cell page (80 * (k + 1) + j)" if "j < 2000" for j
  proof (cases "j + 80 < 2000")
    case True
    then have "vmem w ! (2 * (j + 80)) = page_cell page (80 * k + (j + 80))" using assms(1) unfolding shows_at_def by blast
    then show ?thesis using mem(3) True by (simp add: algebra_simps)
  next
    case False
    then show ?thesis using mem(3) that assms by (simp add: page_cell_def shows_at_def)
  qed
  then show ?thesis using mem(1,2) assms by (simp add: shows_at_def)
qed

lemma write_char_room:
  assumes "shows_at w page k" "offset w < 2000"
  shows "\<exists>w'. write_char w c = ret w' \<and> shows_at w' (put_char page c) k \<and> offset w < offset w' \<and> offset w' \<le> 2000"
proof (cases "c = 10")
  case True
  let ?n = "80 - length page mod 80"
  have m: "length page mod 80 = offset w mod 80" using assms(1) by (simp add: shows_at_def)
  define q r where "q = offset w div 80" and "r = offset w mod 80"
  have q: "q < 25" "r < 80" "offset w = 80 * q + r" using assms(2) by (simp_all add: q_def r_def div_less_iff_less_mult)
  have "(offset w + 80) div 80 = q + 1" by (simp add: q_def)
  then have o: "((offset w + 80) div 80) * 80 = offset w + ?n" "offset w + ?n \<le> 2000"
    using q unfolding m r_def [symmetric] by simp_all
  have "page_cell (page @ replicate n 0) i = page_cell page i" for i n by (simp add: page_cell_def nth_append)
  moreover have "offset w mod 80 < 80" by simp
  ultimately show ?thesis using True assms o by (auto simp: write_char_def ROWS_def COLS_def put_char_def shows_at_def)
next
  case False
  let ?m = "(vmem w)[2 * offset w := vga_byte c]"
  have "?m ! (2 * j) = page_cell (page @ [vga_byte c]) (80 * k + j)" if "j < 2000" for j
    using assms that by (auto simp: shows_at_def page_cell_def nth_append nth_list_update)
  then show ?thesis using False assms by (auto simp: write_char_def ROWS_def COLS_def put_char_def poke_def shows_at_def)
qed

lemma write_char_shows:
  assumes "shows_page w page"
  shows "\<exists>w'. write_char w c = ret w' \<and> shows_page w' (put_char page c)"
proof -
  let ?k = "gone (length page)"
  have at: "shows_at w page ?k" and off: "offset w \<le> 2000" "?k = 0 \<or> 1920 < offset w"
    using assms gone_window [of "length page"] by (auto simp: shows_page_iff shows_at_def)
  show ?thesis
  proof (cases "offset w < 2000")
    case True
    then show ?thesis using write_char_room [OF at, of c] off shows_atI by fastforce
  next
    case False
    then have "offset w = 2000" using off(1) by simp
    then obtain w1 where w1: "scroll w 1 = ret w1" "shows_at w1 page (?k + 1)" "offset w1 = 1920" using scroll_shows [OF at] by blast
    then have "write_char w c = write_char w1 c" using False by (simp add: write_char_def ROWS_def COLS_def)
    moreover obtain w' where "write_char w1 c = ret w'" "shows_at w' (put_char page c) (?k + 1)" "1920 < offset w'" "offset w' \<le> 2000"
      using write_char_room [OF w1(2), of c] w1(3) by auto
    ultimately show ?thesis using shows_atI by auto
  qed
qed

lemma vga_write_str_shows: "shows_page w page \<Longrightarrow> runs (vga_write_str w s) (\<lambda>w'. shows_page w' (typeset page s))"
proof (induction s arbitrary: w page)
  case (Cons c s)
  then show ?case using write_char_shows [OF Cons.prems, of c] by (auto simp: typeset_def)
qed (simp add: typeset_def)

lemma vga_new_shows: "length mem = 4000 \<Longrightarrow> runs (vga_new mem) (\<lambda>w. shows_page w [])"
  using vga_clear_ok [of "\<lparr>vmem = mem, offset = 0\<rparr>"] shows_atI [of _ "[]" 0]
  by (fastforce simp: vga_new_def shows_at_def page_cell_def)

section \<open>Writing the log\<close>

text \<open>
  What \<^verbatim>\<open>LogSink\<close> needs of \<^verbatim>\<open>core::fmt::Write\<close>: writing returns and adds the text to what the writer has shown. Locked or
  not, the log then adds one line per record.
\<close>

definition log_line :: "log_record \<Rightarrow> rust_str" where
  "log_line r = str ''['' @ str (level_as_string (lr_level r)) @ str ''] '' @ lr_target r @ str '': '' @ concat (lr_args r) @ [10]"

locale text_sink =
  fixes write_str :: "'w \<Rightarrow> rust_str \<Rightarrow> 'w rust" and shown :: "'w \<Rightarrow> 'p \<Rightarrow> bool" and add_text :: "'p \<Rightarrow> rust_str \<Rightarrow> 'p"
  assumes write_ok: "shown w p \<Longrightarrow> runs (write_str w s) (\<lambda>w'. shown w' (add_text p s))"
    and add_append: "add_text p (s @ t) = add_text (add_text p s) t"
    and add_empty: "add_text p [] = p"
begin

lemma pieces: "shown w p \<Longrightarrow> runs (write_pieces write_str w ps) (\<lambda>w'. shown w' (add_text p (concat ps)))"
proof (induction ps arbitrary: w p)
  case (Cons s ps)
  then show ?case using write_ok [OF Cons.prems, of s] by (auto simp: add_append runs_iff)
qed (simp add: add_empty)

lemma sink_log:
  assumes "shown (writer s) p"
  shows "if locked s then log_sink_log write_str s r = throw Diverges
    else runs (log_sink_log write_str s r) (\<lambda>s'. \<not> locked s' \<and> shown (writer s') (add_text p (log_line r)))"
proof -
  let ?ps = "[str ''['', str (level_as_string (lr_level r)), str ''] '', lr_target r, str '': ''] @ lr_args r @ [[10]]"
  have "concat ?ps = log_line r" by (simp add: log_line_def)
  then show ?thesis using pieces [OF assms, of ?ps] by (auto simp: log_sink_log_def runs_iff)
qed

end

interpretation vga: text_sink vga_write_str shows_page typeset
proof
  show "\<And>w p s. shows_page w p \<Longrightarrow> runs (vga_write_str w s) (\<lambda>w'. shows_page w' (typeset p s))" by (rule vga_write_str_shows)
qed (simp_all add: typeset_def)

interpretation qemu: text_sink "qemu_write_str io" "(=)" "\<lambda>h s. fold (out8 io 0xe9) (concat (map utf8 s)) h"
  by unfold_locales (simp_all add: qemu_write_str_def)

section \<open>Properties\<close>

text \<open>
  C13. The screen. A writer made by \<^verbatim>\<open>VgaWriter::new\<close> shows the empty page, and every \<^verbatim>\<open>write_str\<close> returns, stays inside
  the screen's memory, and leaves the window on the end of the page to which the text has been added: lines
  break at eighty cells and at newlines, and a line is scrolled away only when a further character needs the
  place.
\<close>

theorem vga_screen_refines_page:
  assumes "length mem = 4000"
  shows "runs (bnd (vga_new mem) (\<lambda>w. vga_write_str w s)) (\<lambda>w. shows_page w (typeset [] s) \<and> offset w \<le> 2000)"
proof -
  obtain w where w: "vga_new mem = ret w" "shows_page w []" using vga_new_shows [OF assms] by (auto simp: runs_iff)
  then have "runs (vga_write_str w s) (\<lambda>w. shows_page w (typeset [] s))" using vga.write_ok by blast
  then show ?thesis using w(1) gone_window [of "length (typeset [] s)"] by (auto simp: runs_iff shows_page_def)
qed

theorem vga_screen_refines_page_witness:
  "runs (bnd (vga_new (replicate 4000 7)) (\<lambda>w. vga_write_str w [72, 10, 0xe9])) (\<lambda>w. shows_page w (72 # replicate 79 0 @ [0x3f]))"
proof -
  have "typeset [] [72, 10, 0xe9] = 72 # replicate 79 0 @ [0x3f]" by (simp add: typeset_def put_char_def vga_byte_def)
  then show ?thesis using vga_screen_refines_page [of "replicate 4000 7" "[72, 10, 0xe9]"] by (auto simp: runs_iff)
qed



end
