(* ===== verification/Gdt.thy ===== *)
theory Gdt
  imports Rust_Prelude
begin

text \<open>
  \<^verbatim>\<open>src/gdt.rs\<close>: the global descriptor table. The table type of the \<^verbatim>\<open>x86_64\<close> crate, its descriptors and its selectors are
  arguments (\<open>gdt_ops\<close>); what the code relies on is \<open>gdt_law\<close>, from the crate's documentation. The leaked lock is the
  static itself, and loading it makes the processor use the table as it is then.
\<close>

section \<open>Model\<close>

record ('g, 'd) gdt_ops =
  add_entry :: "'g \<Rightarrow> 'd \<Rightarrow> (u16 \<times> 'g) rust"
  kernel_code_segment :: 'd
  kernel_data_segment :: 'd
  selector_new :: "u16 \<Rightarrow> u8 \<Rightarrow> u16"

record 'g gdt_state =
  gdt_initialized :: bool
  GDT :: 'g
  gdtr :: "'g option"
  seg_cs :: u16
  seg_ds :: u16
  seg_es :: u16
  seg_fs :: u16
  seg_gs :: u16
  seg_ss :: u16

definition Ring0 :: u8 where
  "Ring0 = 0"

definition gdt_init :: "('g, 'd) gdt_ops \<Rightarrow> 'g gdt_state \<Rightarrow> 'g gdt_state rust" where
  "gdt_init G st =
     bnd (rassert (\<not> gdt_initialized st)) (\<lambda>_.
     bnd (add_entry G (GDT st) (kernel_code_segment G)) (\<lambda>(_, gdt).
     bnd (add_entry G gdt (kernel_data_segment G)) (\<lambda>(_, gdt).
     ret (st\<lparr>gdt_initialized := True, GDT := gdt, gdtr := Some gdt,
       seg_cs := selector_new G 1 Ring0, seg_ds := selector_new G 2 Ring0, seg_es := selector_new G 2 Ring0,
       seg_fs := selector_new G 2 Ring0, seg_gs := selector_new G 2 Ring0, seg_ss := selector_new G 2 Ring0\<rparr>))))"

section \<open>What the crate documents\<close>

text \<open>
  \<open>entries g\<close> are the descriptors in the table, from entry 1 on: entry 0 is null. A selector is the index above three
  bits of privilege and table. Eight entries fit.
\<close>

definition gdt_law :: "('g, 'd) gdt_ops \<Rightarrow> ('g \<Rightarrow> 'd list) \<Rightarrow> bool" where
  "gdt_law G entries \<longleftrightarrow> (\<forall>g d. length (entries g) < 7 \<longrightarrow> (\<exists>s g'. add_entry G g d = ret (s, g') \<and> entries g' = entries g @ [d]))
    \<and> (\<forall>i rpl. rpl < 4 \<longrightarrow> selector_new G i rpl = push_bit 3 i OR ucast rpl)"

text \<open>The descriptor a selector chooses.\<close>

definition selected :: "('g \<Rightarrow> 'd list) \<Rightarrow> 'g gdt_state \<Rightarrow> u16 \<Rightarrow> 'd option" where
  "selected entries st s = (case gdtr st of None \<Rightarrow> None
     | Some g \<Rightarrow> (let i = unat (drop_bit 3 s) in if 0 < i \<and> i \<le> length (entries g) then Some (entries g ! (i - 1)) else None))"

text \<open>The state after \<^verbatim>\<open>init\<close>: the code segment selects the kernel's code, every other segment the kernel's data.\<close>

definition gdt_ready :: "('g, 'd) gdt_ops \<Rightarrow> ('g \<Rightarrow> 'd list) \<Rightarrow> 'g gdt_state \<Rightarrow> bool" where
  "gdt_ready G entries st \<longleftrightarrow> gdt_initialized st \<and> selected entries st (seg_cs st) = Some (kernel_code_segment G)
    \<and> (\<forall>s \<in> {seg_ds st, seg_es st, seg_fs st, seg_gs st, seg_ss st}. selected entries st s = Some (kernel_data_segment G))"

lemma gdt_init_ok:
  assumes G: "gdt_law G entries" and st: "\<not> gdt_initialized st" "entries (GDT st) = []"
  shows "runs (gdt_init G st) (gdt_ready G entries)"
proof -
  have add: "\<exists>s g'. add_entry G g d = ret (s, g') \<and> entries g' = entries g @ [d]" if "length (entries g) < 7" for g d
    using G that by (simp add: gdt_law_def)
  obtain s1 g1 where g1: "add_entry G (GDT st) (kernel_code_segment G) = ret (s1, g1)" "entries g1 = [kernel_code_segment G]"
    using add [of "GDT st" "kernel_code_segment G"] st(2) by auto
  obtain s2 g2 where g2: "add_entry G g1 (kernel_data_segment G) = ret (s2, g2)" "entries g2 = [kernel_code_segment G, kernel_data_segment G]"
    using add [of g1 "kernel_data_segment G"] g1(2) by auto
  have "selector_new G 1 Ring0 = 8" "selector_new G 2 Ring0 = 16" using G by (simp_all add: gdt_law_def Ring0_def)
  then show ?thesis using st(1) g1 g2 by (simp add: gdt_init_def gdt_ready_def selected_def drop_bit_eq_div)
qed

text \<open>A list of at most seven descriptors, as an instance.\<close>

definition list_gdt :: "(nat list, nat) gdt_ops" where
  "list_gdt = \<lparr>add_entry = (\<lambda>g d. if length g < 7 then ret (of_nat (8 * (length g + 1)), g @ [d]) else throw Explicit),
     kernel_code_segment = 1, kernel_data_segment = 2, selector_new = (\<lambda>i rpl. push_bit 3 i OR ucast rpl)\<rparr>"

definition boot_gdt :: "nat list gdt_state" where
  "boot_gdt = \<lparr>gdt_initialized = False, GDT = [], gdtr = None, seg_cs = 0, seg_ds = 0, seg_es = 0, seg_fs = 0, seg_gs = 0, seg_ss = 0\<rparr>"

lemma list_gdt_law: "gdt_law list_gdt (\<lambda>g. g)"
  by (simp add: gdt_law_def list_gdt_def)

end
