(* ===== verification/Kernel_Entry.thy ===== *)
theory Kernel_Entry
  imports Boot_Init Sched Console Gdt
begin

text \<open>
  \<^verbatim>\<open>src/kmain.rs\<close>: the kernel from its entry to the jump to its first task, over the state of all components.

  What the boot loader and other crates provide is the argument \<open>platform\<close>. Two components use the static
  \<^verbatim>\<open>FRAME_ALLOCATOR\<close>; \<open>share_frames\<close> hands its value from the state of \<^verbatim>\<open>mm\<close> to that of the scheduler. The lines the kernel
  logs on its way are left out.
\<close>

section \<open>Model\<close>

datatype irq_fn = Keyboard_handler

record ('r, 'k, 'v, 'fl, 'g, 'd, 'h) platform =
  pl_marker :: "('r, 'k, 'v) marker_ops"
  pl_flags :: "'fl flag_ops"
  pl_gdt :: "('g, 'd) gdt_ops"
  pl_io :: "'h port_io"
  pl_indexable :: "nat \<Rightarrow> bool"
  pl_syms :: linker_symbols
  pl_cr3_frame :: "u64 \<Rightarrow> u64 rust"
  pl_root_ptr :: u64
  pl_code :: code_addrs
  pl_kernel_main :: usize
  pl_test_thread :: usize
  pl_size_of_task :: usize
  pl_load :: "u64 \<Rightarrow> boot_information option"
  pl_module_tags :: "boot_information \<Rightarrow> (u32 \<times> u32) list"
  pl_elf_file :: "virt_extent \<Rightarrow> bool"

record ('g, 'h) kernel_state =
  ks_screen :: "u8 list"
  ks_logger :: "vga_writer log_sink option"
  ks_max_level :: "level option"
  ks_interrupts :: bool
  ks_gdt :: "'g gdt_state"
  ks_idt :: idt_state
  ks_irq :: "(irq_fn, 'h) irq_state"
  ks_mm :: kernel_mm
  ks_sched :: sched_state

definition share_frames :: "('g, 'h) kernel_state \<Rightarrow> ('g, 'h) kernel_state" where
  "share_frames st = st\<lparr>ks_sched := (ks_sched st)\<lparr>frame_allocator_cell := km_frame_allocator (ks_mm st)\<rparr>\<rparr>"

text \<open>
  The first use of \<^verbatim>\<open>LOGGER\<close> makes the writer, which clears the screen; \<^verbatim>\<open>set_logger\<close> fails when there is a logger already.
\<close>

definition init_logger :: "('g, 'h) kernel_state \<Rightarrow> ('g, 'h) kernel_state rust" where
  "init_logger st =
     (case ks_logger st of
       Some _ \<Rightarrow> throw UnwrapNone
     | None \<Rightarrow>
         bnd (vga_new (ks_screen st)) (\<lambda>w.
         ret (st\<lparr>ks_logger := Some (log_sink_new w), ks_max_level := Some Info\<rparr>)))"

definition kernel_entry ::
  "('r, 'k, 'v, 'fl, 'g, 'd, 'h) platform \<Rightarrow> regs \<Rightarrow> ('g, 'h) kernel_state \<Rightarrow> u64 \<Rightarrow> (('g, 'h) kernel_state \<times> jump) rust" where
  "kernel_entry P r st mbinfo_addr =
     bnd (init_logger st) (\<lambda>st.
     bnd (unwrap (pl_load P mbinfo_addr)) (\<lambda>mbinfo.
     let st = st\<lparr>ks_interrupts := False\<rparr> in
     bnd (gdt_init (pl_gdt P) (ks_gdt st)) (\<lambda>gdt.
     bnd (idt_init_impl (pl_indexable P) (ks_idt st)) (\<lambda>idt.
     bnd (unwrap (case pl_module_tags P mbinfo of [] \<Rightarrow> None | m # _ \<Rightarrow> Some m)) (\<lambda>(first, last).
     bnd (from_raw_range_exclusive (ucast first) (ucast last)) (\<lambda>init_extent.
     bnd (mm_init (pl_marker P) (pl_flags P) (pl_syms P) (pl_cr3_frame P) (pl_root_ptr P) mbinfo [init_extent] (ks_mm st)) (\<lambda>mm.
     bnd (phys_extent_to_virt init_extent) (\<lambda>init_extent.
     bnd (unwrap (if pl_elf_file P init_extent then Some () else None)) (\<lambda>_.
     let st = share_frames (st\<lparr>ks_gdt := gdt, ks_idt := idt, ks_mm := mm\<rparr>) in
     bnd (init_kernel_main_thread (pl_code P) (pl_size_of_task P) (ks_sched st) r (pl_kernel_main P)) (\<lambda>(sched, j).
     ret (st\<lparr>ks_sched := sched\<rparr>, j)))))))))))"

section \<open>From the entry to the first task\<close>

text \<open>The descriptor of a task that runs and is in no list.\<close>

abbreviation running_task :: "frame_range \<Rightarrow> task" where
  "running_task fr \<equiv> \<lparr>stack_frames = \<lparr>ofr_frames = fr\<rparr>, rsp = None, prev_in_list = None, next_in_list = None\<rparr>"

lemma init_kernel_main_thread_ok:
  assumes cell: "frame_allocator_cell st = Some a" "bitmap_inv a" "8 * length (bitmap a) \<le> 33554432"
    and g: "free_group (free_frames a) 1 g" and n: "n \<noteq> 0" "unat n \<le> 32736" and cur: "CURRENT_TASK st = None"
  shows "\<exists>st' r1 p fr a'. init_kernel_main_thread ca n st r kernel_main = ret (st', ca_task_init_trampoline ca, r1)
    \<and> task_init_trampoline st' r1 = (ca_kernel_main_init_fn ca, r\<lparr>r_rsp := p - 8, r_rdi := kernel_main\<rparr>)
    \<and> sched_ok st' p [] \<and> task_memory st' p = Some (running_task fr) \<and> p = new_task_ptr n (fidx (fr_first fr))
    \<and> frame_allocator_cell st' = Some a' \<and> allocate_range a 1 = ret (Some fr, a') \<and> IDLE_TASK st' = IDLE_TASK st"
proof -
  obtain fr a' where al: "allocate_range a 1 = ret (Some fr, a')"
    and eq: "let p = new_task_ptr n (fidx (fr_first fr)) in
       create_task ca n st (ca_kernel_main_init_fn ca) kernel_main = ret (p, st\<lparr>frame_allocator_cell := Some a',
         task_memory := (task_memory st)(p \<mapsto> \<lparr>stack_frames = \<lparr>ofr_frames = fr\<rparr>, rsp = Some (p - 32), prev_in_list = None, next_in_list = None\<rparr>),
         word_memory := (word_memory st)(p - 8 := 0, p - 16 := ca_kernel_main_init_fn ca, p - 24 := kernel_main, p - 32 := ca_task_init_trampoline ca)\<rparr>)"
    using create_task_eq [OF cell g n] by blast
  define p where "p = new_task_ptr n (fidx (fr_first fr))"
  define W where "W = (word_memory st)(p - 8 := 0, p - 16 := ca_kernel_main_init_fn ca, p - 24 := kernel_main, p - 32 := ca_task_init_trampoline ca)"
  define t where "t = \<lparr>stack_frames = \<lparr>ofr_frames = fr\<rparr>, rsp = Some (p - 32), prev_in_list = None, next_in_list = None\<rparr>"
  have eq': "create_task ca n st (ca_kernel_main_init_fn ca) kernel_main
      = ret (p, st\<lparr>frame_allocator_cell := Some a', task_memory := (task_memory st)(p \<mapsto> t), word_memory := W\<rparr>)"
    using eq unfolding Let_def p_def [symmetric] t_def [symmetric] W_def .
  let ?st' = "st\<lparr>frame_allocator_cell := Some a', task_memory := (task_memory st)(p \<mapsto> t\<lparr>rsp := None\<rparr>), word_memory := W,
    CURRENT_TASK := Some p, SCHEDULER := Some \<lparr>ready_list_head = None\<rparr>\<rparr>"
  have "init_kernel_main_thread ca n st r kernel_main = ret (?st', ca_task_init_trampoline ca, r\<lparr>r_rsp := p - 24\<rparr>)"
    using cur by (simp add: init_kernel_main_thread_def create_task_typed_def eq' take_rsp_def deref_def t_def put_task_def asm_ret_def asm_pop_def W_def)
  moreover have "task_init_trampoline ?st' (r\<lparr>r_rsp := p - 24\<rparr>) = (ca_kernel_main_init_fn ca, r\<lparr>r_rsp := p - 8, r_rdi := kernel_main\<rparr>)"
    by (simp add: task_init_trampoline_def asm_pop_def asm_ret_def W_def)
  moreover have "sched_ok ?st' p []" by (simp add: sched_ok_def ready_queue_is_def unlinked_def t_def)
  ultimately show ?thesis using al by (auto simp: t_def p_def)
qed

text \<open>What the kernel relies on of its platform, and the state it is entered in.\<close>

definition platform_ok :: "('r, 'k, 'v, 'fl, 'g, 'd, 'h) platform \<Rightarrow> ('g \<Rightarrow> 'd list) \<Rightarrow> bool" where
  "platform_ok P entries \<longleftrightarrow> marker_law (pl_marker P) \<and> flags_law (pl_flags P) \<and> gdt_law (pl_gdt P) entries \<and> cr3_law (pl_cr3_frame P)
    \<and> pl_indexable P 9 \<and> (\<forall>v \<in> {32..<256}. pl_indexable P v) \<and> image_ok (pl_syms P) (pl_root_ptr P)
    \<and> pl_size_of_task P \<noteq> 0 \<and> unat (pl_size_of_task P) \<le> 32736
    \<and> distinct [ca_clean_quit_task (pl_code P), ca_restore_task_state (pl_code P), ca_task_init_trampoline (pl_code P),
        ca_kernel_main_init_fn (pl_code P), ca_idle_task_fn (pl_code P), pl_test_thread P]"

definition kernel_fresh :: "('g \<Rightarrow> 'd list) \<Rightarrow> ('g, 'h) kernel_state \<Rightarrow> bool" where
  "kernel_fresh entries st \<longleftrightarrow> length (ks_screen st) = 4000 \<and> ks_logger st = None
    \<and> \<not> gdt_initialized (ks_gdt st) \<and> entries (GDT (ks_gdt st)) = [] \<and> ks_idt st = idt_new
    \<and> IRQ_HANDLERS (ks_irq st) = replicate 16 None \<and> fresh_mm (ks_mm st) \<and> CURRENT_TASK (ks_sched st) = None"

text \<open>The extent of the module \<^verbatim>\<open>init\<close>, in physical memory and in the kernel's mapping of it.\<close>

lemma module_extent_ok:
  assumes "m0 < (m1 :: u32)"
  defines "e \<equiv> extent_of (unat m0) (unat m1 - unat m0) :: phys_extent"
  shows "from_raw_range_exclusive (ucast m0) (ucast m1) = ret e"
    "phys_extent_to_virt e = ret (extent_of (phys_base + unat m0) (unat m1 - unat m0))"
proof -
  have lt: "unat m0 < unat m1" "unat m1 < 2 ^ 32" using assms(1) unat_less_exp [of m1] by (simp_all add: word_less_nat_alt)
  have u: "unat (ucast m0 :: u64) = unat m0" "unat (ucast m1 :: u64) = unat m1"
    using lt by (simp_all add: unsigned_ucast_eq take_bit_nat_eq_self)
  have d: "(ucast m1 :: u64) - ucast m0 = of_nat (unat m1 - unat m0)"
    using lt by (intro unat_eqI) (simp add: unat_sub_exact word_le_nat_alt u unat_of_nat_eq)
  have b: "(ucast m0 :: u64) = of_nat (unat m0)" using lt by (intro unat_eqI) (simp add: u unat_of_nat_eq)
  have le: "(ucast m0 :: u64) \<le> ucast m1" using lt by (simp add: word_le_nat_alt u)
  have "from_raw_range_exclusive (ucast m0) (ucast m1) = ret \<lparr>ext_address = Address (ucast m0), ext_length = Length (ucast m1 - ucast m0)\<rparr>"
    using le by (simp add: from_raw_range_exclusive_def from_range_exclusive_def u_sub_def checked_sub_def)
  then show "from_raw_range_exclusive (ucast m0) (ucast m1) = ret e"
    unfolding e_def extent_of_def addr_of_def mlen_of_def by (simp only: d b [symmetric])
  have "a_nat (ext_address e) = unat m0" "l_nat (ext_length e) = unat m1 - unat m0" using lt by (simp_all add: e_def extent_of_def)
  then show "phys_extent_to_virt e = ret (extent_of (phys_base + unat m0) (unat m1 - unat m0))"
    using lt by (simp add: phys_extent_to_virt_def phys_to_virt_eq extent_new_eq e_def extent_of_def phys_base_def)
qed

text \<open>\<^verbatim>\<open>kernel_entry\<close> up to its jump to the first task.\<close>

lemma kernel_entry_ok:
  assumes P: "platform_ok P entries" and st: "kernel_fresh entries st"
    and mb: "pl_load P mbinfo_addr = Some mbinfo" "pl_module_tags P mbinfo = (m0, m1) # ms" "m0 < m1"
    and elf: "pl_elf_file P (extent_of (phys_base + unat m0) (unat m1 - unat m0))"
    and mem: "memory_ok mbinfo areas [extent_of (unat m0) (unat m1 - unat m0)]"
    and ss: "bi_elf_sections mbinfo = Some ss" "\<forall>s \<in> set ss. section_ok s"
    and marked: "get_kernel_phys_extent (pl_syms P) = ret k" "mark_rounds (map area_entry areas) [extent_of (unat m0) (unat m1 - unat m0)] es1"
      "mark_rounds es1 [k] (as @ c # bs)"
    and plan: "plan_ok (pl_syms P) (template_mappings (map area_entry areas) ss) as c bs"
    and free: "free = usable_frames (pl_syms P) mbinfo areas [extent_of (unat m0) (unat m1 - unat m0)]
        - {first_frame c..<first_frame c + card (tables_for (template_mappings (map area_entry areas) ss))}" "free_group free 1 g"
  shows "\<exists>st' r' main a fr. kernel_entry P r st mbinfo_addr = ret (st', ca_task_init_trampoline (pl_code P), r')
    \<and> task_init_trampoline (ks_sched st') r' = (ca_kernel_main_init_fn (pl_code P), r\<lparr>r_rsp := main - 8, r_rdi := pl_kernel_main P\<rparr>)
    \<and> \<not> ks_interrupts st' \<and> gdt_ready (pl_gdt P) entries (ks_gdt st') \<and> ks_irq st' = ks_irq st
    \<and> idt_loaded (ks_idt st') \<and> length (IDT (ks_idt st')) = 256 \<and> (\<forall>v < 256. IDT (ks_idt st') ! v = (if v < 32 then vector_entry v else Missing))
    \<and> km_cr3 (ks_mm st') = Some (pl_root_ptr P - KERNEL_VIRT_BASE (pl_syms P))
    \<and> frame_allocator_cell (ks_sched st') = Some a \<and> bitmap_inv a \<and> 8 * length (bitmap a) \<le> 33554432
    \<and> free_frames a = free - range_frames fr \<and> free_group free 1 (fidx (fr_first fr)) \<and> range_frames fr = {fidx (fr_first fr), Suc (fidx (fr_first fr))} \<and> fidx (fr_first fr) < 33554432
    \<and> main = new_task_ptr (pl_size_of_task P) (fidx (fr_first fr)) \<and> sched_ok (ks_sched st') main []
    \<and> task_memory (ks_sched st') main = Some (running_task fr)"
proof -
  let ?e = "extent_of (unat m0) (unat m1 - unat m0) :: phys_extent"
  have p: "marker_law (pl_marker P)" "flags_law (pl_flags P)" "gdt_law (pl_gdt P) entries" "cr3_law (pl_cr3_frame P)"
    "pl_indexable P 9" "\<forall>v \<in> {32..<256}. pl_indexable P v" "image_ok (pl_syms P) (pl_root_ptr P)"
    "pl_size_of_task P \<noteq> 0" "unat (pl_size_of_task P) \<le> 32736" using P by (auto simp: platform_ok_def)
  have f: "length (ks_screen st) = 4000" "ks_logger st = None" "\<not> gdt_initialized (ks_gdt st)" "entries (GDT (ks_gdt st)) = []"
    "ks_idt st = idt_new" "fresh_mm (ks_mm st)" "CURRENT_TASK (ks_sched st) = None" using st by (auto simp: kernel_fresh_def)
  obtain w where w: "vga_new (ks_screen st) = ret w" using vga_new_shows [OF f(1)] by (auto simp: runs_iff)
  obtain gdt where gdt: "gdt_init (pl_gdt P) (ks_gdt st) = ret gdt" "gdt_ready (pl_gdt P) entries gdt"
    using gdt_init_ok [OF p(3) f(3,4)] by (auto simp: runs_iff)
  obtain idt where idt: "idt_init_impl (pl_indexable P) idt_new = ret idt" "idt_loaded idt" "length (IDT idt) = 256" "\<forall>v < 256. IDT idt ! v = (if v < 32 then vector_entry v else Missing)"
    using idt_init_impl_ok [of idt_new "pl_indexable P"] p(5,6) by (auto simp: idt_new_def)
  obtain mm a where mm: "mm_init (pl_marker P) (pl_flags P) (pl_syms P) (pl_cr3_frame P) (pl_root_ptr P) mbinfo [?e] (ks_mm st) = ret mm"
    "km_frame_allocator mm = Some a" "bitmap_inv a" "known_frames a = {..<2 ^ 25}" "free_frames a = free" "km_cr3 mm = Some (pl_root_ptr P - KERNEL_VIRT_BASE (pl_syms P))"
    using mm_init_ok [OF p(1,2,4) f(6) p(7) mem ss marked plan] unfolding free(1) [symmetric] runs_iff by blast
  have len: "8 * length (bitmap a) \<le> 33554432" using mm(4) by (simp add: known_frames_def lessThan_eq_iff)
  let ?s = "(ks_sched st)\<lparr>frame_allocator_cell := Some a\<rparr>"
  have g: "free_group (free_frames a) 1 g" using free(2) mm(5) by simp
  obtain sched r1 main fr a' where s: "init_kernel_main_thread (pl_code P) (pl_size_of_task P) ?s r (pl_kernel_main P) = ret (sched, ca_task_init_trampoline (pl_code P), r1)"
    "task_init_trampoline sched r1 = (ca_kernel_main_init_fn (pl_code P), r\<lparr>r_rsp := main - 8, r_rdi := pl_kernel_main P\<rparr>)" "sched_ok sched main []"
    "task_memory sched main = Some (running_task fr)" "main = new_task_ptr (pl_size_of_task P) (fidx (fr_first fr))"
    "frame_allocator_cell sched = Some a'" "allocate_range a 1 = ret (Some fr, a')"
    using init_kernel_main_thread_ok [of ?s a g "pl_size_of_task P" "pl_code P" r "pl_kernel_main P"] mm(3) len g p(8,9) f(7) by auto
  have fr: "free_frames a' = free - range_frames fr" "free_group free 1 (fidx (fr_first fr))" "unat (fr_count fr) = 2" "bitmap_inv a'" "known_frames a' = known_frames a"
    using ba.alloc_some [OF mm(3) _ g] s(7) mm(5) by (auto simp: sound_orders_def)
  have r2: "range_frames fr = {fidx (fr_first fr), Suc (fidx (fr_first fr))}" using fr(3) by (auto simp: range_frames_def)
  have "fidx (fr_first fr) \<in> free" using fr(2) unfolding free_group_def by fastforce
  then have "fidx (fr_first fr) \<in> known_frames a" using mm(5) ba.free_known [of a] by blast
  then have small: "fidx (fr_first fr) < 33554432" using mm(4) by simp
  have len': "8 * length (bitmap a') \<le> 33554432" using mm(4) fr(5) by (simp add: known_frames_def lessThan_eq_iff)
  let ?st' = "st\<lparr>ks_logger := Some (log_sink_new w), ks_max_level := Some Info, ks_interrupts := False, ks_gdt := gdt, ks_idt := idt, ks_mm := mm, ks_sched := sched\<rparr>"
  have "kernel_entry P r st mbinfo_addr = ret (?st', ca_task_init_trampoline (pl_code P), r1)"
    using w f(2,5) gdt(1) idt(1) mb mm(1,2) elf s(1) module_extent_ok [OF mb(3)]
    by (simp add: kernel_entry_def init_logger_def share_frames_def)
  then show ?thesis using gdt(2) idt(2-4) mm(6) s(2-6) fr(1,2,4) len' r2 small by auto
qed

end
