(* ===== verification/Kernel_Main.thy ===== *)
theory Kernel_Main
  imports Kernel_Entry
begin

text \<open>
  \<^verbatim>\<open>src/kmain.rs\<close>: \<^verbatim>\<open>kernel_main\<close>, \<^verbatim>\<open>test_thread\<close> and their interleaving.

  A task's code is modelled by its parts between two calls of the scheduler, counted from 0. A transfer of control is
  followed to where it leads: through \<^verbatim>\<open>task_init_trampoline\<close> to the start of a function, through
  \<^verbatim>\<open>restore_task_state\<close> behind the call of \<^verbatim>\<open>switch_to\<close> that was made with the stack pointer restored. What compiled code
  leaves in the registers between two calls is an argument. The use of the heap at the end of \<^verbatim>\<open>kernel_main\<close> is left out.
\<close>

section \<open>Model\<close>

datatype outcome = Goes_on | Switches jump | Quits jump | Halts

datatype point = Main_at nat | Test_at nat

definition keyboard_handler :: "'s \<Rightarrow> 'h \<Rightarrow> 'h rust" where
  "keyboard_handler stack h = throw Explicit"

definition call_irq_fn :: "irq_fn \<Rightarrow> 's \<Rightarrow> 'h \<Rightarrow> 'h rust" where
  "call_irq_fn f = (case f of Keyboard_handler \<Rightarrow> keyboard_handler)"

definition yield_here ::
  "('r, 'k, 'v, 'fl, 'g, 'd, 'h) platform \<Rightarrow> nat \<Rightarrow> regs \<Rightarrow> ('g, 'h) kernel_state \<Rightarrow> (('g, 'h) kernel_state \<times> outcome) rust" where
  "yield_here P fuel r st =
     bnd (yield_current (pl_code P) fuel (ks_sched st) r) (\<lambda>(sched, j).
     ret (st\<lparr>ks_sched := sched\<rparr>, case j of None \<Rightarrow> Goes_on | Some j \<Rightarrow> Switches j))"

definition set_up_irqs :: "('r, 'k, 'v, 'fl, 'g, 'd, 'h) platform \<Rightarrow> ('g, 'h) kernel_state \<Rightarrow> ('g, 'h) kernel_state rust" where
  "set_up_irqs P st =
     bnd (pic_init_impl (pl_io P) (pl_indexable P) (hw (ks_irq st)) (IDT (ks_idt st))) (\<lambda>(h, idt).
     let st = st\<lparr>ks_idt := (ks_idt st)\<lparr>IDT := idt\<rparr>, ks_irq := (ks_irq st)\<lparr>hw := h\<rparr>, ks_interrupts := True\<rparr> in
     bnd (install_irq_handler (pl_io P) 1 (Some Keyboard_handler) (ks_irq st)) (\<lambda>irq.
     ret (st\<lparr>ks_irq := irq\<rparr>)))"

definition kernel_main ::
  "('r, 'k, 'v, 'fl, 'g, 'd, 'h) platform \<Rightarrow> nat \<Rightarrow> nat \<Rightarrow> regs \<Rightarrow> ('g, 'h) kernel_state \<Rightarrow> (('g, 'h) kernel_state \<times> outcome) rust" where
  "kernel_main P fuel part r st =
     (if part = 0 then yield_here P fuel r st
      else if part = 1 then
        bnd (set_up_irqs P st) (\<lambda>st.
        bnd (spawn_kthread (pl_code P) (pl_size_of_task P) fuel (ks_sched st) (pl_test_thread P) 0) (\<lambda>sched.
        yield_here P fuel r (st\<lparr>ks_sched := sched\<rparr>)))
      else if part = 2 then yield_here P fuel r st
      else ret (st, Halts))"

definition test_thread ::
  "('r, 'k, 'v, 'fl, 'g, 'd, 'h) platform \<Rightarrow> nat \<Rightarrow> nat \<Rightarrow> regs \<Rightarrow> ('g, 'h) kernel_state \<Rightarrow> (('g, 'h) kernel_state \<times> outcome) rust" where
  "test_thread P fuel part r st =
     (if part = 0 then yield_here P fuel r st
      else bnd (quit_current (pl_code P) (ks_sched st) r) (\<lambda>(sched, j). ret (st\<lparr>ks_sched := sched\<rparr>, Quits j)))"

subsection \<open>Interleaving\<close>

text \<open>\<open>m_saved\<close>: where the tasks that were switched away from continue, by their stack pointer at the call of \<^verbatim>\<open>switch_to\<close>.\<close>

record ('g, 'h) machine =
  m_kernel :: "('g, 'h) kernel_state"
  m_at :: point
  m_saved :: "usize \<rightharpoonup> point"

definition next_point :: "point \<Rightarrow> point" where
  "next_point p = (case p of Main_at k \<Rightarrow> Main_at (Suc k) | Test_at k \<Rightarrow> Test_at (Suc k))"

text \<open>The start of a function with its argument in \<^verbatim>\<open>rdi\<close>, and the two ways a task gets control.\<close>

definition start_fn ::
  "('r, 'k, 'v, 'fl, 'g, 'd, 'h) platform \<Rightarrow> ('g, 'h) kernel_state \<Rightarrow> (usize \<rightharpoonup> point) \<Rightarrow> jump \<Rightarrow> ('g, 'h) machine rust" where
  "start_fn P st saved j =
     (case j of (pc, r) \<Rightarrow>
      if pc = pl_test_thread P then ret \<lparr>m_kernel = st, m_at = Test_at 0, m_saved = saved\<rparr>
      else if pc = ca_kernel_main_init_fn (pl_code P) then
        bnd (kernel_main_init_fn (pl_code P) (pl_size_of_task P) (ks_sched st) (r_rdi r)) (\<lambda>(fn, sched).
        if fn = pl_kernel_main P then ret \<lparr>m_kernel = st\<lparr>ks_sched := sched\<rparr>, m_at = Main_at 0, m_saved = saved\<rparr>
        else throw BadPointer)
      else throw BadPointer)"

definition resume ::
  "('r, 'k, 'v, 'fl, 'g, 'd, 'h) platform \<Rightarrow> ('g, 'h) kernel_state \<Rightarrow> (usize \<rightharpoonup> point) \<Rightarrow> jump \<Rightarrow> ('g, 'h) machine rust" where
  "resume P st saved j =
     (case j of (pc, r) \<Rightarrow>
      if pc = ca_task_init_trampoline (pl_code P) then start_fn P st saved (task_init_trampoline (ks_sched st) r)
      else if pc = ca_restore_task_state (pl_code P) then
        (case saved (r_rsp (snd (restore_task_state (ks_sched st) r)) - 8) of
          None \<Rightarrow> throw BadPointer
        | Some p \<Rightarrow> ret \<lparr>m_kernel = st, m_at = p, m_saved = saved\<rparr>)
      else throw BadPointer)"

text \<open>\<^verbatim>\<open>clean_quit_task\<close>, entered with the old task in \<^verbatim>\<open>rdi\<close>, returns to what the next task's stack holds.\<close>

definition after_quit ::
  "('r, 'k, 'v, 'fl, 'g, 'd, 'h) platform \<Rightarrow> ('g, 'h) kernel_state \<Rightarrow> (usize \<rightharpoonup> point) \<Rightarrow> jump \<Rightarrow> ('g, 'h) machine rust" where
  "after_quit P st saved j =
     (case j of (pc, r) \<Rightarrow>
      if pc = ca_clean_quit_task (pl_code P) then
        bnd (clean_quit_task (ks_sched st) (r_rdi r)) (\<lambda>sched.
        resume P (st\<lparr>ks_sched := sched\<rparr>) saved (asm_ret sched r))
      else throw BadPointer)"

definition machine_step ::
  "('r, 'k, 'v, 'fl, 'g, 'd, 'h) platform \<Rightarrow> nat \<Rightarrow> ('g, 'h) machine \<Rightarrow> regs \<Rightarrow> ('g, 'h) machine rust" where
  "machine_step P fuel m r =
     bnd (case m_at m of Main_at k \<Rightarrow> kernel_main P fuel k r (m_kernel m) | Test_at k \<Rightarrow> test_thread P fuel k r (m_kernel m)) (\<lambda>(st, out).
     case out of
       Goes_on \<Rightarrow> ret (m\<lparr>m_kernel := st, m_at := next_point (m_at m)\<rparr>)
     | Switches j \<Rightarrow> resume P st ((m_saved m)(r_rsp r \<mapsto> next_point (m_at m))) j
     | Quits j \<Rightarrow> after_quit P st (m_saved m) j
     | Halts \<Rightarrow> ret (m\<lparr>m_kernel := st\<rparr>))"

primrec machine_run ::
  "('r, 'k, 'v, 'fl, 'g, 'd, 'h) platform \<Rightarrow> nat \<Rightarrow> ('g, 'h) machine \<Rightarrow> regs list \<Rightarrow> ('g, 'h) machine rust" where
  "machine_run P fuel m [] = ret m"
| "machine_run P fuel m (r # rs) = bnd (machine_step P fuel m r) (\<lambda>m. machine_run P fuel m rs)"

definition boot ::
  "('r, 'k, 'v, 'fl, 'g, 'd, 'h) platform \<Rightarrow> regs \<Rightarrow> ('g, 'h) kernel_state \<Rightarrow> u64 \<Rightarrow> ('g, 'h) machine rust" where
  "boot P r st mbinfo_addr = bnd (kernel_entry P r st mbinfo_addr) (\<lambda>(st, j). resume P st Map.empty j)"

section \<open>Two tasks\<close>

lemma yield_alone:
  assumes "CURRENT_TASK st = Some c" "SCHEDULER st = Some \<lparr>ready_list_head = None\<rparr>" "task_memory st c = Some (running_task fr)"
  shows "yield_current ca fuel st r = ret (st, None)"
proof -
  have "(task_memory st)(c \<mapsto> running_task fr) = task_memory st" using assms(3) by (simp add: fun_upd_idem)
  then show ?thesis using assms
    by (simp add: yield_current_def reschedule_def add_task_to_ready_list_def pop_next_ready_task_def deref_def put_task_def)
qed

text \<open>\<open>c\<close> runs, \<open>x\<close> is ready and was left with stack pointer \<open>sp\<close>.\<close>

definition pair_ok :: "sched_state \<Rightarrow> task_ptr \<Rightarrow> frame_range \<Rightarrow> task_ptr \<Rightarrow> usize \<Rightarrow> frame_range \<Rightarrow> bool" where
  "pair_ok st c frc x sp frx \<longleftrightarrow> CURRENT_TASK st = Some c \<and> SCHEDULER st = Some \<lparr>ready_list_head = Some x\<rparr> \<and> x \<noteq> c
    \<and> task_memory st c = Some (running_task frc)
    \<and> (\<exists>t. task_memory st x = Some t \<and> next_in_list t = None \<and> rsp t = Some sp \<and> stack_frames t = \<lparr>ofr_frames = frx\<rparr>)"

lemma yield_pair:
  assumes p: "pair_ok st c frc x sp frx" and f: "0 < fuel" and r: "r_rax r \<noteq> 0" "r_rsp r \<noteq> 64"
  shows "\<exists>st'. yield_current ca fuel st r = ret (st', Some (asm_ret st' (r\<lparr>r_rdi := sp, r_rsp := sp\<rparr>))) \<and> pair_ok st' x frx c (r_rsp r - 64) frc
    \<and> word_memory st' = saved_frame r (ca_restore_task_state ca) (word_memory st) \<and> frame_allocator_cell st' = frame_allocator_cell st"
proof -
  obtain tx where tx: "task_memory st x = Some tx" "next_in_list tx = None" "rsp tx = Some sp" "stack_frames tx = \<lparr>ofr_frames = frx\<rparr>"
    and c: "CURRENT_TASK st = Some c" "SCHEDULER st = Some \<lparr>ready_list_head = Some x\<rparr>" "x \<noteq> c" "task_memory st c = Some (running_task frc)"
    using p by (auto simp: pair_ok_def)
  obtain f' where f': "fuel = Suc f'" using f by (cases fuel) auto
  have nz: "non_zero (r_rsp r - 64) = Some (r_rsp r - 64)" using r(2) by (simp add: non_zero_def)
  have rr: "r\<lparr>r_rsp := sp, r_rdi := sp\<rparr> = r\<lparr>r_rdi := sp, r_rsp := sp\<rparr>" by simp
  let ?st' = "st\<lparr>SCHEDULER := Some \<lparr>ready_list_head = Some c\<rparr>, CURRENT_TASK := Some x,
     word_memory := saved_frame r (ca_restore_task_state ca) (word_memory st),
     task_memory := (task_memory st)(x \<mapsto> tx\<lparr>next_in_list := None, prev_in_list := None, rsp := None\<rparr>,
       c \<mapsto> (running_task frc)\<lparr>prev_in_list := Some x, rsp := Some (r_rsp r - 64)\<rparr>)\<rparr>"
  have "yield_current ca fuel st r = ret (?st', Some (asm_ret ?st' (r\<lparr>r_rdi := sp, r_rsp := sp\<rparr>)))"
    using c tx r(1) unfolding rr [symmetric]
    by (simp add: yield_current_def reschedule_def add_task_to_ready_list_def pop_next_ready_task_def deref_def put_task_def f' nz
        take_rsp_def switch_to_eq Let_def fun_upd_twist)
  moreover have "tx\<lparr>next_in_list := None, prev_in_list := None, rsp := None\<rparr> = running_task frx" using tx(4) by simp
  ultimately show ?thesis using c(3) by (simp add: pair_ok_def)
qed

text \<open>\<^verbatim>\<open>quit_current\<close> of the running task.\<close>

lemma quit_pair:
  assumes p: "pair_ok st c frc x sp frx"
  shows "\<exists>st'. quit_current ca st r = ret (st', ca_clean_quit_task ca, r\<lparr>r_rax := sp - 8, r_rdi := c, r_rsp := sp\<rparr>)
    \<and> word_memory st' = (word_memory st)(sp - 8 := ca_clean_quit_task ca) \<and> frame_allocator_cell st' = frame_allocator_cell st
    \<and> CURRENT_TASK st' = None \<and> task_memory st' c = Some (running_task frc)"
  using assms
  by (auto simp: pair_ok_def quit_current_def pop_next_ready_task_def deref_def take_rsp_def put_task_def put_word_def
      stack_writer_push_def stack_writer_new_def into_ptr_def asm_ret_def asm_pop_def Let_def)

lemma clean_quit_running:
  "task_memory st c = Some (running_task fr) \<Longrightarrow> drop_owned_frames (frame_allocator_cell st) \<lparr>ofr_frames = fr\<rparr> = ret cell \<Longrightarrow>
    clean_quit_task st c = ret (st\<lparr>frame_allocator_cell := cell\<rparr>)"
  by (simp add: clean_quit_task_def deref_def)

lemma spawn_alone:
  assumes cell: "frame_allocator_cell st = Some a" "bitmap_inv a" "8 * length (bitmap a) \<le> 33554432"
    and g: "free_group (free_frames a) 1 g" and n: "n \<noteq> 0" "unat n \<le> 32736"
    and al: "allocate_range a 1 = ret (Some fr, a')" and p: "p = new_task_ptr n (fidx (fr_first fr))"
    and c: "CURRENT_TASK st = Some c" "SCHEDULER st = Some \<lparr>ready_list_head = None\<rparr>" "task_memory st c = Some (running_task frc)" "p \<noteq> c"
  shows "\<exists>st'. spawn_kthread ca n fuel st fn ctx = ret st' \<and> pair_ok st' c frc p (p - 32) fr \<and> frame_allocator_cell st' = Some a'
    \<and> word_memory st' = (word_memory st)(p - 8 := 0, p - 16 := fn, p - 24 := ctx, p - 32 := ca_task_init_trampoline ca)"
proof -
  define W where "W = (word_memory st)(p - 8 := 0, p - 16 := fn, p - 24 := ctx, p - 32 := ca_task_init_trampoline ca)"
  have "create_task ca n st fn ctx = ret (p, st\<lparr>frame_allocator_cell := Some a',
         task_memory := (task_memory st)(p \<mapsto> (running_task fr)\<lparr>rsp := Some (p - 32)\<rparr>), word_memory := W\<rparr>)"
    using create_task_eq [OF cell g n, of ca fn ctx] al unfolding p W_def by (auto simp: Let_def)
  then show ?thesis using c by (simp add: spawn_kthread_def add_task_to_ready_list_def pair_ok_def W_def)
qed

section \<open>Stacks\<close>

text \<open>The words a task saves at one stack pointer are none of those saved at another.\<close>

definition apart :: "usize \<Rightarrow> usize \<Rightarrow> bool" where
  "apart a b \<longleftrightarrow> (\<forall>i \<le> 8. \<forall>j \<le> 8. a - 8 * of_nat i \<noteq> b - 8 * of_nat (j :: nat))"

lemma saved_frame_apart:
  assumes "apart a (r_rsp r)" "i \<le> 8"
  shows "saved_frame r fn W (a - 8 * of_nat i) = W (a - 8 * of_nat i)"
proof -
  have "a - 8 * of_nat i \<noteq> r_rsp r - 8 * of_nat j" if "j \<le> 8" for j using assms that unfolding apart_def by blast
  from this [of 1] this [of 2] this [of 3] this [of 4] this [of 5] this [of 6] this [of 7] this [of 8]
  show ?thesis by (simp add: saved_frame_def)
qed

lemma resume_restored:
  assumes "\<forall>i \<le> 8. word_memory (ks_sched st) (r_rsp r - 8 * of_nat i) = saved_frame r (ca_restore_task_state (pl_code P)) W (r_rsp r - 8 * of_nat i)"
    and "ca_restore_task_state (pl_code P) \<noteq> ca_task_init_trampoline (pl_code P)" "saved (r_rsp r) = Some pt"
  shows "resume P st saved (asm_ret (ks_sched st) (r2\<lparr>r_rsp := r_rsp r - 64\<rparr>)) = ret \<lparr>m_kernel = st, m_at = pt, m_saved = saved\<rparr>"
  unfolding restore_saved [OF assms(1)] resume_def using assms(2,3) by (simp add: restore_saved [OF assms(1)])

section \<open>Interrupts\<close>

lemma set_up_irqs_ok:
  assumes io: "pic_8259 (pl_io P) c1 c2" and ix: "\<forall>v \<in> {32..<256}. pl_indexable P v"
    and idt: "length (IDT (ks_idt st)) = 256" "\<forall>v < 256. IDT (ks_idt st) ! v = (if v < 32 then vector_entry v else Missing)"
    and irq: "IRQ_HANDLERS (ks_irq st) = replicate 16 None"
  shows "\<exists>idt irq. set_up_irqs P st = ret (st\<lparr>ks_idt := (ks_idt st)\<lparr>IDT := idt\<rparr>, ks_interrupts := True, ks_irq := irq\<rparr>)
    \<and> (\<forall>v < 256. idt ! v = vector_entry v) \<and> masks_ok c1 c2 irq \<and> IRQ_HANDLERS irq = (replicate 16 None)[1 := Some Keyboard_handler]"
proof -
  obtain h idt where p: "pic_init_impl (pl_io P) (pl_indexable P) (hw (ks_irq st)) (IDT (ks_idt st)) = ret (h, idt)"
    "masks_ok c1 c2 \<lparr>IRQ_HANDLERS = replicate 16 (None :: irq_fn option), hw = h\<rparr>"
    "\<forall>v < 256. idt ! v = (if 32 \<le> v \<and> v < 48 then Handler (Handle_irq (of_nat (v - 32))) else IDT (ks_idt st) ! v)"
    using pic_init_impl_ok [OF io idt(1) ix] by blast
  let ?irq = "(ks_irq st)\<lparr>hw := h\<rparr>"
  have e: "?irq = \<lparr>IRQ_HANDLERS = replicate 16 None, hw = h\<rparr>" using irq by (cases "ks_irq st") simp
  have "\<forall>v < 256. idt ! v = vector_entry v" using p(3) idt(2) by (auto simp: vector_entry_def)
  moreover obtain irq where "install_irq_handler (pl_io P) 1 (Some Keyboard_handler) ?irq = ret irq" "masks_ok c1 c2 irq"
    "IRQ_HANDLERS irq = (replicate 16 None)[1 := Some Keyboard_handler]"
    using install_irq_handler_masks [OF io, of ?irq 1 "Some Keyboard_handler"] p(2) unfolding e by (auto simp: runs_iff)
  ultimately show ?thesis using p(1) by (intro exI [of _ idt] exI [of _ irq]) (simp add: set_up_irqs_def)
qed

lemma only_keyboard_open:
  assumes "masks_ok c1 c2 irq" "IRQ_HANDLERS irq = (replicate 16 None)[1 := Some Keyboard_handler]"
  shows "\<forall>n < 16. line_open (c1 (hw irq)) (c2 (hw irq)) n \<longleftrightarrow> n = 1"
proof (intro allI impI)
  fix n :: nat assume n: "n < 16"
  have 1: "bit (imr (c1 (hw irq))) k \<longleftrightarrow> k \<noteq> 1" if "k < 8" for k using assms that by (simp add: masks_ok_def nth_list_update)
  show "line_open (c1 (hw irq)) (c2 (hw irq)) n \<longleftrightarrow> n = 1" using 1 [of n] 1 [of 2] by (auto simp: line_open_def)
qed

text \<open>A key press while line 1 has its handler.\<close>

lemma key_press:
  "IRQ_HANDLERS irq ! 1 = Some Keyboard_handler \<Longrightarrow> length (IRQ_HANDLERS irq) = 16 \<Longrightarrow> handle_irq io call_irq_fn 1 stack irq = throw Explicit"
  by (simp add: handle_irq_def is_spurious_def index_def call_irq_fn_def keyboard_handler_def Let_def)

section \<open>The run of the kernel\<close>

text \<open>The state in which \<^verbatim>\<open>kernel_main\<close> is called; \<open>a\<close> is the frame allocator then.\<close>

definition main_ready :: "('r, 'k, 'v, 'fl, 'g, 'd, 'h) platform \<Rightarrow> ('g, 'h) machine \<Rightarrow> task_ptr \<Rightarrow> frame_range \<Rightarrow> bitmap_allocator \<Rightarrow> bool" where
  "main_ready P m main frm a \<longleftrightarrow> m_at m = Main_at 0 \<and> m_saved m = Map.empty
    \<and> length (IDT (ks_idt (m_kernel m))) = 256 \<and> (\<forall>v < 256. IDT (ks_idt (m_kernel m)) ! v = (if v < 32 then vector_entry v else Missing))
    \<and> IRQ_HANDLERS (ks_irq (m_kernel m)) = replicate 16 None
    \<and> frame_allocator_cell (ks_sched (m_kernel m)) = Some a \<and> bitmap_inv a \<and> 8 * length (bitmap a) \<le> 33554432
    \<and> CURRENT_TASK (ks_sched (m_kernel m)) = Some main \<and> SCHEDULER (ks_sched (m_kernel m)) = Some \<lparr>ready_list_head = None\<rparr>
    \<and> task_memory (ks_sched (m_kernel m)) main = Some (running_task frm)
    \<and> (\<forall>i \<in> free_frames a. new_task_ptr (pl_size_of_task P) i \<noteq> main)"

text \<open>
  The registers at the four switches: \<^verbatim>\<open>rax\<close> is not zero where \<^verbatim>\<open>switch_to\<close> tests it, and the tasks save their registers on
  stacks that are apart.
\<close>

definition regs_ok :: "task_ptr \<Rightarrow> regs \<Rightarrow> regs \<Rightarrow> regs \<Rightarrow> bool" where
  "regs_ok test r1 r2 r3 \<longleftrightarrow> (\<forall>r \<in> {r1, r2, r3}. r_rax r \<noteq> 0 \<and> r_rsp r \<noteq> 64)
    \<and> apart test (r_rsp r1) \<and> apart (r_rsp r1) (r_rsp r2) \<and> apart (r_rsp r2) (r_rsp r3)"

lemma apart_neq: "apart a b \<Longrightarrow> a \<noteq> b"
  unfolding apart_def by force

lemma start_test:
  assumes W: "\<forall>i \<le> 8. word_memory (ks_sched st) (p - 8 * of_nat i) = ((word_memory s0)(p - 8 := 0, p - 16 := pl_test_thread P, p - 24 := ctx,
      p - 32 := ca_task_init_trampoline (pl_code P))) (p - 8 * of_nat i)"
  shows "resume P st saved (asm_ret (ks_sched st) (r\<lparr>r_rsp := p - 32\<rparr>)) = ret \<lparr>m_kernel = st, m_at = Test_at 0, m_saved = saved\<rparr>"
proof -
  have "word_memory (ks_sched st) (p - 16) = pl_test_thread P" "word_memory (ks_sched st) (p - 24) = ctx"
    "word_memory (ks_sched st) (p - 32) = ca_task_init_trampoline (pl_code P)"
    using W [rule_format, of 2] W [rule_format, of 3] W [rule_format, of 4] by simp_all
  then show ?thesis by (simp add: resume_def asm_ret_def asm_pop_def task_init_trampoline_def start_fn_def)
qed

lemma allocated_group:
  assumes "bitmap_inv a" "allocate_range a 1 = ret (Some fr, a')"
  shows "free_group (free_frames a) 1 (fidx (fr_first fr))"
proof -
  have "1 \<in> sound_orders" by (simp add: sound_orders_def)
  then obtain g where "free_group (free_frames a) 1 g" using ba.alloc_none [OF assms(1), of 1] assms(2) by auto
  from ba.alloc_some [OF assms(1) \<open>1 \<in> sound_orders\<close> this] show ?thesis using assms(2) by auto
qed

text \<open>The steps: the start of the test thread, a yield between the two, and the end of the test thread.\<close>

lemma step_spawn:
  assumes at: "m_at m = Main_at 1" and st: "set_up_irqs P (m_kernel m) = ret st" "ks_sched st = ks_sched (m_kernel m)"
    and s1: "spawn_kthread (pl_code P) (pl_size_of_task P) fuel (ks_sched st) (pl_test_thread P) 0 = ret s1" "pair_ok s1 c frc p (p - 32) fr"
      "word_memory s1 = (word_memory (ks_sched st))(p - 8 := 0, p - 16 := pl_test_thread P, p - 24 := 0, p - 32 := ca_task_init_trampoline (pl_code P))"
    and r: "0 < fuel" "r_rax r \<noteq> 0" "r_rsp r \<noteq> 64" "apart p (r_rsp r)"
  shows "\<exists>s'. machine_step P fuel m r = ret \<lparr>m_kernel = st\<lparr>ks_sched := s'\<rparr>, m_at = Test_at 0, m_saved = (m_saved m)(r_rsp r \<mapsto> Main_at 2)\<rparr>
    \<and> pair_ok s' p fr c (r_rsp r - 64) frc \<and> word_memory s' = saved_frame r (ca_restore_task_state (pl_code P)) (word_memory s1)
    \<and> frame_allocator_cell s' = frame_allocator_cell s1"
proof -
  obtain s2 where s2: "yield_current (pl_code P) fuel s1 r = ret (s2, Some (asm_ret s2 (r\<lparr>r_rdi := p - 32, r_rsp := p - 32\<rparr>)))"
    "pair_ok s2 p fr c (r_rsp r - 64) frc" "word_memory s2 = saved_frame r (ca_restore_task_state (pl_code P)) (word_memory s1)"
    "frame_allocator_cell s2 = frame_allocator_cell s1" using yield_pair [OF s1(2) r(1-3), of "pl_code P"] by blast
  have "\<forall>i \<le> 8. word_memory s2 (p - 8 * of_nat i) = word_memory s1 (p - 8 * of_nat i)" using saved_frame_apart [OF r(4)] s2(3) by simp
  then have "resume P (st\<lparr>ks_sched := s2\<rparr>) saved (asm_ret s2 (r\<lparr>r_rdi := p - 32, r_rsp := p - 32\<rparr>))
      = ret \<lparr>m_kernel = st\<lparr>ks_sched := s2\<rparr>, m_at = Test_at 0, m_saved = saved\<rparr>" for saved
    using start_test [of "st\<lparr>ks_sched := s2\<rparr>" p "ks_sched st" P 0 saved "r\<lparr>r_rdi := p - 32\<rparr>"] s1(3) by simp
  then have "machine_step P fuel m r = ret \<lparr>m_kernel = st\<lparr>ks_sched := s2\<rparr>, m_at = Test_at 0, m_saved = (m_saved m)(r_rsp r \<mapsto> Main_at 2)\<rparr>"
    using at st s1(1) s2(1) by (simp add: machine_step_def kernel_main_def yield_here_def next_point_def numeral_2_eq_2)
  then show ?thesis using s2 by blast
qed

lemma step_yield:
  assumes at: "m_at m = Main_at 2 \<or> m_at m = Test_at 0" and p: "pair_ok (ks_sched (m_kernel m)) c frc x (r_rsp rx - 64) frx"
    and W: "word_memory (ks_sched (m_kernel m)) = saved_frame rx (ca_restore_task_state (pl_code P)) W" "m_saved m (r_rsp rx) = Some pt"
    and r: "0 < fuel" "r_rax r \<noteq> 0" "r_rsp r \<noteq> 64" "apart (r_rsp rx) (r_rsp r)" and ca: "ca_restore_task_state (pl_code P) \<noteq> ca_task_init_trampoline (pl_code P)"
  shows "\<exists>s'. machine_step P fuel m r = ret \<lparr>m_kernel = (m_kernel m)\<lparr>ks_sched := s'\<rparr>, m_at = pt, m_saved = (m_saved m)(r_rsp r \<mapsto> next_point (m_at m))\<rparr>
    \<and> pair_ok s' x frx c (r_rsp r - 64) frc \<and> word_memory s' = saved_frame r (ca_restore_task_state (pl_code P)) (word_memory (ks_sched (m_kernel m)))
    \<and> frame_allocator_cell s' = frame_allocator_cell (ks_sched (m_kernel m))"
proof -
  let ?sv = "(m_saved m)(r_rsp r \<mapsto> next_point (m_at m))"
  obtain s' where s': "yield_current (pl_code P) fuel (ks_sched (m_kernel m)) r
        = ret (s', Some (asm_ret s' (r\<lparr>r_rdi := r_rsp rx - 64, r_rsp := r_rsp rx - 64\<rparr>)))"
    "pair_ok s' x frx c (r_rsp r - 64) frc" "word_memory s' = saved_frame r (ca_restore_task_state (pl_code P)) (word_memory (ks_sched (m_kernel m)))"
    "frame_allocator_cell s' = frame_allocator_cell (ks_sched (m_kernel m))" using yield_pair [OF p r(1-3), of "pl_code P"] by blast
  have "resume P ((m_kernel m)\<lparr>ks_sched := s'\<rparr>) ?sv (asm_ret s' (r\<lparr>r_rdi := r_rsp rx - 64, r_rsp := r_rsp rx - 64\<rparr>))
      = ret \<lparr>m_kernel = (m_kernel m)\<lparr>ks_sched := s'\<rparr>, m_at = pt, m_saved = ?sv\<rparr>"
    using resume_restored [of "(m_kernel m)\<lparr>ks_sched := s'\<rparr>" rx P W ?sv pt "r\<lparr>r_rdi := r_rsp rx - 64\<rparr>"] saved_frame_apart [OF r(4)] W s'(3) ca
      apart_neq [OF r(4)] by simp
  then have "machine_step P fuel m r = ret \<lparr>m_kernel = (m_kernel m)\<lparr>ks_sched := s'\<rparr>, m_at = pt, m_saved = ?sv\<rparr>"
    using at s'(1) by (auto simp: machine_step_def kernel_main_def test_thread_def yield_here_def)
  then show ?thesis using s' by blast
qed

lemma below_frame: "a - 8 * of_nat i \<noteq> a - 64 - (8 :: usize)" if "i \<le> 8" for i :: nat
proof -
  have "(of_nat (8 * i) :: usize) \<noteq> of_nat 72" using that by (subst word_of_nat_eq_iff) (simp add: take_bit_nat_eq_self)
  then show ?thesis by simp
qed

lemma step_quit:
  assumes at: "m_at m = Test_at 1" and p: "pair_ok (ks_sched (m_kernel m)) c frc x (r_rsp rx - 64) frx"
    and W: "word_memory (ks_sched (m_kernel m)) = saved_frame rx (ca_restore_task_state (pl_code P)) W" "m_saved m (r_rsp rx) = Some pt"
    and d: "drop_owned_frames (frame_allocator_cell (ks_sched (m_kernel m))) \<lparr>ofr_frames = frc\<rparr> = ret cell"
    and ca: "ca_restore_task_state (pl_code P) \<noteq> ca_task_init_trampoline (pl_code P)"
  shows "\<exists>s'. machine_step P fuel m r = ret \<lparr>m_kernel = (m_kernel m)\<lparr>ks_sched := s'\<rparr>, m_at = pt, m_saved = m_saved m\<rparr> \<and> frame_allocator_cell s' = cell \<and> CURRENT_TASK s' = None"
proof -
  let ?a = "r_rsp rx"
  obtain s where s: "quit_current (pl_code P) (ks_sched (m_kernel m)) r
        = ret (s, ca_clean_quit_task (pl_code P), r\<lparr>r_rax := ?a - 64 - 8, r_rdi := c, r_rsp := ?a - 64\<rparr>)"
    "word_memory s = (word_memory (ks_sched (m_kernel m)))(?a - 64 - 8 := ca_clean_quit_task (pl_code P))"
    "frame_allocator_cell s = frame_allocator_cell (ks_sched (m_kernel m))" "CURRENT_TASK s = None" "task_memory s c = Some (running_task frc)"
    using quit_pair [OF p, of "pl_code P" r] by blast
  let ?s = "s\<lparr>frame_allocator_cell := cell\<rparr>"
  have c: "clean_quit_task s c = ret ?s" using clean_quit_running [OF s(5)] d s(3) by simp
  have "machine_step P fuel m r = ret \<lparr>m_kernel = (m_kernel m)\<lparr>ks_sched := ?s\<rparr>, m_at = pt, m_saved = m_saved m\<rparr>"
    using s(1) c at resume_restored [of "(m_kernel m)\<lparr>ks_sched := ?s\<rparr>" rx P W "m_saved m" pt "r\<lparr>r_rax := ?a - 64 - 8, r_rdi := c\<rparr>"]
      W s(2) below_frame [of _ ?a] ca by (simp add: machine_step_def test_thread_def after_quit_def)
  then show ?thesis using s(4) by (intro exI [of _ ?s]) simp
qed

lemma machine_run_ok:
  assumes ready: "main_ready P m main frm a" and io: "pic_8259 (pl_io P) c1 c2" and ix: "\<forall>v \<in> {32..<256}. pl_indexable P v"
    and ca: "distinct [ca_clean_quit_task (pl_code P), ca_restore_task_state (pl_code P), ca_task_init_trampoline (pl_code P)]"
    and n: "pl_size_of_task P \<noteq> 0" "unat (pl_size_of_task P) \<le> 32736" and fuel: "0 < fuel"
    and al: "allocate_range a 1 = ret (Some fr, a')" "test = new_task_ptr (pl_size_of_task P) (fidx (fr_first fr))"
    and rs: "regs_ok test r1 r2 r3"
  shows "\<exists>m'. machine_run P fuel m [r0, r1, r2, r3, r4] = ret m' \<and> m_at m' = Main_at 3
    \<and> ks_interrupts (m_kernel m') \<and> (\<forall>v < 256. IDT (ks_idt (m_kernel m')) ! v = vector_entry v)
    \<and> masks_ok c1 c2 (ks_irq (m_kernel m')) \<and> IRQ_HANDLERS (ks_irq (m_kernel m')) = (replicate 16 None)[1 := Some Keyboard_handler]
    \<and> frame_allocator_cell (ks_sched (m_kernel m')) = Some a \<and> CURRENT_TASK (ks_sched (m_kernel m')) = None"
proof -
  let ?st = "m_kernel m" and ?m1 = "m\<lparr>m_at := Main_at 1\<rparr>"
  have m: "m_at m = Main_at 0" "m_saved m = Map.empty" "length (IDT (ks_idt ?st)) = 256"
    "\<forall>v < 256. IDT (ks_idt ?st) ! v = (if v < 32 then vector_entry v else Missing)" "IRQ_HANDLERS (ks_irq ?st) = replicate 16 None"
    and cell: "frame_allocator_cell (ks_sched ?st) = Some a" "bitmap_inv a" "8 * length (bitmap a) \<le> 33554432"
    and cur: "CURRENT_TASK (ks_sched ?st) = Some main" "SCHEDULER (ks_sched ?st) = Some \<lparr>ready_list_head = None\<rparr>"
      "task_memory (ks_sched ?st) main = Some (running_task frm)" "\<forall>i \<in> free_frames a. new_task_ptr (pl_size_of_task P) i \<noteq> main"
    using ready by (auto simp: main_ready_def)
  have g: "free_group (free_frames a) 1 (fidx (fr_first fr))" by (rule allocated_group [OF cell(2) al(1)])
  then have "fidx (fr_first fr) \<in> free_frames a" by (auto simp: free_group_def)
  then have tm: "test \<noteq> main" using cur(4) al(2) by auto
  have r: "r_rax r1 \<noteq> 0" "r_rsp r1 \<noteq> 64" "r_rax r2 \<noteq> 0" "r_rsp r2 \<noteq> 64" "r_rax r3 \<noteq> 0" "r_rsp r3 \<noteq> 64"
    "apart test (r_rsp r1)" "apart (r_rsp r1) (r_rsp r2)" "apart (r_rsp r2) (r_rsp r3)" using rs by (auto simp: regs_ok_def)
  have ca': "ca_restore_task_state (pl_code P) \<noteq> ca_task_init_trampoline (pl_code P)" using ca by simp
  have 1: "machine_step P fuel m r0 = ret ?m1"
    using yield_alone [OF cur(1-3)] by (simp add: machine_step_def kernel_main_def yield_here_def m(1) next_point_def)
  obtain idt irq where irq: "set_up_irqs P ?st = ret (?st\<lparr>ks_idt := (ks_idt ?st)\<lparr>IDT := idt\<rparr>, ks_interrupts := True, ks_irq := irq\<rparr>)"
    "\<forall>v < 256. idt ! v = vector_entry v" "masks_ok c1 c2 irq" "IRQ_HANDLERS irq = (replicate 16 None)[1 := Some Keyboard_handler]"
    using set_up_irqs_ok [OF io ix m(3-5)] by blast
  let ?k = "?st\<lparr>ks_idt := (ks_idt ?st)\<lparr>IDT := idt\<rparr>, ks_interrupts := True, ks_irq := irq\<rparr>"
  obtain s1 where s1: "spawn_kthread (pl_code P) (pl_size_of_task P) fuel (ks_sched ?st) (pl_test_thread P) 0 = ret s1" "pair_ok s1 main frm test (test - 32) fr"
    "frame_allocator_cell s1 = Some a'" "word_memory s1 = (word_memory (ks_sched ?st))(test - 8 := 0, test - 16 := pl_test_thread P, test - 24 := 0,
      test - 32 := ca_task_init_trampoline (pl_code P))"
    using spawn_alone [OF cell g n al cur(1-3) tm, of "pl_code P" fuel "pl_test_thread P" 0] by blast
  obtain s2 where s2: "machine_step P fuel ?m1 r1 = ret \<lparr>m_kernel = ?k\<lparr>ks_sched := s2\<rparr>, m_at = Test_at 0, m_saved = [r_rsp r1 \<mapsto> Main_at 2]\<rparr>"
    "pair_ok s2 test fr main (r_rsp r1 - 64) frm" "word_memory s2 = saved_frame r1 (ca_restore_task_state (pl_code P)) (word_memory s1)" "frame_allocator_cell s2 = Some a'"
    using step_spawn [of ?m1 P ?k fuel s1 main frm test fr r1] irq(1) s1 m(2) fuel r(1,2,7) by auto
  let ?m2 = "\<lparr>m_kernel = ?k\<lparr>ks_sched := s2\<rparr>, m_at = Test_at 0, m_saved = [r_rsp r1 \<mapsto> Main_at 2]\<rparr>"
  obtain s3 where s3: "machine_step P fuel ?m2 r2 = ret \<lparr>m_kernel = ?k\<lparr>ks_sched := s3\<rparr>, m_at = Main_at 2, m_saved = [r_rsp r1 \<mapsto> Main_at 2, r_rsp r2 \<mapsto> Test_at 1]\<rparr>"
    "pair_ok s3 main frm test (r_rsp r2 - 64) fr" "word_memory s3 = saved_frame r2 (ca_restore_task_state (pl_code P)) (word_memory s2)" "frame_allocator_cell s3 = Some a'"
    using step_yield [of ?m2 test fr main r1 frm P "word_memory s1" "Main_at 2" fuel r2] s2 fuel r(3,4,8) ca' by (auto simp: next_point_def)
  let ?m3 = "\<lparr>m_kernel = ?k\<lparr>ks_sched := s3\<rparr>, m_at = Main_at 2, m_saved = [r_rsp r1 \<mapsto> Main_at 2, r_rsp r2 \<mapsto> Test_at 1]\<rparr>"
    and ?sv = "[r_rsp r1 \<mapsto> Main_at 2, r_rsp r2 \<mapsto> Test_at 1, r_rsp r3 \<mapsto> Main_at 3]"
  obtain s4 where s4: "machine_step P fuel ?m3 r3 = ret \<lparr>m_kernel = ?k\<lparr>ks_sched := s4\<rparr>, m_at = Test_at 1, m_saved = ?sv\<rparr>"
    "pair_ok s4 test fr main (r_rsp r3 - 64) frm" "word_memory s4 = saved_frame r3 (ca_restore_task_state (pl_code P)) (word_memory s3)" "frame_allocator_cell s4 = Some a'"
    using step_yield [of ?m3 main frm test r2 fr P "word_memory s2" "Test_at 1" fuel r3] s3 fuel r(5,6,9) ca' by (auto simp: next_point_def)
  let ?m4 = "\<lparr>m_kernel = ?k\<lparr>ks_sched := s4\<rparr>, m_at = Test_at 1, m_saved = ?sv\<rparr>"
  have d: "drop_owned_frames (Some a') \<lparr>ofr_frames = fr\<rparr> = ret (Some a)"
    using deallocate_allocated [OF cell(2), of 1 fr a'] al(1) by (simp add: drop_owned_frames_def deallocate_frames_def sound_orders_def)
  obtain s5 where "machine_step P fuel ?m4 r4 = ret \<lparr>m_kernel = ?k\<lparr>ks_sched := s5\<rparr>, m_at = Main_at 3, m_saved = ?sv\<rparr>" "frame_allocator_cell s5 = Some a" "CURRENT_TASK s5 = None"
    using step_quit [of ?m4 test fr main r3 frm P "word_memory s3" "Main_at 3" "Some a" fuel r4] s4 d ca' by auto
  then show ?thesis using 1 s2(1) s3(1) s4(1) irq(2-4) by simp
qed

text \<open>From the jump of \<^verbatim>\<open>kernel_entry\<close> through \<^verbatim>\<open>kernel_main_init_fn\<close>, which makes the idle task.\<close>

lemma new_task_ptr_inj:
  assumes "new_task_ptr n i = new_task_ptr n j" "i < 33554432" "j < 33554432" "unat n \<le> 32736"
  shows "i = j"
  using unat_new_task_ptr [of i n] unat_new_task_ptr [of j n] assms by simp

lemma resume_first_task:
  assumes tr: "task_init_trampoline (ks_sched st) r = (ca_kernel_main_init_fn (pl_code P), r1\<lparr>r_rdi := pl_kernel_main P\<rparr>)"
    and P: "pl_test_thread P \<noteq> ca_kernel_main_init_fn (pl_code P)" "pl_size_of_task P \<noteq> 0" "unat (pl_size_of_task P) \<le> 32736"
    and idt: "length (IDT (ks_idt st)) = 256" "\<forall>v < 256. IDT (ks_idt st) ! v = (if v < 32 then vector_entry v else Missing)"
    and irq: "IRQ_HANDLERS (ks_irq st) = replicate 16 None"
    and cell: "frame_allocator_cell (ks_sched st) = Some a" "bitmap_inv a" "8 * length (bitmap a) \<le> 33554432"
    and free: "free_frames a = free - {f, Suc f}" "f < 33554432" "free_group (free_frames a) 1 g"
    and main: "main = new_task_ptr (pl_size_of_task P) f" "fidx (fr_first fr) = f" "sched_ok (ks_sched st) main []" "task_memory (ks_sched st) main = Some (running_task fr)"
  shows "\<exists>m a'. resume P st Map.empty (ca_task_init_trampoline (pl_code P), r) = ret m \<and> main_ready P m main fr a'
    \<and> (\<exists>sched. m_kernel m = st\<lparr>ks_sched := sched\<rparr>)
    \<and> (\<exists>h. free_group (free_frames a) 1 h \<and> free_frames a' = free_frames a - {h, Suc h} \<and> IDLE_TASK (ks_sched (m_kernel m)) = Some (new_task_ptr (pl_size_of_task P) h))"
proof -
  let ?n = "pl_size_of_task P" and ?ca = "pl_code P"
  obtain fi a' where al: "allocate_range a 1 = ret (Some fi, a')" "fidx (fr_first fi) < 33554432" "fidx (fr_first fi) \<in> free_frames a"
    and eq: "let p = new_task_ptr ?n (fidx (fr_first fi)) in
       create_task ?ca ?n (ks_sched st) (ca_idle_task_fn ?ca) 0 = ret (p, (ks_sched st)\<lparr>frame_allocator_cell := Some a',
         task_memory := (task_memory (ks_sched st))(p \<mapsto> \<lparr>stack_frames = \<lparr>ofr_frames = fi\<rparr>, rsp = Some (p - 32), prev_in_list = None, next_in_list = None\<rparr>),
         word_memory := (word_memory (ks_sched st))(p - 8 := 0, p - 16 := ca_idle_task_fn ?ca, p - 24 := 0, p - 32 := ca_task_init_trampoline ?ca)\<rparr>)"
    using create_task_eq [OF cell free(3) P(2,3), of ?ca "ca_idle_task_fn ?ca" 0] by blast
  obtain r where r: "free_group (free_frames a) 1 (fidx (fr_first fi))" "unat (fr_count fi) = 2" "free_frames a' = free_frames a - range_frames fi"
    "bitmap_inv a'" "known_frames a' = known_frames a"
    using ba.alloc_some [OF cell(2) _ free(3)] al(1) by (auto simp: sound_orders_def)
  have rf: "range_frames fi = {fidx (fr_first fi), Suc (fidx (fr_first fi))}" using r(2) by (auto simp: range_frames_def)
  have len: "8 * length (bitmap a') \<le> 33554432" using r(5) cell(3) by (simp add: known_frames_def lessThan_eq_iff)
  have fresh: "\<forall>i \<in> free_frames a'. new_task_ptr ?n i \<noteq> main"
  proof
    fix i assume i: "i \<in> free_frames a'"
    then have "i \<in> known_frames a'" "i \<noteq> f" using ba.free_known [of a'] r(3) free(1) by blast+
    then have "i < 33554432" using len by (simp add: known_frames_def)
    then show "new_task_ptr ?n i \<noteq> main" using new_task_ptr_inj [of ?n i f] free(2) P(3) main(1) \<open>i \<noteq> f\<close> by blast
  qed
  have im: "new_task_ptr ?n (fidx (fr_first fi)) \<noteq> main" using new_task_ptr_inj [of ?n "fidx (fr_first fi)" f] al(2,3) free(1,2) P(3) main(1) by auto
  have s: "CURRENT_TASK (ks_sched st) = Some main" "SCHEDULER (ks_sched st) = Some \<lparr>ready_list_head = None\<rparr>"
    using main(3) by (auto simp: sched_ok_def ready_queue_is_def)
  show ?thesis
    unfolding resume_def start_fn_def kernel_main_init_fn_def using eq tr P(1) s main(4) im fresh r(1,3,4) len rf idt irq
    by (auto simp: main_ready_def Let_def)
qed

text \<open>Two groups of two frames: one of them is still free after one group was taken.\<close>

lemma second_group:
  assumes "free_group F 1 g1" "free_group F 1 g2" "g1 \<noteq> g2" "free_group F 1 f"
  shows "\<exists>g. free_group (F - {f, Suc f}) 1 g"
proof -
  have "free_group (F - {f, Suc f}) 1 g" if g: "free_group F 1 g" "g \<noteq> f" for g
  proof -
    have "even g" "even f" "{g..<g + 2} \<subseteq> F" using g(1) assms(4) by (auto simp: free_group_def)
    moreover from this(1,2) have "g \<noteq> Suc f" "Suc g \<noteq> f" by auto
    ultimately show ?thesis using g(2) by (auto simp: free_group_def)
  qed
  then show ?thesis using assms by metis
qed

section \<open>Properties\<close>


text \<open>The machine with 32 MiB of the initialisation of memory, a table of descriptors as a list and two controllers.\<close>

definition small_platform ::
  "(map_entry option \<times> map_entry list, phys_extent option \<times> phys_extent list, map_entry list, u64, nat list, nat, pic_chip \<times> pic_chip) platform" where
  "small_platform = \<lparr>pl_marker = slot_ops, pl_flags = bit_flags, pl_gdt = list_gdt, pl_io = two_chips, pl_indexable = (\<lambda>v. v = 9 \<or> 32 \<le> v),
     pl_syms = small_syms, pl_cr3_frame = ret, pl_root_ptr = 0xffffffff80180000,
     pl_code = \<lparr>ca_clean_quit_task = 1, ca_restore_task_state = 2, ca_task_init_trampoline = 3, ca_kernel_main_init_fn = 4, ca_idle_task_fn = 5\<rparr>,
     pl_kernel_main = 6, pl_test_thread = 7, pl_size_of_task = 72, pl_load = (\<lambda>a. if a = 0x9000 then Some small_info else None),
     pl_module_tags = (\<lambda>_. [(0x300000, 0x302000)]), pl_elf_file = (\<lambda>_. True)\<rparr>"

definition small_kernel :: "(nat list, pic_chip \<times> pic_chip) kernel_state" where
  "small_kernel = \<lparr>ks_screen = replicate 4000 0, ks_logger = None, ks_max_level = None, ks_interrupts = True, ks_gdt = boot_gdt, ks_idt = idt_new,
     ks_irq = \<lparr>IRQ_HANDLERS = replicate 16 None, hw = fresh_chips\<rparr>, ks_mm = small_mm,
     ks_sched = \<lparr>CURRENT_TASK = None, IDLE_TASK = None, SCHEDULER = None, task_memory = Map.empty, word_memory = (\<lambda>_. 0), frame_allocator_cell = None\<rparr>\<rparr>"

lemma small_platform_ok: "platform_ok small_platform (\<lambda>g. g)"
  by (simp add: platform_ok_def small_platform_def slot_ops_law bit_flags_law list_gdt_law small_machine_ok)

lemma small_kernel_fresh: "kernel_fresh (\<lambda>g. g) small_kernel"
  by (simp add: kernel_fresh_def small_kernel_def boot_gdt_def small_machine_ok)



text \<open>Stack pointers at least 72 bytes from each other.\<close>

lemma apart_far:
  assumes "64 \<le> unat a" "unat a + 64 < unat b"
  shows "apart a b" "apart b a"
proof -
  have u: "unat (x - 8 * of_nat i) = unat x - 8 * i" if "64 \<le> unat x" "i \<le> 8" for x :: usize and i
  proof -
    have i: "unat (8 * of_nat i :: usize) = 8 * i" using that(2) unat_of_nat_eq [of "8 * i", where 'a = 64] by simp
    then show ?thesis using that by (subst unat_sub_exact) (simp_all add: word_le_nat_alt i)
  qed
  have "a - 8 * of_nat i \<noteq> b - 8 * of_nat j" if "i \<le> 8" "j \<le> 8" for i j
  proof
    assume "a - 8 * of_nat i = b - 8 * of_nat j"
    then have "unat a - 8 * i = unat b - 8 * j" using u [of a i] u [of b j] assms that by simp
    then show False using assms that by linarith
  qed
  then show "apart a b" "apart b a" unfolding apart_def by metis+
qed


end
