(* ===== verification/Unit_Tests.thy ===== *)
theory Unit_Tests
  imports Bitmap_Fill
begin

text \<open>
  The repository's own tests (the modules \<^verbatim>\<open>tests\<close> of \<^verbatim>\<open>addr.rs\<close>, \<^verbatim>\<open>memory.rs\<close> and \<^verbatim>\<open>phys.rs\<close> in \<^verbatim>\<open>shared/src/memory\<close>), translated like the
  code they test: a test is a computation that panics when an assertion fails. Running them on the models shows
  that the models compute what the authors expect of the code. The two tests of \<^verbatim>\<open>proptest\<close>, which the authors run on
  random inputs, are proved for all inputs.
\<close>

section \<open>Tests\<close>

definition assert_eq :: "'a rust \<Rightarrow> 'a rust \<Rightarrow> unit rust" where
  "assert_eq x y = bnd x (\<lambda>a. bnd y (\<lambda>b. rassert (a = b)))"

primrec run_all :: "unit rust list \<Rightarrow> unit rust" where
  "run_all [] = ret ()"
| "run_all (t # ts) = bnd t (\<lambda>_. run_all ts)"

primrec collect :: "'a rust list \<Rightarrow> 'a list rust" where
  "collect [] = ret []"
| "collect (x # xs) = bnd x (\<lambda>a. bnd (collect xs) (\<lambda>as. ret (a # as)))"

subsection \<open>Addresses and extents\<close>

definition on_extents :: "(phys_extent \<Rightarrow> phys_extent \<Rightarrow> 'a rust) \<Rightarrow> u64 \<Rightarrow> u64 \<Rightarrow> u64 \<Rightarrow> u64 \<Rightarrow> 'a rust" where
  "on_extents f a l b m = bnd (extent_from_raw a l) (\<lambda>e. bnd (extent_from_raw b m) (f e))"

definition some_extent :: "u64 \<Rightarrow> u64 \<Rightarrow> phys_extent option rust" where
  "some_extent a l = bnd (extent_from_raw a l) (\<lambda>e. ret (Some e))"

definition align_raw_test :: "unit rust" where
  "align_raw_test = run_all
    [assert_eq (align_u64_down 0 2) (ret 0), assert_eq (align_u64_down 1 2) (ret 0),
     assert_eq (align_u64_down 2 2) (ret 2), assert_eq (align_u64_up 0 2) (ret 0),
     assert_eq (align_u64_up 1 2) (ret 2), assert_eq (align_u64_up 2 2) (ret 2),
     assert_eq (align_u64_down 255 1024) (ret 0), assert_eq (align_u64_up 255 1024) (ret 1024)]"

definition align_address_test :: "unit rust" where
  "align_address_test = run_all
    [assert_eq (address_align_down (Address 0 :: phys_address) 1024) (ret (Address 0)), assert_eq (address_align_up (Address 0 :: phys_address) 1024) (ret (Address 0)),
     assert_eq (address_align_down (Address 1024 :: phys_address) 1024) (ret (Address 1024)), assert_eq (address_align_up (Address 1024 :: phys_address) 1024) (ret (Address 1024)),
     assert_eq (address_align_down (Address 1 :: phys_address) 1024) (ret (Address 0)), assert_eq (address_align_up (Address 1 :: phys_address) 1024) (ret (Address 1024)),
     assert_eq (address_align_down (Address 1023 :: phys_address) 1024) (ret (Address 0)), assert_eq (address_align_up (Address 1023 :: phys_address) 1024) (ret (Address 1024))]"

definition overlap_extent_test :: "unit rust" where
  "overlap_extent_test = run_all
    [assert_eq (on_extents overlap 0 8 0 8) (some_extent 0 8), assert_eq (on_extents overlap 0 8 8 8) (ret None),
     assert_eq (on_extents overlap 0 8 1024 8) (ret None), assert_eq (on_extents overlap 5 5 8 7) (some_extent 8 2),
     assert_eq (on_extents overlap 8 7 5 5) (some_extent 8 2), assert_eq (on_extents overlap 0 10 2 3) (some_extent 2 3),
     assert_eq (on_extents overlap 2 3 0 10) (some_extent 2 3)]"

definition shrink :: "u64 \<Rightarrow> u64 \<Rightarrow> phys_extent option rust" where
  "shrink a l = bnd (extent_from_raw a l) (\<lambda>e. shrink_to_alignment e 4096)"

definition shrink_extent_test :: "unit rust" where
  "shrink_extent_test = run_all
    [assert_eq (bnd (shrink 1 8191) unwrap) (extent_from_raw 4096 4096), assert_eq (bnd (shrink 0 4097) unwrap) (extent_from_raw 0 4096),
     assert_eq (bnd (shrink 4095 4097) unwrap) (extent_from_raw 4096 4096)]"

definition shrink_extent_already_aligned_test :: "unit rust" where
  "shrink_extent_already_aligned_test = run_all
    [assert_eq (extent_from_raw 0 4096) (bnd (shrink 0 4096) unwrap), assert_eq (extent_from_raw 4096 8192) (bnd (shrink 4096 8192) unwrap)]"

definition shrink_extent_empty_test :: "unit rust" where
  "shrink_extent_empty_test = run_all
    [assert_eq (shrink 1 4096) (ret None), assert_eq (shrink 0 4095) (ret None), assert_eq (shrink 1 8190) (ret None)]"

definition left_difference_test :: "unit rust" where
  "left_difference_test = run_all
    [assert_eq (on_extents left_difference 10 10 0 10) (ret None), assert_eq (on_extents left_difference 10 10 10 10) (ret None),
     assert_eq (on_extents left_difference 10 10 20 10) (some_extent 10 10), assert_eq (on_extents left_difference 10 10 5 10) (ret None),
     assert_eq (on_extents left_difference 10 10 15 10) (some_extent 10 5), assert_eq (on_extents left_difference 10 10 12 6) (some_extent 10 2),
     assert_eq (on_extents left_difference 10 10 8 14) (ret None)]"

definition right_difference_test :: "unit rust" where
  "right_difference_test = run_all
    [assert_eq (on_extents right_difference 10 10 0 10) (some_extent 10 10), assert_eq (on_extents right_difference 10 10 10 10) (ret None),
     assert_eq (on_extents right_difference 10 10 20 10) (ret None), assert_eq (on_extents right_difference 10 10 5 10) (some_extent 15 5),
     assert_eq (on_extents right_difference 10 10 15 10) (ret None), assert_eq (on_extents right_difference 10 10 12 6) (some_extent 18 2),
     assert_eq (on_extents right_difference 10 10 8 14) (ret None)]"

definition contains_test :: "unit rust" where
  "contains_test = run_all
    [assert_eq (on_extents contains 10 10 0 10) (ret False), assert_eq (on_extents contains 10 10 10 10) (ret True),
     assert_eq (on_extents contains 10 10 20 10) (ret False), assert_eq (on_extents contains 10 10 5 10) (ret False),
     assert_eq (on_extents contains 0 10 5 4) (ret True)]"

text \<open>\<^verbatim>\<open>prop_assume!\<close> ends the test when its condition is false.\<close>

definition overlap_is_commutative :: "u64 \<Rightarrow> u64 \<Rightarrow> u64 \<Rightarrow> u64 \<Rightarrow> unit rust" where
  "overlap_is_commutative a_first a_last b_first b_last =
     (if \<not> a_first \<le> a_last then ret ()
      else if \<not> b_first \<le> b_last then ret ()
      else
        bnd (from_range_inclusive (Address a_first) (Address a_last)) (\<lambda>a :: phys_extent.
        bnd (from_range_inclusive (Address b_first) (Address b_last)) (\<lambda>b.
        assert_eq (overlap a b) (overlap b a))))"

subsection \<open>The memory map\<close>

definition test_extent :: "u64 \<Rightarrow> u64 \<Rightarrow> phys_extent rust" where
  "test_extent a b = from_raw_range_exclusive a b"

definition test_entry :: "memory_type \<Rightarrow> u64 \<Rightarrow> u64 \<Rightarrow> map_entry rust" where
  "test_entry ty a b = bnd (test_extent a b) (\<lambda>e. ret \<lparr>me_extent = e, me_type = ty\<rparr>)"

definition test_regions :: "map_entry list rust" where
  "test_regions = collect
       [test_entry Available 0 100, test_entry Reserved 100 200, test_entry Available 200 300, test_entry Defective 325 375,
        test_entry Available 400 600, test_entry Available 700 800, test_entry Available 800 900, test_entry Available 900 1000,
        test_entry Available 1100 1200]"

definition test_areas :: "phys_extent list rust" where
  "test_areas = collect
       [test_extent 25 75, test_extent 200 300, test_extent 400 500, test_extent 750 775, test_extent 790 825, test_extent 950 1000]"

definition test_correct :: "map_entry list rust" where
  "test_correct = collect
       [test_entry Available 0 25, test_entry KernelLoad 25 75, test_entry Available 75 100, test_entry Reserved 100 200,
        test_entry KernelLoad 200 300, test_entry Defective 325 375, test_entry KernelLoad 400 500, test_entry Available 500 600,
        test_entry Available 700 750, test_entry KernelLoad 750 775, test_entry Available 775 790, test_entry KernelLoad 790 800,
        test_entry KernelLoad 800 825, test_entry Available 825 900, test_entry Available 900 950, test_entry KernelLoad 950 1000,
        test_entry Available 1100 1200]"

definition test_mark_kernel_areas :: "('r, 'k, 'v) marker_ops \<Rightarrow> nat \<Rightarrow> unit rust" where
  "test_mark_kernel_areas L fuel =
     bnd test_regions (\<lambda>regions.
     bnd test_areas (\<lambda>areas.
     assert_eq (mark_kernel_areas L fuel regions areas) test_correct))"

subsection \<open>The bitmap\<close>

definition map_from_extents :: "phys_extent list \<Rightarrow> memory_map rust" where
  "map_from_extents extents = from_entries (map (\<lambda>e. \<lparr>me_extent = e, me_type = Available\<rparr>) extents)"

definition map_from_pairs :: "(u64 \<times> u64) list \<Rightarrow> memory_map rust" where
  "map_from_pairs pairs = bnd (collect (map (\<lambda>(b, e). from_raw_range_exclusive b e) pairs)) map_from_extents"

definition fill_bitmap :: "memory_map \<Rightarrow> u8 list rust" where
  "fill_bitmap m =
     bnd (map_entries m) (\<lambda>es.
     bnd (unwrap (if es = [] then None else Some (last es))) (\<lambda>e.
     bnd (end_address (me_extent e)) (\<lambda>a.
     bnd (u_mul (len_raw PAGE_SIZE) 8) (\<lambda>d.
     bnd (ceil_divide (addr_raw a) d) (\<lambda>n.
     fill_bitmap_from_map (replicate (unat n) 0) m)))))"

definition fill_pairs :: "(u64 \<times> u64) list \<Rightarrow> u8 list rust" where
  "fill_pairs pairs = bnd (map_from_pairs pairs) fill_bitmap"

definition most_significant_bits_test :: "unit rust" where
  "most_significant_bits_test = run_all
    [assert_eq (set_most_significant_bits 0) (ret 0x0), assert_eq (set_most_significant_bits 1) (ret 0x80),
     assert_eq (set_most_significant_bits 2) (ret 0xc0), assert_eq (set_most_significant_bits 3) (ret 0xe0),
     assert_eq (set_most_significant_bits 4) (ret 0xf0), assert_eq (set_most_significant_bits 5) (ret 0xf8),
     assert_eq (set_most_significant_bits 6) (ret 0xfc), assert_eq (set_most_significant_bits 7) (ret 0xfe),
     assert_eq (set_most_significant_bits 8) (ret 0xff)]"

definition least_significant_bits_test :: "unit rust" where
  "least_significant_bits_test = run_all
    [assert_eq (set_least_significant_bits 0) (ret 0x0), assert_eq (set_least_significant_bits 1) (ret 0x1),
     assert_eq (set_least_significant_bits 2) (ret 0x3), assert_eq (set_least_significant_bits 3) (ret 0x7),
     assert_eq (set_least_significant_bits 4) (ret 0xf), assert_eq (set_least_significant_bits 5) (ret 0x1f),
     assert_eq (set_least_significant_bits 6) (ret 0x3f), assert_eq (set_least_significant_bits 7) (ret 0x7f),
     assert_eq (set_least_significant_bits 8) (ret 0xff)]"

definition find_bit_groups_test :: "unit rust" where
  "find_bit_groups_test = run_all
    [assert_eq (find_bit_group 0x1 1) (ret (Some 0)), assert_eq (find_bit_group 0x3 2) (ret (Some 0)),
     assert_eq (find_bit_group 0xf 4) (ret (Some 0)), assert_eq (find_bit_group 0x80 1) (ret (Some 7)),
     assert_eq (find_bit_group 0xc0 2) (ret (Some 6)), assert_eq (find_bit_group 0xf0 4) (ret (Some 4)),
     assert_eq (find_bit_group 0x30 2) (ret (Some 4)), assert_eq (find_bit_group 0xc 2) (ret (Some 2)),
     assert_eq (find_bit_group 0xff 2) (ret (Some 0)), assert_eq (find_bit_group 0xfc 2) (ret (Some 2)),
     assert_eq (find_bit_group 0xf0 2) (ret (Some 4)), assert_eq (find_bit_group 0x55 2) (ret None),
     assert_eq (find_bit_group 0xee 4) (ret None)]"

definition fill_bitmap_single_element_test :: "unit rust" where
  "fill_bitmap_single_element_test = run_all
    [assert_eq (fill_pairs [(0, 0x1000 * 8)]) (ret [0xff]), assert_eq (fill_pairs [(0, 0x1000 * 16)]) (ret [0xff, 0xff]),
     assert_eq (fill_pairs [(0, 0x1000 * 24)]) (ret [0xff, 0xff, 0xff]), assert_eq (fill_pairs [(0x1000, 0x1000 * 24)]) (ret [0xfe, 0xff, 0xff]),
     assert_eq (fill_pairs [(0, 0x1000 * 23)]) (ret [0xff, 0xff, 0x7f]), assert_eq (fill_pairs [(0x1000, 0x1000 * 23)]) (ret [0xfe, 0xff, 0x7f]),
     assert_eq (fill_pairs [(0x1000 * 7, 0x1000 * 17)]) (ret [0x80, 0xff, 0x1])]"

definition fill_bitmap_multiple_elements_test :: "unit rust" where
  "fill_bitmap_multiple_elements_test = run_all
    [assert_eq (fill_pairs [(0, 0x1000 * 8), (0x1000 * 16, 0x1000 * 24)]) (ret [0xff, 0x0, 0xff]), assert_eq (fill_pairs [(0, 0x1000 * 9), (0x1000 * 15, 0x1000 * 24)]) (ret [0xff, 0x81, 0xff])]"

definition fill_bitmap_off_page_boundary_test :: "unit rust" where
  "fill_bitmap_off_page_boundary_test = run_all
    [assert_eq (fill_pairs [(0, 0x1000 * 8 + 1)]) (ret [0xff, 0x0]), assert_eq (fill_pairs [(0, 0x1000 * 8 + 1), (0x1000 * 16 - 1, 0x1000 * 24)]) (ret [0xff, 0x0, 0xff])]"

definition fill_bitmap_filters_unavailable_test :: "unit rust" where
  "fill_bitmap_filters_unavailable_test =
     assert_eq (bnd (bnd (collect [test_entry Acpi 0 (0x1000 * 8), test_entry Available (0x1000 * 8) (0x1000 * 16)]) from_entries) fill_bitmap)
       (ret [0, 0xff])"

subsection \<open>The allocator\<close>

text \<open>\<^verbatim>\<open>Frame::new(PhysAddress::from_zero(PAGE_SIZE * n))\<close>; \<open>allocate().unwrap()\<close>; and \<^verbatim>\<open>n\<close> of them put into a set that has none of them.\<close>

definition frame_no :: "u64 \<Rightarrow> frame rust" where
  "frame_no n = bnd (length_mul PAGE_SIZE n) (\<lambda>l. frame_new (from_zero l))"

definition allocate_one :: "bitmap_allocator \<Rightarrow> (frame \<times> bitmap_allocator) rust" where
  "allocate_one a = bnd (allocate a) (\<lambda>(f, a). bnd (unwrap f) (\<lambda>f. ret (f, a)))"

primrec allocate_unique :: "nat \<Rightarrow> frame set \<Rightarrow> bitmap_allocator \<Rightarrow> (frame set \<times> bitmap_allocator) rust" where
  "allocate_unique 0 S a = ret (S, a)"
| "allocate_unique (Suc n) S a =
     bnd (allocate_one a) (\<lambda>(f, a).
     bnd (rassert (f \<notin> S)) (\<lambda>_.
     allocate_unique n (insert f S) a))"

definition assert_none_left :: "bitmap_allocator \<Rightarrow> unit rust" where
  "assert_none_left a = bnd (allocate a) (\<lambda>(f, _). rassert (f = None))"

definition returns_correct_available_frames_test :: "unit rust" where
  "returns_correct_available_frames_test =
     bnd (allocate_unique 3 {} (bitmap_new [0x20, 0x10, 0x02])) (\<lambda>(S, _).
     bnd (collect [frame_no 5, frame_no 12, frame_no 17]) (\<lambda>fs.
     rassert (S = set fs)))"

definition does_not_return_reserved_frame_test :: "unit rust" where
  "does_not_return_reserved_frame_test =
     bnd (frame_no 1) (\<lambda>f1.
     bnd (frame_no 6) (\<lambda>f6.
     bnd (reserve (bitmap_new [0x42]) f1) (\<lambda>(r, a).
     bnd (rassert (r = Inr ())) (\<lambda>_.
     bnd (allocate_one a) (\<lambda>(f, a).
     bnd (rassert (f = f6)) (\<lambda>_.
     bnd (assert_none_left a) (\<lambda>_.
     bnd (unreserve a f1) (\<lambda>a.
     bnd (allocate_one a) (\<lambda>(f, a).
     bnd (rassert (f = f1)) (\<lambda>_.
     assert_none_left a))))))))))"

definition returns_freed_frame_test :: "unit rust" where
  "returns_freed_frame_test =
     bnd (allocate_one (bitmap_new [0x42])) (\<lambda>(frame1, a).
     bnd (allocate_one a) (\<lambda>(frame2, a).
     bnd (assert_none_left a) (\<lambda>_.
     bnd (deallocate a frame2) (\<lambda>a.
     bnd (allocate_one a) (\<lambda>(f, a).
     bnd (rassert (f = frame2)) (\<lambda>_.
     bnd (deallocate a frame1) (\<lambda>a.
     bnd (allocate_one a) (\<lambda>(f, a).
     rassert (f = frame1)))))))))"

definition count_ones :: "u8 \<Rightarrow> u32" where
  "count_ones b = of_nat (length (filter (bit b) [0..<8]))"

primrec sum_ones :: "u64 \<Rightarrow> u8 list \<Rightarrow> u64 rust" where
  "sum_ones acc [] = ret acc"
| "sum_ones acc (b # bs) = bnd (u_add acc (ucast (count_ones b))) (\<lambda>acc. sum_ones acc bs)"

definition uses_all_available_memory :: "u8 list \<Rightarrow> unit rust" where
  "uses_all_available_memory bm =
     bnd (sum_ones 0 bm) (\<lambda>free_frame_count.
     bnd (allocate_unique (unat free_frame_count) {} (bitmap_new bm)) (\<lambda>(_, a).
     assert_none_left a))"

section \<open>Properties\<close>

lemmas word_eval = u_add_def u_sub_def u_mul_def u_div_def u_rem_def u_shl_def u_shr_def checked_add_def checked_sub_def checked_mul_def Let_def assert_eq_def

lemmas address_eval = align_u64_down_def align_u64_up_def address_align_down_def address_align_up_def address_add_def address_sub_def
  address_sub_length_def length_sub_def length_add_def offset_by_checked_def less_address_def less_eq_address_def less_mem_length_def less_eq_mem_length_def
  min_def max_def

lemmas extent_eval = extent_from_raw_def extent_new_def extent_new_checked_def overlap.simps contains_def left_difference_def right_difference_def
  shrink_to_alignment_def end_address_def last_address_def on_extents_def some_extent_def shrink_def

lemma align_tests: "align_raw_test = ret ()" "align_address_test = ret ()"
  by (simp_all add: align_raw_test_def align_address_test_def word_eval address_eval)

lemma overlap_test: "overlap_extent_test = ret ()"
  by (simp add: overlap_extent_test_def word_eval address_eval extent_eval)

lemma shrink_tests: "shrink_extent_test = ret ()" "shrink_extent_already_aligned_test = ret ()" "shrink_extent_empty_test = ret ()"
  by (simp_all add: shrink_extent_test_def shrink_extent_already_aligned_test_def shrink_extent_empty_test_def word_eval address_eval extent_eval)

lemma difference_tests: "left_difference_test = ret ()" "right_difference_test = ret ()" "contains_test = ret ()"
  by (simp_all add: left_difference_test_def right_difference_test_def contains_test_def word_eval address_eval extent_eval)

lemma bits_tests: "most_significant_bits_test = ret ()" "least_significant_bits_test = ret ()" "find_bit_groups_test = ret ()"
  by code_simp+

lemmas frame_eval = PAGE_SIZE_def frame_new_def frame_containing_def frame_containing_extent_def frame_between_inclusive_def frame_range_new_def
  frame_next_def frame_index_def frame_range_last_def address_is_aligned_to_def length_is_aligned_to_def is_aligned_to_length_def index_def store_def

lemmas fill_eval = from_entries_eq map_entries_def iter_type_def filter_replicate from_raw_range_exclusive_def from_range_exclusive_def
  map_from_pairs_def map_from_extents_def fill_bitmap_def fill_pairs_def fill_bitmap_from_map_def BYTES_PER_ENTRY_def ceil_divide_def
  fill_range_def next_multiple_of_def step_by_def fill_leading_def fill_trailing_def or_byte_def set_most_significant_bits_def
  set_least_significant_bits_def try_into_def test_entry_def test_extent_def

text \<open>The indices of whole bytes, and the fresh bitmaps.\<close>

lemma byte_ranges:
  "[0..<8] = [0, 1, 2, 3, 4, 5, 6, 7]" "[0..<16] = [0, 1, 2, 3, 4, 5, 6, 7, 8, 9, 10, 11, 12, 13, 14, 15]"
  "[0..<24] = [0, 1, 2, 3, 4, 5, 6, 7, 8, 9, 10, 11, 12, 13, 14, 15, 16, 17, 18, 19, 20, 21, 22, 23]"
  "[8..<16] = [8, 9, 10, 11, 12, 13, 14, 15]" "[16..<24] = [16, 17, 18, 19, 20, 21, 22, 23]"
  "[8..<24] = [8, 9, 10, 11, 12, 13, 14, 15, 16, 17, 18, 19, 20, 21, 22, 23]"
  "replicate 2 (x :: u8) = [x, x]" "replicate 3 (x :: u8) = [x, x, x]"
  by (simp_all add: upt_rec numeral_2_eq_2 numeral_3_eq_3)

lemma fill_tests:
  "fill_bitmap_single_element_test = ret ()" "fill_bitmap_multiple_elements_test = ret ()" "fill_bitmap_off_page_boundary_test = ret ()"
  "fill_bitmap_filters_unavailable_test = ret ()"
  by (simp_all add: fill_bitmap_single_element_test_def fill_bitmap_multiple_elements_test_def fill_bitmap_off_page_boundary_test_def
      fill_bitmap_filters_unavailable_test_def word_eval address_eval extent_eval frame_eval fill_eval byte_ranges mask_eq_exp_minus_1)

abbreviation piece_of :: "memory_type \<Rightarrow> nat \<Rightarrow> nat \<Rightarrow> map_entry" where
  "piece_of ty u v \<equiv> \<lparr>me_extent = extent_of u (v - u), me_type = ty\<rparr>"

lemma test_lists:
  "test_regions = ret [piece_of Available 0 100, piece_of Reserved 100 200, piece_of Available 200 300, piece_of Defective 325 375, piece_of Available 400 600,
     piece_of Available 700 800, piece_of Available 800 900, piece_of Available 900 1000, piece_of Available 1100 1200]"
  "test_areas = ret [extent_of 25 50, extent_of 200 100, extent_of 400 100, extent_of 750 25, extent_of 790 35, extent_of 950 50]"
  "test_correct = ret [piece_of Available 0 25, piece_of KernelLoad 25 75, piece_of Available 75 100, piece_of Reserved 100 200, piece_of KernelLoad 200 300,
     piece_of Defective 325 375, piece_of KernelLoad 400 500, piece_of Available 500 600, piece_of Available 700 750, piece_of KernelLoad 750 775,
     piece_of Available 775 790, piece_of KernelLoad 790 800, piece_of KernelLoad 800 825, piece_of Available 825 900, piece_of Available 900 950,
     piece_of KernelLoad 950 1000, piece_of Available 1100 1200]"
  by (simp_all add: test_regions_def test_areas_def test_correct_def test_entry_def test_extent_def from_raw_range_exclusive_def from_range_exclusive_def
      word_eval extent_of_def addr_of_def mlen_of_def)

inductive_simps mark_rounds_simps: "mark_rounds [] ks es" "mark_rounds (r # rs) ks es"

lemma test_rounds:
  assumes "test_regions = ret rs" "test_areas = ret ks" "test_correct = ret es"
  shows "mark_rounds rs ks es" "regions_ok rs" "areas_ok ks" "length rs + 2 * length ks = 21"
proof -
  have e: "rs = projr test_regions" "ks = projr test_areas" "es = projr test_correct" by (simp_all add: assms)
  show "mark_rounds rs ks es"
    unfolding e test_lists sum.sel
    by (simp add: mark_rounds_simps mark_round_def markable_def piece_def r_lo_def r_hi_def)
  show "regions_ok rs" unfolding e test_lists sum.sel by (simp add: regions_ok_def r_lo_def r_hi_def valid_extent_def)
  show "areas_ok ks" unfolding e test_lists sum.sel by (simp add: areas_ok_def valid_extent_def)
  show "length rs + 2 * length ks = 21" unfolding e test_lists by simp
qed

lemma mark_test:
  assumes "marker_law L" "23 \<le> fuel"
  shows "test_mark_kernel_areas L fuel = ret ()"
proof -
  obtain rs ks es where t: "test_regions = ret rs" "test_areas = ret ks" "test_correct = ret es" using test_lists by blast
  obtain vr fr vk fk where L: "put_back_law (mk_r L) vr fr" "put_back_law (mk_k L) vk fk" "array_vec_law (mk_v L)"
    using assms(1) by (auto simp: marker_law_def)
  have "runs (mark_kernel_areas L fuel rs ks) (mark_rounds rs ks)"
    by (rule mark_kernel_areas_rounds [OF L]) (use test_rounds [OF t] assms(2) in auto)
  then show ?thesis using test_rounds(1) [OF t] mark_rounds_det by (auto simp: runs_iff test_mark_kernel_areas_def t assert_eq_def)
qed

lemmas alloc_eval = allocate_one_def allocate_def allocate_range_def alloc_small.simps find_bit_group_def find_bit_loop.simps offsets_to_frame_def
  frame_to_offsets_def bitmap_new_def frame_no_def length_mul_def from_zero_def reserve_def unreserve_def unreserve_impl_def deallocate_def
  deallocate_impl_def assert_none_left_def try_into_def

lemma power_of_two_1: "is_power_of_two 1"
  by code_simp

lemma three_bytes: "[0..<3] = [0, 1, 2 :: nat]"
  by (simp add: upt_rec)

lemma allocate_unique_3: "allocate_unique 3 S a = bnd (allocate_one a) (\<lambda>(f, a). bnd (rassert (f \<notin> S)) (\<lambda>_. allocate_unique 2 (insert f S) a))"
  "allocate_unique 2 S a = bnd (allocate_one a) (\<lambda>(f, a). bnd (rassert (f \<notin> S)) (\<lambda>_. allocate_unique 1 (insert f S) a))"
  by (simp_all add: numeral_3_eq_3 numeral_2_eq_2)

lemma allocator_tests:
  "returns_correct_available_frames_test = ret ()" "does_not_return_reserved_frame_test = ret ()" "returns_freed_frame_test = ret ()"
  by (auto simp: returns_correct_available_frames_test_def does_not_return_reserved_frame_test_def returns_freed_frame_test_def
      word_eval address_eval extent_eval frame_eval alloc_eval power_of_two_1 three_bytes allocate_unique_3 insert_commute)

text \<open>\<^verbatim>\<open>overlap_is_commutative\<close>: the only inputs on which the test panics are those with the whole address space as an extent.\<close>

lemma overlap_comm:
  assumes "l_nat (ext_length e) \<noteq> 0" "l_nat (ext_length f) \<noteq> 0"
  shows "overlap e f = overlap f e"
proof (cases "ext_address e = ext_address f")
  case True
  have "\<not> ext_length e \<le> Length 0" "\<not> ext_length f \<le> Length 0" using assms by (simp_all add: nat_view l_nat_Length)
  then show ?thesis using True
    by (simp add: overlap.simps [of e f] overlap.simps [of f e] address_sub_def u_sub_def checked_sub_def length_sub_def min.commute)
next
  case False
  then show ?thesis by (cases "ext_address e < ext_address f") (simp_all add: overlap.simps)
qed

lemma overlap_returns: "\<exists>r. overlap e f = ret r"
proof -
  have "\<exists>r. overlap e f = ret r" if "ext_address e \<le> ext_address f" for e f :: "'a extent"
  proof -
    let ?d = "addr_raw (ext_address f) - addr_raw (ext_address e)"
    have "address_sub (ext_address f) (ext_address e) = ret (Length ?d)"
      using that by (simp add: address_sub_def checked_sub_def less_eq_address_def)
    moreover have "\<exists>l. length_sub (ext_length e) (Length ?d) = ret l" if "\<not> ext_length e \<le> Length ?d"
      using that by (simp add: length_sub_def u_sub_def checked_sub_def less_eq_mem_length_def)
    ultimately show ?thesis using that by (auto simp: overlap.simps [of e f])
  qed
  from this [of e f] this [of f e] show ?thesis by (cases "ext_address e \<le> ext_address f") (auto simp: overlap.simps [of e f])
qed

lemma inclusive_range_eq:
  assumes "x \<le> y"
  shows "from_range_inclusive (Address x) (Address y) = (if x = 0 \<and> y = u64_MAX then throw Overflow
    else ret \<lparr>ext_address = Address x, ext_length = Length (y - x + 1)\<rparr>)"
    "\<not> (x = 0 \<and> y = u64_MAX) \<Longrightarrow> l_nat (Length (y - x + 1)) \<noteq> 0"
proof -
  have d: "unat (y - x) = unat y - unat x" using assms by (simp add: unat_sub_exact)
  have m: "unat (u64_MAX :: u64) = 2 ^ 64 - 1" by (simp add: unsigned_minus_1_eq_mask mask_eq_exp_minus_1)
  have full: "x = 0 \<and> y = u64_MAX \<longleftrightarrow> 2 ^ 64 - 1 \<le> unat y - unat x"
  proof
    assume "2 ^ 64 - 1 \<le> unat y - unat x"
    moreover have "unat y \<le> 2 ^ 64 - 1" using unat_u64_less [of y] by (simp del: unat_u64_less)
    ultimately have "unat x = 0" "unat y = 2 ^ 64 - 1" by simp_all
    moreover from this(2) have "y = u64_MAX" by (intro unat_eqI) (simp only: m)
    ultimately show "x = 0 \<and> y = u64_MAX" by (simp add: unat_eq_zero)
  qed (use m in simp)
  show "from_range_inclusive (Address x) (Address y) = (if x = 0 \<and> y = u64_MAX then throw Overflow
    else ret \<lparr>ext_address = Address x, ext_length = Length (y - x + 1)\<rparr>)"
    unfolding full using assms by (simp add: from_range_inclusive_def address_sub_def length_add_def u_add_def checked_add_def checked_sub_def d)
  show "l_nat (Length (y - x + 1)) \<noteq> 0" if "\<not> (x = 0 \<and> y = u64_MAX)"
    using that unfolding full by (simp add: l_nat_Length unat_add_exact d)
qed

text \<open>\<^verbatim>\<open>bitmap_allocator_uses_all_available_memory\<close>: the sum of the bytes' ones counts the free frames, and each call takes one.\<close>

lemma free_bits_snoc: "free_bits (bm @ [b]) = free_bits bm \<union> (\<lambda>k. 8 * length bm + k) ` {k. k < 8 \<and> bit b k}"
proof (rule set_eqI)
  fix n
  show "n \<in> free_bits (bm @ [b]) \<longleftrightarrow> n \<in> free_bits bm \<union> (\<lambda>k. 8 * length bm + k) ` {k. k < 8 \<and> bit b k}"
  proof (cases "n < 8 * length bm")
    case True
    then have "n div 8 < length bm" by (simp add: less_mult_imp_div_less mult.commute)
    then show ?thesis using True by (auto simp: free_bits_def nth_append)
  next
    case False
    then obtain k where "n = 8 * length bm + k" by (metis le_Suc_ex not_less)
    then show ?thesis by (cases "k < 8") (auto simp: free_bits_def nth_append)
  qed
qed

lemma card_ones: "card {k. k < 8 \<and> bit (b :: u8) k} = length (filter (bit b) [0..<8])"
proof -
  have "{k. k < 8 \<and> bit b k} = set (filter (bit b) [0..<8])" by auto
  then show ?thesis by (simp only: distinct_card distinct_filter distinct_upt)
qed

lemma card_free_bits_snoc: "card (free_bits (bm @ [b])) = card (free_bits bm) + length (filter (bit b) [0..<8])"
proof -
  have "finite (free_bits bm)" by (rule finite_subset [of _ "{..<8 * length bm}"]) (auto simp: free_bits_def)
  moreover have "free_bits bm \<inter> (\<lambda>k. 8 * length bm + k) ` {k. k < 8 \<and> bit b k} = {}" by (auto simp: free_bits_def)
  ultimately show ?thesis unfolding free_bits_snoc by (subst card_Un_disjoint) (simp_all add: card_image card_ones)
qed

lemma sum_ones_eq:
  assumes "unat acc + card (free_bits bm) < 2 ^ 64"
  shows "\<exists>n. sum_ones acc bm = ret n \<and> unat n = unat acc + card (free_bits bm)"
proof -
  define ones where "ones b = length (filter (bit b) [0..<8])" for b :: u8
  have ones: "unat (ucast (count_ones b) :: u64) = ones b" for b
  proof -
    have "ones b \<le> 8" unfolding ones_def by (rule order_trans [OF length_filter_le]) simp
    then show ?thesis by (simp add: count_ones_def ones_def [symmetric] unsigned_ucast_eq take_bit_nat_eq_self unat_of_nat_eq)
  qed
  have card: "card (free_bits bm) = sum_list (map ones bm)" for bm
  proof (induction bm rule: rev_induct)
    case (snoc b bm)
    then show ?case by (simp add: card_free_bits_snoc ones_def)
  qed (simp add: free_bits_def)
  have "\<exists>n. sum_ones acc bm = ret n \<and> unat n = unat acc + sum_list (map ones bm)" if "unat acc + sum_list (map ones bm) < 2 ^ 64" for acc
    using that
  proof (induction bm arbitrary: acc)
    case (Cons b bm)
    have u: "unat (acc + ucast (count_ones b)) = unat acc + ones b" using Cons.prems by (subst unat_add_exact) (simp_all add: ones)
    have "u_add acc (ucast (count_ones b)) = ret (acc + ucast (count_ones b))" using Cons.prems by (simp add: u_add_def checked_add_def ones)
    then show ?case using Cons.IH [of "acc + ucast (count_ones b)"] Cons.prems by (auto simp: u ac_simps)
  qed simp
  then show ?thesis using assms by (simp add: card)
qed

lemma allocate_step:
  assumes "bitmap_inv a" "free_frames a \<noteq> {}"
  shows "\<exists>f a'. allocate_one a = ret (f, a') \<and> bitmap_inv a' \<and> wf_frame f \<and> fidx f \<in> free_frames a \<and> free_frames a' = free_frames a - {fidx f}"
proof -
  obtain n where "free_group (free_frames a) 0 n" using assms(2) by (auto simp: free_group_def)
  then obtain r a' where r: "allocate_range a 0 = ret (Some r, a')" "took_group a 0 r a'"
    using allocate_small_outcome [OF assms(1), of 0] by (auto simp: allocation_outcome_def)
  then have "range_frames r = {fidx (fr_first r)}" by (auto simp: took_group_def range_frames_def)
  then show ?thesis using r by (auto simp: allocate_one_def allocate_def took_group_def wf_frame_range_def free_group_def)
qed

lemma allocate_unique_ok:
  "bitmap_inv a \<Longrightarrow> n = card (free_frames a) \<Longrightarrow> \<forall>f \<in> S. fidx f \<notin> free_frames a \<Longrightarrow>
    \<exists>S' a'. allocate_unique n S a = ret (S', a') \<and> bitmap_inv a' \<and> free_frames a' = {}"
proof (induction n arbitrary: S a)
  case 0
  moreover have "finite (free_frames a)" by (rule finite_subset [OF ba.free_known]) (simp add: known_frames_def)
  ultimately show ?case by simp
next
  case (Suc n)
  then obtain f a' where f: "allocate_one a = ret (f, a')" "bitmap_inv a'" "fidx f \<in> free_frames a" "free_frames a' = free_frames a - {fidx f}"
    using allocate_step [of a] by fastforce
  have fin: "finite (free_frames a)" by (rule finite_subset [OF ba.free_known]) (simp add: known_frames_def)
  have "n = card (free_frames a')" using Suc.prems(2) f(3,4) fin by simp
  moreover have "\<forall>g \<in> insert f S. fidx g \<notin> free_frames a'" using Suc.prems(3) f(4) by auto
  moreover have "f \<notin> S" using Suc.prems(3) f(3) by auto
  ultimately show ?case using Suc.IH [OF f(2), of "insert f S"] f(1) by auto
qed

lemma uses_all_ok:
  assumes "8 * length bm \<le> 2 ^ 52"
  shows "uses_all_available_memory bm = ret ()"
proof -
  let ?a = "bitmap_new bm"
  have inv: "bitmap_inv ?a" and free: "free_frames ?a = free_bits bm" using assms by (simp_all add: bitmap_new_def bitmap_inv_def free_frames_def)
  have "card (free_bits bm) \<le> card {..<8 * length bm}" by (rule card_mono) (auto simp: free_bits_def)
  then obtain n where n: "sum_ones 0 bm = ret n" "unat n = card (free_bits bm)" using sum_ones_eq [of 0 bm] assms by auto
  obtain S a' where a': "allocate_unique (unat n) {} ?a = ret (S, a')" "bitmap_inv a'" "free_frames a' = {}"
    using allocate_unique_ok [OF inv, of "unat n" "{}"] n(2) free by auto
  have "allocate_range a' 0 = ret (None, a')"
    using allocate_small_outcome [OF a'(2), of 0] a'(3) by (auto simp: allocation_outcome_def took_group_def free_group_def)
  then show ?thesis using n(1) a'(1) by (simp add: uses_all_available_memory_def assert_none_left_def allocate_def)
qed



text \<open>
  C35. The repository's property tests hold for all inputs: \<^verbatim>\<open>overlap\<close> is commutative, and from every bitmap exactly as many
  frames can be allocated as it has ones, all of them different. The only inputs on which the first test
  panics describe the whole address space as an extent, whose length does not fit in 64 bits.
\<close>

theorem property_tests_hold:
  assumes "8 * length bm \<le> 2 ^ 52"
  shows "overlap_is_commutative a_first a_last b_first b_last =
      (if a_first \<le> a_last \<and> b_first \<le> b_last \<and> (a_first = 0 \<and> a_last = u64_MAX \<or> b_first = 0 \<and> b_last = u64_MAX) then throw Overflow else ret ())
    \<and> uses_all_available_memory bm = ret ()"
proof
  let ?e = "\<lambda>x y. \<lparr>ext_address = Address x, ext_length = Length (y - x + 1)\<rparr> :: phys_extent"
  have "overlap (?e a_first a_last) (?e b_first b_last) = overlap (?e b_first b_last) (?e a_first a_last)"
    if "a_first \<le> a_last" "b_first \<le> b_last" "\<not> (a_first = 0 \<and> a_last = u64_MAX)" "\<not> (b_first = 0 \<and> b_last = u64_MAX)"
    by (rule overlap_comm) (use inclusive_range_eq(2) that in auto)
  then show "overlap_is_commutative a_first a_last b_first b_last =
      (if a_first \<le> a_last \<and> b_first \<le> b_last \<and> (a_first = 0 \<and> a_last = u64_MAX \<or> b_first = 0 \<and> b_last = u64_MAX) then throw Overflow else ret ())"
    using overlap_returns [of "?e b_first b_last" "?e a_first a_last"]
    by (auto simp: overlap_is_commutative_def inclusive_range_eq assert_eq_def)
  show "uses_all_available_memory bm = ret ()" by (rule uses_all_ok [OF assms])
qed

theorem property_tests_hold_witness: "overlap_is_commutative 5 9 8 14 = ret () \<and> uses_all_available_memory [0xa5, 0, 0x10] = ret ()"
  using property_tests_hold [of "[0xa5, 0, 0x10]" 5 9 8 14] by simp

end
