(* ===== verification/Spec2Isabelle.thy ===== *)
theory Spec2Isabelle
  imports Kernel_Main Unit_Tests
begin

text \<open>
  \<^bold>\<open>A verification library for the kernel \<^verbatim>\<open>testos\<close>.\<close>

  \<^verbatim>\<open>testos\<close> is a small x86-64 kernel in Rust. The crate \<^verbatim>\<open>shared\<close> holds what does not depend on the machine's state:
  addresses and extents, frames and pages, the memory map, the frame allocators, the heap, the text screen and
  the log. The kernel crate (\<^verbatim>\<open>src/\<close> of the repository) builds on it: page tables, memory management, the scheduler,
  the interrupt table and the interrupt controllers. At boot, \<^verbatim>\<open>mm::init\<close> turns the boot loader's memory map into a map
  without the areas the kernel occupies, takes some frames for a bump allocator, builds the page tables with it,
  fills the bitmap of the global frame allocator from the rest and reserves what must not be handed out. The
  heap gets its chunks, and each task its stack, from that allocator.

  \<^bold>\<open>Theories\<close>, each of which imports those whose component it calls:

  \<^item> \<open>Rust_Prelude\<close>: machine integers as words, panics as values of a sum type (\<open>'a rust\<close>), checked arithmetic, slices,
    and \<open>runs\<close>, the statement that a computation returns with a result that satisfies a predicate. Arithmetic
    overflow panics, as in the profile the repository builds with.
  \<^item> \<open>Addr\<close> (\<^verbatim>\<open>shared/src/memory/addr.rs\<close>): \<open>address\<close>, \<open>mem_length\<close> and the record \<open>extent\<close> with every arithmetic operation. The
    lemmas relate an extent to the set of its addresses: overlap is intersection, the differences partition,
    join is the least cover, rounding goes to the nearest multiple, and when each of them panics.
  \<^item> \<open>Page\<close> (\<^verbatim>\<open>shared/src/memory/page.rs\<close>): frames, pages and their ranges. What the two kinds share is the locale
    \<open>page_like\<close> with its extension \<open>page_range_like\<close>, interpreted for both.
  \<^item> \<open>Memory_Map\<close> (\<^verbatim>\<open>shared/src/memory.rs\<close>): \<open>memory_map\<close>, the iterator \<open>kernel_area_marker\<close> and \<open>mark_kernel_areas\<close>. The iterators of
    the crates \<^verbatim>\<open>itertools\<close> and \<^verbatim>\<open>arrayvec\<close> are the parameter \<open>marker_ops\<close> with their documented laws as a hypothesis. The
    loops carry fuel; the property shows that a number linear in the input is enough.
  \<^item> \<open>Frame_Alloc\<close> (\<^verbatim>\<open>shared/src/memory/alloc/phys.rs\<close>): the bump allocator and the bitmap allocator. The contract of the trait
    \<^verbatim>\<open>FrameAllocator\<close> is the locale \<open>frame_allocator\<close>: what each operation does to the set of free frames. Its interpretation
    \<open>ba\<close> is the refinement proof of the bitmap, for the orders for which the code is right (\<open>sound_orders\<close>: up to 24 except 2).
    Clients are sequences of calls (the inductive \<open>session\<close>); the ownership property is by rule induction.
  \<^item> \<open>Bitmap_Fill\<close> (the same file): \<open>fill_bitmap_from_map\<close>, which sets whole bytes where it can, against the set of frames it
    must free.
  \<^item> \<open>Paging\<close> (\<^verbatim>\<open>src/mm/paging.rs\<close>): entries, and \<open>map_page\<close> with its allocation of tables, on a memory of page tables. What
    the mapper needs of its allocator is the locale \<open>frame_source\<close>, interpreted for the bump allocator. The invariant says
    that the tables form a tree; the property gives the effect on every page and the frames taken.
  \<^item> \<open>Heap\<close> (\<^verbatim>\<open>shared/src/memory/alloc/heap.rs\<close>): size classes, free lists and chunks. The provider of chunks is the locale
    \<open>chunk_provider\<close>; the intrusive list and the layout of block headers are parameters with documented laws.
  \<^item> \<open>Kernel_MM\<close> (\<^verbatim>\<open>src/mm.rs\<close>): the address space layout, the global frame allocator and owners of frames, the provider of
    chunks (interpretation \<open>hp\<close>), the page table template, and \<open>mm_init\<close> as a whole.
  \<^item> \<open>Boot_Tables\<close>: the page tables built at boot. The loops of the template are sequences of mappings; the theory gives
    the entry of every page afterwards and counts the tables, which bounds the frames they take.
  \<^item> \<open>Boot_Init\<close>: \<open>mm_init\<close> from its call to its return, on every memory map that meets its conditions (\<open>memory_ok\<close>, \<open>plan_ok\<close>):
    which frames are set aside for the page tables, what is left of the map, and exactly which frames are free.
  \<^item> \<open>Sched\<close> (\<^verbatim>\<open>src/sched.rs\<close>): tasks in a typed memory, the ready list, the context switch instruction by instruction, and
    the creation of tasks. The ready list is a queue (locale \<open>ready_queue\<close>, interpretation \<open>rq\<close>); from this follow round
    robin, and that a spawned task gets its turn. The fuel bounds the walk to the end of the ready list, and
    the length of the list is enough.
  \<^item> \<open>Interrupts\<close> (\<^verbatim>\<open>src/idt.rs\<close>, \<^verbatim>\<open>src/pic.rs\<close>): the interrupt table and the two controllers. The ports are a parameter, and
    \<open>pic_8259\<close> is the hypothesis that controllers as documented are behind them.
  \<^item> \<open>Console\<close> (\<^verbatim>\<open>shared/src/vga.rs\<close>, \<^verbatim>\<open>shared/src/log.rs\<close>, the panic handler of \<^verbatim>\<open>src/kmain.rs\<close>): the text screen refines a window
    on a page that grows; a writer is the locale \<open>text_sink\<close>, interpreted for the screen and for the debug port.

  \<^item> \<open>Gdt\<close> (\<^verbatim>\<open>src/gdt.rs\<close>): the global descriptor table and the segment registers.
  \<^item> \<open>Kernel_Entry\<close> (\<^verbatim>\<open>src/kmain.rs\<close>): the state of the whole kernel and \<open>kernel_entry\<close>, from the boot loader to the jump to the first
    task. What the boot loader and other crates provide is the record \<open>platform\<close>, what is relied on of it \<open>platform_ok\<close>.
  \<^item> \<open>Kernel_Main\<close> (the same file): \<open>kernel_main\<close> and \<open>test_thread\<close> as parts between two calls of the scheduler, and a machine that
    follows each transfer of control through the saved stacks to the part it leads to. One property takes the kernel
    from its entry to \<open>kernel_main\<close>, the other from there to its end; \<open>main_ready\<close> is the state between them.
  \<^item> \<open>Unit_Tests\<close>: the repository's tests of the crate \<^verbatim>\<open>shared\<close>, run on the models; the property tests are proved for all inputs.

  \<^bold>\<open>Correspondence.\<close> A Rust struct is a record or a datatype with one constructor, an enum a datatype. A method is a
  definition of the same name, prefixed where two types have a method of that name; \<^verbatim>\<open>&mut self\<close> is an argument and a
  result. The operators \<^verbatim>\<open>+ - * / % << >>\<close> are \<open>u_add\<close>, \<open>u_sub\<close> and so on, \<^verbatim>\<open>?\<close> and early returns are case distinctions, and loops
  are recursion over the iterated list, or carry fuel whose exhaustion is the value \<open>Diverges\<close>. Statics are fields of a
  state record. Raw pointers are addresses into an explicit memory, and an access that hits nothing is \<open>BadPointer\<close>.

  \<^bold>\<open>What the properties show of the code's faults.\<close> Some properties state behaviour the code does not mean to have:
  order 2 of \<open>allocate_range\<close>, \<open>contained_by_extent\<close>, \<open>fill_range\<close> inside one byte, the test of \<^verbatim>\<open>rax\<close> in \<open>switch_to\<close>, \<open>quit_current\<close>, the
  size of the stacks in \<open>create_task\<close>, and \<open>is_spurious\<close>. The properties of correct behaviour exclude exactly these cases.

  \<^bold>\<open>Not modelled.\<close> The assembly before Rust (\<^verbatim>\<open>entry.nasm\<close>), the program \<^verbatim>\<open>init\<close> (an empty loop), the image builder and the build
  scripts have no logic to verify. Of \<^verbatim>\<open>kernel_main\<close>, the last lines are left out, which build a string on the heap for the log.
  Mutexes, the disabling of interrupts inside the components, log output inside other components, and
  \<^verbatim>\<open>Debug\<close> formatting are left out of the models; there is one processor.
\<close>

end
